(* ===== verification/Gufo_Prelude.thy ===== *)
theory Gufo_Prelude
  imports Main "HOL-Library.Word"
begin

text \<open>
  Shared vocabulary of the development: machine integers at the widths the C++ code uses
  (\<open>std::uint8_t\<close> to \<open>std::uint64_t\<close>, \<open>std::size_t\<close> being 64 bits wide on both
  supported platforms), byte strings, lemma collections and the generic facts on lists, words
  and finite sums that several components need.
\<close>

section \<open>Machine types\<close>

type_synonym u8 = "8 word"
type_synonym u16 = "16 word"
type_synonym u32 = "32 word"
type_synonym u64 = "64 word"
type_synonym size_t = "64 word"

text \<open>A C++ \<open>std::string\<close> holds bytes, as does an Isabelle \<^typ>\<open>string\<close>; the two
  conversions are the \<open>reinterpret_cast\<close>s between \<open>char\<close> and \<open>std::uint8_t\<close>.\<close>

definition byte_of_char :: "char \<Rightarrow> u8" where
  "byte_of_char c = word_of_nat (of_char c)"

definition char_of_byte :: "u8 \<Rightarrow> char" where
  "char_of_byte b = char_of (unat b)"

definition bytes_of_string :: "string \<Rightarrow> u8 list" where
  "bytes_of_string s = map byte_of_char s"

definition string_of_bytes :: "u8 list \<Rightarrow> string" where
  "string_of_bytes bs = map char_of_byte bs"

named_theorems cat_simps "simplification rules of the resource categories"
named_theorems wire_simps "decoding a freshly encoded value"
named_theorems wire_length "lengths of encoded values"

section \<open>Conversions\<close>

lemma of_char_less_256: "(of_char c :: nat) < 256"
  by (metis char_of_eq_iff nat_of_char_less_256)

lemma char_of_byte_of_char [simp]: "char_of_byte (byte_of_char c) = c"
  by (simp add: char_of_byte_def byte_of_char_def unat_of_nat of_char_less_256)

lemma byte_of_char_of_byte [simp]: "byte_of_char (char_of_byte b) = b"
proof -
  have "unat b < 256" using unsigned_less[of b] by simp
  then have "of_char (char_of (unat b) :: char) = unat b"
    by (simp add: of_char_of)
  then show ?thesis by (simp add: byte_of_char_def char_of_byte_def)
qed

lemma string_of_bytes_of_string [simp]: "string_of_bytes (bytes_of_string s) = s"
  by (induction s) (simp_all add: string_of_bytes_def bytes_of_string_def)

lemma length_bytes_of_string [simp]: "length (bytes_of_string s) = length s"
  by (simp add: bytes_of_string_def)

section \<open>Decimal numbers\<close>

text \<open>\<open>std::to_string\<close> and \<open>std::to_chars\<close> of an unsigned number.\<close>

fun digits_of_nat :: "nat \<Rightarrow> string" where
  "digits_of_nat n =
     (if n < 10 then [char_of (48 + n)] else digits_of_nat (n div 10) @ [char_of (48 + n mod 10)])"

declare digits_of_nat.simps [simp del]

section \<open>Bytes bit by bit\<close>

lemma high_bits: "8 \<le> n \<Longrightarrow> \<not> bit (x::u8) n"
  by (auto dest: bit_imp_le_length)

lemma byte_eqI:
  assumes "bit x 0 = bit y 0" "bit x 1 = bit y 1" "bit x 2 = bit y 2" "bit x 3 = bit y 3"
    "bit x 4 = bit y 4" "bit x 5 = bit y 5" "bit x 6 = bit y 6" "bit x 7 = bit y 7"
  shows "x = (y::u8)"
proof (rule bit_eqI)
  fix n :: nat
  consider "n = 0" | "n = 1" | "n = 2" | "n = 3" | "n = 4" | "n = 5" | "n = 6" | "n = 7" | "8 \<le> n" by linarith
  then show "bit x n = bit y n" using assms by cases (simp_all add: high_bits)
qed

section \<open>Sums over updated lists\<close>

text \<open>The ledger's counters are sums over its allocations. Changing one allocation changes a
  sum by the difference of the two summands; in a ring this needs no side condition.\<close>

lemma sum_list_update_ring:
  fixes f :: "'a \<Rightarrow> 'b::ab_group_add"
  assumes "i < length xs"
  shows "sum_list (map f (xs[i := x])) = sum_list (map f xs) - f (xs ! i) + f x"
  using assms
proof (induction xs arbitrary: i)
  case Nil
  then show ?case by simp
next
  case (Cons y ys)
  then show ?case by (cases i) (auto simp: algebra_simps)
qed

lemma sum_list_update_nat:
  fixes f :: "'a \<Rightarrow> nat"
  assumes "i < length xs"
  shows "sum_list (map f (xs[i := x])) + f (xs ! i) = sum_list (map f xs) + f x"
  using assms
proof (induction xs arbitrary: i)
  case Nil
  then show ?case by simp
next
  case (Cons y ys)
  then show ?case by (cases i) auto
qed

section \<open>Unsigned comparison without wrap-around\<close>

text \<open>\<open>bytes > limit - used\<close> is how the code avoids overflow: the difference is exact while
  \<open>used\<close> is within \<open>limit\<close>.\<close>

lemma unat_sub_le:
  fixes a b :: "'a::len word"
  assumes "b \<le> a"
  shows "unat (a - b) = unat a - unat b"
  using assms by (simp add: unat_sub_if_size word_le_nat_alt)

lemma fits_iff:
  fixes used limit bytes :: "'a::len word"
  assumes "used \<le> limit"
  shows "\<not> limit - used < bytes \<longleftrightarrow> unat used + unat bytes \<le> unat limit"
  using assms by (auto simp: word_less_nat_alt word_le_nat_alt unat_sub_le)

lemma unat_plus_fits:
  fixes used limit bytes :: "'a::len word"
  assumes "unat used + unat bytes \<le> unat limit"
  shows "unat (used + bytes) = unat used + unat bytes"
proof -
  have "unat used + unat bytes < 2 ^ LENGTH('a)"
    using assms unsigned_less by (rule le_less_trans)
  then show ?thesis
    by (simp add: unat_word_ariths)
qed

lemma le_plus_fits:
  fixes used limit bytes :: "'a::len word"
  assumes "unat used + unat bytes \<le> unat limit"
  shows "used + bytes \<le> limit"
  using assms unat_plus_fits[OF assms] by (simp add: word_le_nat_alt)

end
