(* ===== verification/Ledger.thy ===== *)
theory Ledger
  imports Gufo_Prelude
begin

text \<open>
  The resource ledger of \<open>src/cache/ledger.hpp\<close> and \<open>src/cache/ledger.cpp\<close>: byte admission
  for every owner of cache storage. The shared state behind the handles is a \<open>world\<close>: the
  ledgers, and the \<open>Allocation\<close>, \<open>ChargeToken\<close> and \<open>PinToken\<close> objects, each named by its
  position in a list (a pointer). \<open>shared_ptr\<close> ownership is explicit: a token counts the client
  handles that share it, pins keep their token alive, tokens keep their allocations alive, and
  the destructors run when the last owner goes. The lock is held for a whole operation, so an
  operation is one step; the opt-in lock timing reads the clock only and is left out. A block
  operation of an \<open>Each\<close> loop finds the ledger in the block it visits; \<open>ReserveBacking\<close> lets no
  token span two ledgers, so it is the ledger the code has at hand.
\<close>

section \<open>Data\<close>

datatype resource_category =
    BackingFree
  | BackingAssigned
  | BackingMaterialized
  | PrivateState
  | PrivateTail
  | Metadata
  | TransferStaging
  | CategoryCount

fun category_index :: "resource_category \<Rightarrow> nat" where
  "category_index BackingFree = 0"
| "category_index BackingAssigned = 1"
| "category_index BackingMaterialized = 2"
| "category_index PrivateState = 3"
| "category_index PrivateTail = 4"
| "category_index Metadata = 5"
| "category_index TransferStaging = 6"
| "category_index CategoryCount = 7"

definition category_count :: nat where
  "category_count = category_index CategoryCount"

record resource_limits =
  total_limit :: size_t
  ram_limit :: size_t
  staging_limit :: size_t
  pinned_limit :: size_t

record resource_snapshot =
  snap_bytes :: "resource_category \<Rightarrow> size_t"
  snap_reserved :: "resource_category \<Rightarrow> size_t"
  snap_total :: size_t
  snap_ram :: size_t
  snap_pinned :: size_t
  peak_bytes :: "resource_category \<Rightarrow> size_t"
  peak_total :: size_t
  peak_ram :: size_t
  peak_pinned :: size_t

datatype ledger_step = StepReserve | StepConvert | StepPin | StepRelease | StepCount

fun step_index :: "ledger_step \<Rightarrow> nat" where
  "step_index StepReserve = 0"
| "step_index StepConvert = 1"
| "step_index StepPin = 2"
| "step_index StepRelease = 3"
| "step_index StepCount = 4"

record ledger_state =
  ls_limits :: resource_limits
  ls_snapshot :: resource_snapshot
  ls_faults :: "ledger_step \<Rightarrow> size_t option"

text \<open>\<open>std::bad_alloc\<close>, its subclass \<open>ResourceExhausted\<close>, and the two argument errors.\<close>

datatype ledger_error =
    InvalidArgument string
  | LogicError string
  | ResourceExhausted
  | BadAlloc

record allocation =
  al_ledger :: nat
  al_category :: resource_category
  al_backing :: bool
  al_bytes :: size_t
  al_admitted :: bool
  al_reserved :: bool
  al_pins :: nat

text \<open>\<open>tk_handles\<close> counts the client's \<open>ResourceReservation\<close> and \<open>ResourceCharge\<close> objects;
  \<open>tk_reservation\<close> says that the handle is still the move-only reservation.\<close>

record charge_token =
  tk_allocation :: nat
  tk_additional :: "nat list"
  tk_pooled :: bool
  tk_active :: bool
  tk_handles :: nat
  tk_reservation :: bool
  tk_live :: bool

record pin_token =
  pn_charge :: nat
  pn_active :: bool
  pn_handles :: nat

record world =
  ledgers :: "nat \<Rightarrow> ledger_state"
  allocs :: "allocation list"
  tokens :: "charge_token list"
  pins :: "pin_token list"

record allocation_info =
  info_category :: resource_category
  info_bytes :: size_t
  info_reserved :: bool
  info_pool_backing :: bool
  info_assigned_backing :: bool
  info_persistence_pinned :: bool

type_synonym 'a ledger_result = "world \<times> (ledger_error + 'a)"

section \<open>State access\<close>

definition snapshot_of :: "world \<Rightarrow> nat \<Rightarrow> resource_snapshot" where
  "snapshot_of w l = ls_snapshot (ledgers w l)"

definition limits_of :: "world \<Rightarrow> nat \<Rightarrow> resource_limits" where
  "limits_of w l = ls_limits (ledgers w l)"

definition set_ledger :: "nat \<Rightarrow> ledger_state \<Rightarrow> world \<Rightarrow> world" where
  "set_ledger l s w = w\<lparr>ledgers := (ledgers w)(l := s)\<rparr>"

definition on_snapshot ::
  "nat \<Rightarrow> (resource_snapshot \<Rightarrow> resource_snapshot) \<Rightarrow> world \<Rightarrow> world" where
  "on_snapshot l f w =
     set_ledger l ((ledgers w l)\<lparr>ls_snapshot := f (snapshot_of w l)\<rparr>) w"

definition set_alloc :: "nat \<Rightarrow> allocation \<Rightarrow> world \<Rightarrow> world" where
  "set_alloc i a w = w\<lparr>allocs := (allocs w)[i := a]\<rparr>"

definition set_token :: "nat \<Rightarrow> charge_token \<Rightarrow> world \<Rightarrow> world" where
  "set_token i t w = w\<lparr>tokens := (tokens w)[i := t]\<rparr>"

definition set_pin :: "nat \<Rightarrow> pin_token \<Rightarrow> world \<Rightarrow> world" where
  "set_pin i p w = w\<lparr>pins := (pins w)[i := p]\<rparr>"

text \<open>\<open>ChargeToken::Each\<close> visits the first block and then the additional ones.\<close>

definition each :: "charge_token \<Rightarrow> nat list" where
  "each t = tk_allocation t # tk_additional t"

definition bump_bytes :: "resource_category \<Rightarrow> size_t \<Rightarrow> resource_snapshot \<Rightarrow> resource_snapshot" where
  "bump_bytes c n s = s\<lparr>snap_bytes := (snap_bytes s)(c := snap_bytes s c + n)\<rparr>"

definition drop_bytes :: "resource_category \<Rightarrow> size_t \<Rightarrow> resource_snapshot \<Rightarrow> resource_snapshot" where
  "drop_bytes c n s = s\<lparr>snap_bytes := (snap_bytes s)(c := snap_bytes s c - n)\<rparr>"

definition bump_reserved :: "resource_category \<Rightarrow> size_t \<Rightarrow> resource_snapshot \<Rightarrow> resource_snapshot" where
  "bump_reserved c n s = s\<lparr>snap_reserved := (snap_reserved s)(c := snap_reserved s c + n)\<rparr>"

definition drop_reserved :: "resource_category \<Rightarrow> size_t \<Rightarrow> resource_snapshot \<Rightarrow> resource_snapshot" where
  "drop_reserved c n s = s\<lparr>snap_reserved := (snap_reserved s)(c := snap_reserved s c - n)\<rparr>"

section \<open>LedgerState::Fail and LedgerState::Peaks\<close>

text \<open>The flag says whether the injected failure is thrown.\<close>

definition fail_step :: "ledger_step \<Rightarrow> ledger_state \<Rightarrow> ledger_state \<times> bool" where
  "fail_step step s =
     (case ls_faults s step of
        None \<Rightarrow> (s, False)
      | Some n \<Rightarrow>
          if n \<noteq> 0 then (s\<lparr>ls_faults := (ls_faults s)(step := Some (n - 1))\<rparr>, False)
          else (s\<lparr>ls_faults := (ls_faults s)(step := None)\<rparr>, True))"

definition peaks :: "resource_snapshot \<Rightarrow> resource_snapshot" where
  "peaks s = s\<lparr>peak_bytes := (\<lambda>c. max (peak_bytes s c) (snap_bytes s c)),
               peak_total := max (peak_total s) (snap_total s),
               peak_ram := max (peak_ram s) (snap_ram s),
               peak_pinned := max (peak_pinned s) (snap_pinned s)\<rparr>"

section \<open>ResourceLedger::Reserve\<close>

definition new_allocation :: "nat \<Rightarrow> resource_category \<Rightarrow> size_t \<Rightarrow> allocation" where
  "new_allocation l c n =
     \<lparr>al_ledger = l, al_category = c, al_backing = (c = BackingFree), al_bytes = n,
      al_admitted = True, al_reserved = True, al_pins = 0\<rparr>"

definition admit_snapshot :: "resource_category \<Rightarrow> size_t \<Rightarrow> resource_snapshot \<Rightarrow> resource_snapshot" where
  "admit_snapshot c n s0 =
     (let s1 = bump_reserved c n (bump_bytes c n s0);
          s2 = s1\<lparr>snap_total := snap_total s1 + n\<rparr>;
          s3 = (if c \<noteq> TransferStaging then s2\<lparr>snap_ram := snap_ram s2 + n\<rparr> else s2)
      in peaks s3)"

definition over_budget :: "ledger_state \<Rightarrow> resource_category \<Rightarrow> size_t \<Rightarrow> bool" where
  "over_budget s c n =
     (let sn = ls_snapshot s; lim = ls_limits s
      in n > total_limit lim - snap_total sn \<or>
         (if c = TransferStaging
          then n > staging_limit lim - snap_bytes sn TransferStaging
          else n > ram_limit lim - snap_ram sn))"

definition reserve :: "world \<Rightarrow> nat \<Rightarrow> resource_category \<Rightarrow> size_t \<Rightarrow> nat ledger_result" where
  "reserve w l c n =
     (if category_index c \<ge> category_count \<or> c = BackingAssigned \<or> c = BackingMaterialized \<or> n = 0
      then (w, Inl (InvalidArgument ''ledger reserve requires a nonzero allocation category''))
      else
        (case fail_step StepReserve (ledgers w l) of
           (s, True) \<Rightarrow> (set_ledger l s w, Inl BadAlloc)
         | (s, False) \<Rightarrow>
             if over_budget s c n then (set_ledger l s w, Inl ResourceExhausted)
             else
               (let s' = s\<lparr>ls_snapshot := admit_snapshot c n (ls_snapshot s)\<rparr>;
                    token = \<lparr>tk_allocation = length (allocs w), tk_additional = [],
                             tk_pooled = False, tk_active = True, tk_handles = 1,
                             tk_reservation = True, tk_live = True\<rparr>
                in ((set_ledger l s' w)\<lparr>allocs := allocs w @ [new_allocation l c n],
                                         tokens := tokens w @ [token]\<rparr>,
                    Inr (length (tokens w))))))"

section \<open>Info\<close>

definition info :: "world \<Rightarrow> nat option \<Rightarrow> ledger_error + allocation_info" where
  "info w h =
     (case h of
        None \<Rightarrow> Inl (LogicError ''empty ledger handle'')
      | Some t \<Rightarrow>
          (let token = tokens w ! t; a = allocs w ! tk_allocation token
           in Inr \<lparr>info_category = al_category a,
                   info_bytes = sum_list (map (\<lambda>b. al_bytes (allocs w ! b)) (each token)),
                   info_reserved = al_reserved a,
                   info_pool_backing = al_backing a,
                   info_assigned_backing = tk_pooled token,
                   info_persistence_pinned =
                     list_ex (\<lambda>b. al_pins (allocs w ! b) \<noteq> 0) (each token)\<rparr>))"

section \<open>ResourceCharge::FindFreeBacking\<close>

definition pool_handle :: "world \<Rightarrow> nat option \<Rightarrow> bool" where
  "pool_handle w h =
     (case h of
        None \<Rightarrow> False
      | Some t \<Rightarrow> \<not> tk_pooled (tokens w ! t) \<and> al_backing (allocs w ! tk_allocation (tokens w ! t)))"

definition handle_alloc :: "world \<Rightarrow> nat option \<Rightarrow> allocation" where
  "handle_alloc w h = allocs w ! tk_allocation (tokens w ! the h)"

text \<open>The loop of the search: \<open>i\<close> counts the blocks visited, \<open>run\<close> the free blocks in a row.\<close>

function find_free_loop ::
  "world \<Rightarrow> nat option list \<Rightarrow> nat \<Rightarrow> bool \<Rightarrow> nat \<Rightarrow> nat \<Rightarrow> nat \<Rightarrow> ledger_error + nat" where
  "find_free_loop w blocks count from_end ledger i run =
     (if i \<ge> length blocks then Inr (length blocks)
      else
        (let index = (if from_end then length blocks - 1 - i else i);
             block = blocks ! index
         in if \<not> pool_handle w block
            then Inl (LogicError ''search requires original pool backing handles'')
            else if al_ledger (handle_alloc w block) \<noteq> ledger
            then Inl (InvalidArgument ''backing search spans ledgers'')
            else
              (let run' = (if al_category (handle_alloc w block) = BackingFree then run + 1 else 0)
               in if run' = count then Inr (if from_end then index else index + 1 - count)
                  else find_free_loop w blocks count from_end ledger (i + 1) run')))"
  by pat_completeness auto
termination
  by (relation "measure (\<lambda>(w, blocks, count, from_end, ledger, i, run). length blocks - i)") auto

declare find_free_loop.simps [simp del]

definition find_free_backing ::
  "world \<Rightarrow> nat option list \<Rightarrow> nat \<Rightarrow> bool \<Rightarrow> ledger_error + nat" where
  "find_free_backing w blocks count from_end =
     (if count = 0 then Inl (InvalidArgument ''empty backing run'')
      else if blocks = [] then Inr 0
      else
        (let first = (if from_end then last blocks else hd blocks)
         in if \<not> pool_handle w first
            then Inl (LogicError ''search requires original pool backing handles'')
            else find_free_loop w blocks count from_end (al_ledger (handle_alloc w first)) 0 0))"

section \<open>ResourceReservation::Convert\<close>

text \<open>One visit of the \<open>Each\<close> loop: the reservation of a block becomes a charge, and an
  assigned spill block becomes a materialized chunk.\<close>

definition convert_block :: "world \<Rightarrow> nat \<Rightarrow> world" where
  "convert_block w b =
     (let a = allocs w ! b;
          w1 = on_snapshot (al_ledger a) (drop_reserved (al_category a) (al_bytes a)) w;
          a1 = a\<lparr>al_reserved := False\<rparr>
      in if al_category a = BackingAssigned
         then set_alloc b (a1\<lparr>al_category := BackingMaterialized\<rparr>)
                (on_snapshot (al_ledger a)
                   (bump_bytes BackingMaterialized (al_bytes a) \<circ>
                    drop_bytes BackingAssigned (al_bytes a)) w1)
         else set_alloc b a1 w1)"

definition token_ledger :: "world \<Rightarrow> charge_token \<Rightarrow> nat" where
  "token_ledger w t = al_ledger (allocs w ! tk_allocation t)"

text \<open>The reservation handle is moved into the returned charge: the token keeps its owner.\<close>

definition convert :: "world \<Rightarrow> nat option \<Rightarrow> nat ledger_result" where
  "convert w h =
     (case h of
        None \<Rightarrow> (w, Inl (LogicError ''empty ledger reservation''))
      | Some t \<Rightarrow>
          (let token = tokens w ! t; l = token_ledger w token
           in case fail_step StepConvert (ledgers w l) of
                (s, True) \<Rightarrow> (set_ledger l s w, Inl BadAlloc)
              | (s, False) \<Rightarrow>
                  (let w1 = foldl convert_block (set_ledger l s w) (each token);
                       w2 = on_snapshot l peaks w1
                   in (set_token t (token\<lparr>tk_reservation := False\<rparr>) w2, Inr t))))"

section \<open>ResourceCharge::ReserveBacking\<close>

definition assign_block :: "resource_category \<Rightarrow> world \<Rightarrow> nat \<Rightarrow> world" where
  "assign_block c w b =
     (let a = allocs w ! b
      in set_alloc b (a\<lparr>al_category := c, al_reserved := True\<rparr>)
           (on_snapshot (al_ledger a)
              (bump_reserved c (al_bytes a) \<circ> bump_bytes c (al_bytes a) \<circ>
               drop_bytes BackingFree (al_bytes a)) w))"

text \<open>The nested duplicate and ledger checks, block by block in the source's order: \<open>seen\<close> is
  the allocations of the blocks before this one.\<close>

fun check_blocks :: "world \<Rightarrow> nat \<Rightarrow> nat list \<Rightarrow> nat list \<Rightarrow> ledger_error option" where
  "check_blocks w ledger seen [] = None"
| "check_blocks w ledger seen (b # bs) =
     (if al_ledger (allocs w ! b) \<noteq> ledger
      then Some (InvalidArgument ''backing assignment spans ledgers'')
      else if b \<in> set seen then Some (InvalidArgument ''duplicate backing block'')
      else check_blocks w ledger (seen @ [b]) bs)"

definition reserve_backing ::
  "world \<Rightarrow> nat option list \<Rightarrow> resource_category \<Rightarrow> nat ledger_result" where
  "reserve_backing w blocks c =
     (if c \<noteq> BackingAssigned \<and> c \<noteq> PrivateState \<and> c \<noteq> PrivateTail
      then (w, Inl (InvalidArgument ''backing assignment requires spill, private state or tail''))
      else if blocks = [] then (w, Inl (InvalidArgument ''empty backing assignment''))
      else if list_ex (\<lambda>h. \<not> pool_handle w h) blocks
      then (w, Inl (LogicError ''assignment requires original pool backing handles''))
      else
        (let ids = map (\<lambda>h. tk_allocation (tokens w ! the h)) blocks;
             l = al_ledger (allocs w ! hd ids)
         in case check_blocks w l [hd ids] (tl ids) of
              Some e \<Rightarrow> (w, Inl e)
            | None \<Rightarrow>
                if list_ex (\<lambda>b. al_category (allocs w ! b) \<noteq> BackingFree) ids
                then (w, Inl ResourceExhausted)
                else
                  (case fail_step StepReserve (ledgers w l) of
                     (s, True) \<Rightarrow> (set_ledger l s w, Inl BadAlloc)
                   | (s, False) \<Rightarrow>
                       (let w1 = foldl (assign_block c) (set_ledger l s w) ids;
                            w2 = on_snapshot l peaks w1;
                            token = \<lparr>tk_allocation = hd ids, tk_additional = tl ids,
                                     tk_pooled = True, tk_active = True, tk_handles = 1,
                                     tk_reservation = True, tk_live = True\<rparr>
                        in (w2\<lparr>tokens := tokens w2 @ [token]\<rparr>, Inr (length (tokens w)))))))"

text \<open>The one-block overload passes a span of itself.\<close>

definition reserve_backing_one ::
  "world \<Rightarrow> nat option \<Rightarrow> resource_category \<Rightarrow> nat ledger_result" where
  "reserve_backing_one w h c = reserve_backing w [h] c"

section \<open>Pin\<close>

definition payload_category :: "resource_category \<Rightarrow> bool" where
  "payload_category c \<longleftrightarrow>
     c = BackingAssigned \<or> c = BackingMaterialized \<or> c = PrivateState \<or> c = PrivateTail"

definition pinnable :: "charge_token \<Rightarrow> allocation \<Rightarrow> bool" where
  "pinnable t a \<longleftrightarrow>
     (let borrowed = tk_pooled t \<and> (al_category a = BackingAssigned \<or> al_category a = PrivateTail)
      in \<not> (\<not> payload_category (al_category a) \<or> (al_reserved a \<and> \<not> borrowed) \<or>
            (al_backing a \<and> \<not> tk_pooled t)))"

definition newly_pinned :: "world \<Rightarrow> charge_token \<Rightarrow> size_t" where
  "newly_pinned w t =
     sum_list (map (\<lambda>b. if al_pins (allocs w ! b) = 0 then al_bytes (allocs w ! b) else 0) (each t))"

definition pin_block :: "world \<Rightarrow> nat \<Rightarrow> world" where
  "pin_block w b = set_alloc b ((allocs w ! b)\<lparr>al_pins := al_pins (allocs w ! b) + 1\<rparr>) w"

definition pin_persistence :: "world \<Rightarrow> nat option \<Rightarrow> nat ledger_result" where
  "pin_persistence w h =
     (case h of
        None \<Rightarrow> (w, Inl (LogicError ''empty ledger charge''))
      | Some t \<Rightarrow>
          (let token = tokens w ! t; l = token_ledger w token
           in if list_ex (\<lambda>b. \<not> pinnable token (allocs w ! b)) (each token)
              then (w, Inl (LogicError ''persistence pin requires owned payload''))
              else
                (case fail_step StepPin (ledgers w l) of
                   (s, True) \<Rightarrow> (set_ledger l s w, Inl BadAlloc)
                 | (s, False) \<Rightarrow>
                     if newly_pinned w token > pinned_limit (ls_limits s) - snap_pinned (ls_snapshot s)
                     then (set_ledger l s w, Inl BadAlloc)
                     else
                       (let w1 = on_snapshot l
                                   (\<lambda>sn. sn\<lparr>snap_pinned := snap_pinned sn + newly_pinned w token\<rparr>)
                                   (set_ledger l s w);
                            w2 = foldl pin_block w1 (each token);
                            w3 = on_snapshot l peaks w2
                        in (w3\<lparr>pins := pins w3 @
                                   [\<lparr>pn_charge = t, pn_active = True, pn_handles = 1\<rparr>]\<rparr>,
                            Inr (length (pins w)))))))"

section \<open>Destructors\<close>

text \<open>\<open>~Allocation\<close>: the last token that refers to the allocation has gone.\<close>

definition destroy_alloc :: "world \<Rightarrow> nat \<Rightarrow> world" where
  "destroy_alloc w b =
     (let a = allocs w ! b
      in if \<not> al_admitted a then w
         else
           (let w1 = on_snapshot (al_ledger a)
                       (\<lambda>s0.
                          (let s1 = drop_bytes (al_category a) (al_bytes a) s0;
                               s2 = (if al_reserved a
                                     then drop_reserved (al_category a) (al_bytes a) s1 else s1);
                               s3 = s2\<lparr>snap_total := snap_total s2 - al_bytes a\<rparr>
                           in if al_category a \<noteq> TransferStaging
                              then s3\<lparr>snap_ram := snap_ram s3 - al_bytes a\<rparr> else s3)) w
            in set_alloc b (a\<lparr>al_admitted := False\<rparr>) w1))"

text \<open>The body of \<open>~ChargeToken\<close>: an assignment hands its blocks back to the pool.\<close>

definition return_block :: "world \<Rightarrow> nat \<Rightarrow> world" where
  "return_block w b =
     (let a = allocs w ! b
      in set_alloc b (a\<lparr>al_category := BackingFree, al_reserved := False\<rparr>)
           (on_snapshot (al_ledger a)
              (bump_bytes BackingFree (al_bytes a) \<circ>
               (if al_reserved a then drop_reserved (al_category a) (al_bytes a) else id) \<circ>
               drop_bytes (al_category a) (al_bytes a)) w))"

text \<open>A block's \<open>shared_ptr\<close> count reaches zero when no live token refers to it any more.\<close>

definition referenced :: "world \<Rightarrow> nat \<Rightarrow> bool" where
  "referenced w b \<longleftrightarrow> list_ex (\<lambda>t. tk_live t \<and> b \<in> set (each t)) (tokens w)"

definition release_alloc :: "world \<Rightarrow> nat \<Rightarrow> world" where
  "release_alloc w b = (if referenced w b then w else destroy_alloc w b)"

definition destroy_token :: "world \<Rightarrow> nat \<Rightarrow> world" where
  "destroy_token w t =
     (let token = tokens w ! t;
          w1 = (if tk_pooled token \<and> tk_active token
                then on_snapshot (token_ledger w token) peaks
                       (foldl return_block w (each token))
                else w);
          w2 = set_token t (token\<lparr>tk_live := False\<rparr>) w1
      in foldl release_alloc w2 (tk_additional token @ [tk_allocation token]))"

definition token_pinned :: "world \<Rightarrow> nat \<Rightarrow> bool" where
  "token_pinned w t \<longleftrightarrow> list_ex (\<lambda>p. pn_handles p > 0 \<and> pn_charge p = t) (pins w)"

definition release_token :: "world \<Rightarrow> nat \<Rightarrow> world" where
  "release_token w t =
     (if tk_live (tokens w ! t) \<and> tk_handles (tokens w ! t) = 0 \<and> \<not> token_pinned w t
      then destroy_token w t else w)"

text \<open>Copying, moving and destroying handles. A reservation is move-only; a charge and a pin are
  copied by sharing their token.\<close>

definition copy_charge :: "world \<Rightarrow> nat \<Rightarrow> world" where
  "copy_charge w t =
     (let token = tokens w ! t in set_token t (token\<lparr>tk_handles := tk_handles token + 1\<rparr>) w)"

definition drop_handle :: "world \<Rightarrow> nat \<Rightarrow> world" where
  "drop_handle w t =
     (let token = tokens w ! t
      in release_token (set_token t (token\<lparr>tk_handles := tk_handles token - 1\<rparr>) w) t)"

definition copy_pin :: "world \<Rightarrow> nat \<Rightarrow> world" where
  "copy_pin w p =
     (let pin = pins w ! p in set_pin p (pin\<lparr>pn_handles := pn_handles pin + 1\<rparr>) w)"

text \<open>\<open>~PinToken\<close>: the last pin of a block takes it out of the pinned total.\<close>

definition unpin_block :: "world \<Rightarrow> nat \<Rightarrow> world" where
  "unpin_block w b =
     (let a = allocs w ! b;
          w1 = set_alloc b (a\<lparr>al_pins := al_pins a - 1\<rparr>) w
      in if al_pins a - 1 = 0
         then on_snapshot (al_ledger a) (\<lambda>s. s\<lparr>snap_pinned := snap_pinned s - al_bytes a\<rparr>) w1
         else w1)"

definition drop_pin :: "world \<Rightarrow> nat \<Rightarrow> world" where
  "drop_pin w p =
     (let pin = pins w ! p;
          w1 = set_pin p (pin\<lparr>pn_handles := pn_handles pin - 1\<rparr>) w
      in if pn_handles pin = 1
         then release_token
                (if pn_active pin then foldl unpin_block w1 (each (tokens w ! pn_charge pin)) else w1)
                (pn_charge pin)
         else w1)"

section \<open>Limits, snapshots and faults\<close>

definition constrain_limits :: "world \<Rightarrow> nat \<Rightarrow> resource_limits \<Rightarrow> unit ledger_result" where
  "constrain_limits w l lim =
     (let old = limits_of w l; s = snapshot_of w l
      in if total_limit lim > total_limit old \<or> ram_limit lim > ram_limit old \<or>
            staging_limit lim > staging_limit old \<or> pinned_limit lim > pinned_limit old
         then (w, Inl (InvalidArgument ''ledger limits may only decrease''))
         else if total_limit lim < snap_total s \<or> ram_limit lim < snap_ram s \<or>
                 staging_limit lim < snap_bytes s TransferStaging \<or>
                 pinned_limit lim < snap_pinned s
         then (w, Inl ResourceExhausted)
         else (set_ledger l ((ledgers w l)\<lparr>ls_limits := lim\<rparr>) w, Inr ()))"

definition reset_peaks :: "resource_snapshot \<Rightarrow> resource_snapshot" where
  "reset_peaks s = s\<lparr>peak_bytes := snap_bytes s, peak_total := snap_total s,
                     peak_ram := snap_ram s, peak_pinned := snap_pinned s\<rparr>"

definition snapshot_and_reset_peaks :: "world \<Rightarrow> nat \<Rightarrow> world \<times> resource_snapshot" where
  "snapshot_and_reset_peaks w l = (on_snapshot l reset_peaks w, snapshot_of w l)"

definition fail_after :: "world \<Rightarrow> nat \<Rightarrow> ledger_step \<Rightarrow> size_t \<Rightarrow> unit ledger_result" where
  "fail_after w l step n =
     (if step_index step \<ge> step_index StepRelease
      then (w, Inl (InvalidArgument ''ledger release cannot fail''))
      else (let s = ledgers w l
            in (set_ledger l (s\<lparr>ls_faults := (ls_faults s)(step := Some n)\<rparr>) w, Inr ())))"

definition clear_faults :: "world \<Rightarrow> nat \<Rightarrow> world" where
  "clear_faults w l =
     (let s = ledgers w l in set_ledger l (s\<lparr>ls_faults := (\<lambda>_. None)\<rparr>) w)"

text \<open>\<open>ResourceLedger::ResourceLedger\<close>: an empty ledger with its limits.\<close>

definition new_ledger :: "resource_limits \<Rightarrow> ledger_state" where
  "new_ledger lim =
     \<lparr>ls_limits = lim,
      ls_snapshot = \<lparr>snap_bytes = (\<lambda>_. 0), snap_reserved = (\<lambda>_. 0), snap_total = 0, snap_ram = 0,
                     snap_pinned = 0, peak_bytes = (\<lambda>_. 0), peak_total = 0, peak_ram = 0,
                     peak_pinned = 0\<rparr>,
      ls_faults = (\<lambda>_. None)\<rparr>"

definition init_world :: "(nat \<Rightarrow> resource_limits) \<Rightarrow> world" where
  "init_world lims = \<lparr>ledgers = (\<lambda>l. new_ledger (lims l)), allocs = [], tokens = [], pins = []\<rparr>"

end
