(* ===== verification/Ledger_Counters.thy ===== *)
theory Ledger_Counters
  imports Ledger
begin

text \<open>
  The counters of a ledger against its allocations: each total is the sum of the bytes of the
  admitted allocations it stands for, kept by every block operation. \<open>block_op\<close> is the contract
  the \<open>Each\<close> loops rely on; the loops' facts are proved once inside it.
\<close>

section \<open>Reading a world after an update\<close>

lemma world_update_simps [simp]:
  "allocs (set_ledger l s w) = allocs w" "tokens (set_ledger l s w) = tokens w"
  "pins (set_ledger l s w) = pins w"
  "allocs (on_snapshot l f w) = allocs w" "tokens (on_snapshot l f w) = tokens w"
  "pins (on_snapshot l f w) = pins w"
  "allocs (set_alloc i a w) = (allocs w)[i := a]" "tokens (set_alloc i a w) = tokens w"
  "pins (set_alloc i a w) = pins w"
  "allocs (set_token i t w) = allocs w" "tokens (set_token i t w) = (tokens w)[i := t]"
  "pins (set_token i t w) = pins w"
  "allocs (set_pin i p w) = allocs w" "tokens (set_pin i p w) = tokens w"
  "pins (set_pin i p w) = (pins w)[i := p]"
  "ledgers (set_alloc i a w) = ledgers w" "ledgers (set_token i t w) = ledgers w"
  "ledgers (set_pin i p w) = ledgers w"
  by (simp_all add: set_ledger_def on_snapshot_def set_alloc_def set_token_def set_pin_def)

lemma snapshot_on_snapshot [simp]:
  "snapshot_of (on_snapshot l f w) l' = (if l' = l then f (snapshot_of w l) else snapshot_of w l')"
  by (simp add: snapshot_of_def on_snapshot_def set_ledger_def)

lemma limits_on_snapshot [simp]: "limits_of (on_snapshot l f w) l' = limits_of w l'"
  by (simp add: limits_of_def on_snapshot_def set_ledger_def)

lemma ledger_of_set_ledger [simp]:
  "snapshot_of (set_ledger l s w) l' = (if l' = l then ls_snapshot s else snapshot_of w l')"
  "limits_of (set_ledger l s w) l' = (if l' = l then ls_limits s else limits_of w l')"
  by (simp_all add: snapshot_of_def limits_of_def set_ledger_def)

lemma snapshot_of_same [simp]:
  "snapshot_of (set_alloc i a w) l = snapshot_of w l" "snapshot_of (set_token j t w) l = snapshot_of w l"
  "snapshot_of (set_pin k p w) l = snapshot_of w l"
  "limits_of (set_alloc i a w) l = limits_of w l" "limits_of (set_token j t w) l = limits_of w l"
  "limits_of (set_pin k p w) l = limits_of w l"
  by (simp_all add: snapshot_of_def limits_of_def)

lemma of_more_world [simp]:
  "snapshot_of (w\<lparr>allocs := as\<rparr>) l = snapshot_of w l" "snapshot_of (w\<lparr>tokens := ts\<rparr>) l = snapshot_of w l"
  "snapshot_of (w\<lparr>pins := ps\<rparr>) l = snapshot_of w l"
  "limits_of (w\<lparr>allocs := as\<rparr>) l = limits_of w l" "limits_of (w\<lparr>tokens := ts\<rparr>) l = limits_of w l"
  "limits_of (w\<lparr>pins := ps\<rparr>) l = limits_of w l"
  by (simp_all add: snapshot_of_def limits_of_def)

lemma bump_drop_fields [simp]:
  "snap_bytes (bump_bytes c n s) = (snap_bytes s)(c := snap_bytes s c + n)"
  "snap_bytes (drop_bytes c n s) = (snap_bytes s)(c := snap_bytes s c - n)"
  "snap_bytes (bump_reserved c n s) = snap_bytes s" "snap_bytes (drop_reserved c n s) = snap_bytes s"
  "snap_reserved (bump_reserved c n s) = (snap_reserved s)(c := snap_reserved s c + n)"
  "snap_reserved (drop_reserved c n s) = (snap_reserved s)(c := snap_reserved s c - n)"
  "snap_reserved (bump_bytes c n s) = snap_reserved s" "snap_reserved (drop_bytes c n s) = snap_reserved s"
  "snap_total (bump_bytes c n s) = snap_total s" "snap_total (drop_bytes c n s) = snap_total s"
  "snap_total (bump_reserved c n s) = snap_total s" "snap_total (drop_reserved c n s) = snap_total s"
  "snap_ram (bump_bytes c n s) = snap_ram s" "snap_ram (drop_bytes c n s) = snap_ram s"
  "snap_ram (bump_reserved c n s) = snap_ram s" "snap_ram (drop_reserved c n s) = snap_ram s"
  "snap_pinned (bump_bytes c n s) = snap_pinned s" "snap_pinned (drop_bytes c n s) = snap_pinned s"
  "snap_pinned (bump_reserved c n s) = snap_pinned s" "snap_pinned (drop_reserved c n s) = snap_pinned s"
  by (simp_all add: bump_bytes_def drop_bytes_def bump_reserved_def drop_reserved_def)

lemma peaks_fields [simp]:
  "snap_bytes (peaks s) = snap_bytes s" "snap_reserved (peaks s) = snap_reserved s"
  "snap_total (peaks s) = snap_total s" "snap_ram (peaks s) = snap_ram s"
  "snap_pinned (peaks s) = snap_pinned s"
  by (simp_all add: peaks_def)

lemma fail_step_keeps:
  assumes "fail_step st s = (s', b)"
  shows "ls_snapshot s' = ls_snapshot s" "ls_limits s' = ls_limits s"
  using assms by (auto simp: fail_step_def split: option.splits if_splits)

section \<open>Sums over the admitted allocations of a ledger\<close>

definition counted :: "nat \<Rightarrow> (allocation \<Rightarrow> bool) \<Rightarrow> allocation \<Rightarrow> bool" where
  "counted l P a \<longleftrightarrow> al_admitted a \<and> al_ledger a = l \<and> P a"

definition acct :: "allocation list \<Rightarrow> nat \<Rightarrow> (allocation \<Rightarrow> bool) \<Rightarrow> size_t" where
  "acct as l P = sum_list (map (\<lambda>a. if counted l P a then al_bytes a else 0) as)"

definition nacct :: "allocation list \<Rightarrow> nat \<Rightarrow> (allocation \<Rightarrow> bool) \<Rightarrow> nat" where
  "nacct as l P = sum_list (map (\<lambda>a. if counted l P a then unat (al_bytes a) else 0) as)"

lemma acct_of_nacct: "acct as l P = word_of_nat (nacct as l P)"
  by (induction as) (simp_all add: acct_def nacct_def)

lemma acct_update:
  assumes "b < length as"
  shows "acct (as[b := a]) l P =
    acct as l P - (if counted l P (as ! b) then al_bytes (as ! b) else 0) +
      (if counted l P a then al_bytes a else 0)"
  using assms by (simp add: acct_def sum_list_update_ring)

lemma nacct_update:
  assumes "b < length as"
  shows "nacct (as[b := a]) l P + (if counted l P (as ! b) then unat (al_bytes (as ! b)) else 0) =
    nacct as l P + (if counted l P a then unat (al_bytes a) else 0)"
  unfolding nacct_def
  by (rule sum_list_update_nat[OF assms, of "\<lambda>a. if counted l P a then unat (al_bytes a) else 0" a])

lemma acct_append [simp]:
  "acct (as @ bs) l P = acct as l P + acct bs l P" "acct [] l P = 0"
  "acct (a # as) l P = (if counted l P a then al_bytes a else 0) + acct as l P"
  by (simp_all add: acct_def)

lemma nacct_append [simp]:
  "nacct (as @ bs) l P = nacct as l P + nacct bs l P" "nacct [] l P = 0"
  "nacct (a # as) l P = (if counted l P a then unat (al_bytes a) else 0) + nacct as l P"
  by (simp_all add: nacct_def)

lemma unat_acct: "nacct as l P \<le> unat (m :: size_t) \<Longrightarrow> unat (acct as l P) = nacct as l P"
proof -
  assume "nacct as l P \<le> unat m"
  then have "nacct as l P < 2 ^ LENGTH(64)"
    using unsigned_less by (rule le_less_trans)
  then show ?thesis
    by (simp add: acct_of_nacct unat_of_nat)
qed

lemma nacct_mono: "(\<And>a. P a \<Longrightarrow> Q a) \<Longrightarrow> nacct as l P \<le> nacct as l Q"
  by (induction as) (auto simp: counted_def)

section \<open>The counters\<close>

abbreviation "in_category c \<equiv> \<lambda>a. al_category a = c"
abbreviation "reserved_in c \<equiv> \<lambda>a. al_category a = c \<and> al_reserved a"
abbreviation "anything \<equiv> \<lambda>a::allocation. True"
abbreviation "in_ram \<equiv> \<lambda>a. al_category a \<noteq> TransferStaging"
abbreviation "is_pinned \<equiv> \<lambda>a. 0 < al_pins a"

definition counters_ok :: "world \<Rightarrow> bool" where
  "counters_ok w \<longleftrightarrow>
     (\<forall>l. (\<forall>c. snap_bytes (snapshot_of w l) c = acct (allocs w) l (in_category c)) \<and>
          (\<forall>c. snap_reserved (snapshot_of w l) c = acct (allocs w) l (reserved_in c)) \<and>
          snap_total (snapshot_of w l) = acct (allocs w) l anything \<and>
          snap_ram (snapshot_of w l) = acct (allocs w) l in_ram)"

definition pinned_ok :: "world \<Rightarrow> bool" where
  "pinned_ok w \<longleftrightarrow> (\<forall>l. snap_pinned (snapshot_of w l) = acct (allocs w) l is_pinned)"

lemma counters_ok_cong:
  assumes "\<And>l. snap_bytes (snapshot_of w' l) = snap_bytes (snapshot_of w l)"
    and "\<And>l. snap_reserved (snapshot_of w' l) = snap_reserved (snapshot_of w l)"
    and "\<And>l. snap_total (snapshot_of w' l) = snap_total (snapshot_of w l)"
    and "\<And>l. snap_ram (snapshot_of w' l) = snap_ram (snapshot_of w l)"
    and "allocs w' = allocs w"
  shows "counters_ok w' = counters_ok w"
  using assms by (simp add: counters_ok_def)

text \<open>Each block operation moves the same bytes in the snapshot as in the sums.\<close>

lemma counters_convert_block:
  assumes "counters_ok w" "b < length (allocs w)"
    and "al_admitted (allocs w ! b)" "al_reserved (allocs w ! b)"
  shows "counters_ok (convert_block w b)"
  using assms
  by (auto simp: counters_ok_def convert_block_def Let_def acct_update counted_def)

lemma counters_assign_block:
  assumes "counters_ok w" "b < length (allocs w)"
    and "al_admitted (allocs w ! b)" "al_category (allocs w ! b) = BackingFree"
    and "\<not> al_reserved (allocs w ! b)" "c \<noteq> TransferStaging"
  shows "counters_ok (assign_block c w b)"
  using assms
  by (auto simp: counters_ok_def assign_block_def Let_def acct_update counted_def)

lemma counters_return_block:
  assumes "counters_ok w" "b < length (allocs w)"
    and "al_admitted (allocs w ! b)" "al_category (allocs w ! b) \<noteq> TransferStaging"
  shows "counters_ok (return_block w b)"
  using assms
  by (auto simp: counters_ok_def return_block_def Let_def acct_update counted_def)

lemma counters_destroy_alloc:
  assumes "counters_ok w" "b < length (allocs w)"
  shows "counters_ok (destroy_alloc w b)"
  using assms
  by (auto simp: counters_ok_def destroy_alloc_def Let_def acct_update counted_def)

section \<open>The contract of a block operation\<close>

text \<open>What every \<open>Each\<close> callback of the ledger promises: it rewrites its own block by \<open>g\<close>,
  touches no other block, token, pin or limit, and on a block satisfying \<open>pre\<close> it keeps the
  counters equal to the sums.\<close>

locale block_op =
  fixes f :: "world \<Rightarrow> nat \<Rightarrow> world"
    and g :: "allocation \<Rightarrow> allocation"
    and pre :: "allocation \<Rightarrow> bool"
  assumes f_allocs: "allocs (f w b) = (allocs w)[b := g (allocs w ! b)]"
    and f_tokens: "tokens (f w b) = tokens w"
    and f_pins: "pins (f w b) = pins w"
    and f_limits: "limits_of (f w b) l = limits_of w l"
    and f_counters: "counters_ok w \<Longrightarrow> b < length (allocs w) \<Longrightarrow> pre (allocs w ! b) \<Longrightarrow>
      counters_ok (f w b)"
begin

lemma fold_frame:
  "tokens (foldl f w bs) = tokens w" "pins (foldl f w bs) = pins w"
  "length (allocs (foldl f w bs)) = length (allocs w)" "limits_of (foldl f w bs) l = limits_of w l"
  by (induction bs arbitrary: w) (simp_all add: f_tokens f_pins f_allocs f_limits)

lemma fold_other: "i \<notin> set bs \<Longrightarrow> allocs (foldl f w bs) ! i = allocs w ! i"
  by (induction bs arbitrary: w) (auto simp: f_allocs)

lemma fold_block:
  assumes "distinct bs" "i \<in> set bs" "i < length (allocs w)"
  shows "allocs (foldl f w bs) ! i = g (allocs w ! i)"
  using assms
proof (induction bs arbitrary: w)
  case Nil
  then show ?case by simp
next
  case (Cons b bs)
  show ?case
  proof (cases "i = b")
    case True
    with Cons.prems show ?thesis by (simp add: fold_other f_allocs)
  next
    case False
    with Cons.prems have "allocs (foldl f (f w b) bs) ! i = g (allocs (f w b) ! i)"
      by (intro Cons.IH) (simp_all add: f_allocs)
    with False show ?thesis by (simp add: f_allocs)
  qed
qed

lemma fold_nth:
  assumes "distinct bs" "i < length (allocs w)"
  shows "allocs (foldl f w bs) ! i = (if i \<in> set bs then g (allocs w ! i) else allocs w ! i)"
  using assms by (simp add: fold_block fold_other)

lemma fold_counters:
  assumes "distinct bs" "\<forall>b\<in>set bs. b < length (allocs w) \<and> pre (allocs w ! b)" "counters_ok w"
  shows "counters_ok (foldl f w bs)"
  using assms
proof (induction bs arbitrary: w)
  case Nil
  then show ?case by simp
next
  case (Cons b bs)
  have "counters_ok (foldl f (f w b) bs)"
  proof (rule Cons.IH)
    show "distinct bs" using Cons.prems(1) by simp
    show "\<forall>x\<in>set bs. x < length (allocs (f w b)) \<and> pre (allocs (f w b) ! x)"
      using Cons.prems(1,2) by (auto simp: f_allocs nth_list_update)
    show "counters_ok (f w b)" using Cons.prems by (simp add: f_counters)
  qed
  then show ?case by simp
qed

end

text \<open>A block operation that also leaves the block's identity, size and pins alone, and the
  pinned total with them.\<close>

locale quiet_block_op = block_op +
  assumes g_same: "al_admitted (g a) = al_admitted a" "al_ledger (g a) = al_ledger a"
      "al_bytes (g a) = al_bytes a" "al_pins (g a) = al_pins a" "al_backing (g a) = al_backing a"
    and f_pinned: "snap_pinned (snapshot_of (f w b) l) = snap_pinned (snapshot_of w l)"
begin

lemma fold_pinned: "snap_pinned (snapshot_of (foldl f w bs) l) = snap_pinned (snapshot_of w l)"
  by (induction bs arbitrary: w) (simp_all add: f_pinned)

lemma acct_pins_f: "acct (allocs (f w b)) l is_pinned = acct (allocs w) l is_pinned"
  by (cases "b < length (allocs w)") (simp_all add: f_allocs acct_update counted_def g_same list_update_beyond)

lemma fold_pinned_ok: "pinned_ok w \<Longrightarrow> pinned_ok (foldl f w bs)"
  unfolding pinned_ok_def
proof (induction bs arbitrary: w)
  case Nil
  then show ?case by simp
next
  case (Cons b bs)
  have "\<forall>l. snap_pinned (snapshot_of (f w b) l) = acct (allocs (f w b)) l is_pinned"
    using Cons.prems by (simp only: f_pinned acct_pins_f) simp
  then show ?case
    using Cons.IH[of "f w b"] by simp
qed

end

definition convert_alloc :: "allocation \<Rightarrow> allocation" where
  "convert_alloc a = a\<lparr>al_reserved := False,
     al_category := (if al_category a = BackingAssigned then BackingMaterialized else al_category a)\<rparr>"

definition assign_alloc :: "resource_category \<Rightarrow> allocation \<Rightarrow> allocation" where
  "assign_alloc c a = a\<lparr>al_category := c, al_reserved := True\<rparr>"

definition return_alloc :: "allocation \<Rightarrow> allocation" where
  "return_alloc a = a\<lparr>al_category := BackingFree, al_reserved := False\<rparr>"

lemma convert_block_fields:
  "allocs (convert_block w b) = (allocs w)[b := convert_alloc (allocs w ! b)]"
  "tokens (convert_block w b) = tokens w" "pins (convert_block w b) = pins w"
  "limits_of (convert_block w b) l = limits_of w l"
  "snap_pinned (snapshot_of (convert_block w b) l) = snap_pinned (snapshot_of w l)"
  by (simp_all add: convert_block_def convert_alloc_def Let_def)

lemma assign_block_fields:
  "allocs (assign_block c w b) = (allocs w)[b := assign_alloc c (allocs w ! b)]"
  "tokens (assign_block c w b) = tokens w" "pins (assign_block c w b) = pins w"
  "limits_of (assign_block c w b) l = limits_of w l"
  "snap_pinned (snapshot_of (assign_block c w b) l) = snap_pinned (snapshot_of w l)"
  by (simp_all add: assign_block_def assign_alloc_def Let_def)

lemma return_block_fields:
  "allocs (return_block w b) = (allocs w)[b := return_alloc (allocs w ! b)]"
  "tokens (return_block w b) = tokens w" "pins (return_block w b) = pins w"
  "limits_of (return_block w b) l = limits_of w l"
  "snap_pinned (snapshot_of (return_block w b) l) = snap_pinned (snapshot_of w l)"
  by (simp_all add: return_block_def return_alloc_def Let_def)

interpretation conv: quiet_block_op convert_block convert_alloc "\<lambda>a. al_admitted a \<and> al_reserved a"
  by unfold_locales (auto simp: convert_block_fields counters_convert_block convert_alloc_def)

interpretation asg: quiet_block_op "assign_block c" "assign_alloc c"
  "\<lambda>a. al_admitted a \<and> al_category a = BackingFree \<and> \<not> al_reserved a \<and> c \<noteq> TransferStaging" for c
  by unfold_locales (auto simp: assign_block_fields counters_assign_block assign_alloc_def)

interpretation ret: quiet_block_op return_block return_alloc
  "\<lambda>a. al_admitted a \<and> al_category a \<noteq> TransferStaging"
  by unfold_locales (auto simp: return_block_fields counters_return_block return_alloc_def)

lemma counters_pin_block: "counters_ok w \<Longrightarrow> b < length (allocs w) \<Longrightarrow> counters_ok (pin_block w b)"
  by (auto simp: pin_block_def counters_ok_def acct_update counted_def)

lemma counters_unpin_block: "counters_ok w \<Longrightarrow> b < length (allocs w) \<Longrightarrow> counters_ok (unpin_block w b)"
  by (auto simp: unpin_block_def Let_def counters_ok_def acct_update counted_def)

lemma pin_block_fields:
  "allocs (pin_block w b) = (allocs w)[b := (allocs w ! b)\<lparr>al_pins := al_pins (allocs w ! b) + 1\<rparr>]"
  "tokens (pin_block w b) = tokens w" "pins (pin_block w b) = pins w"
  "limits_of (pin_block w b) l = limits_of w l" "snapshot_of (pin_block w b) l = snapshot_of w l"
  by (simp_all add: pin_block_def)

lemma unpin_block_fields:
  "allocs (unpin_block w b) = (allocs w)[b := (allocs w ! b)\<lparr>al_pins := al_pins (allocs w ! b) - 1\<rparr>]"
  "tokens (unpin_block w b) = tokens w" "pins (unpin_block w b) = pins w"
  "limits_of (unpin_block w b) l = limits_of w l"
  by (simp_all add: unpin_block_def Let_def)

interpretation pinb: block_op pin_block "\<lambda>a. a\<lparr>al_pins := al_pins a + 1\<rparr>" "\<lambda>a. True"
  by unfold_locales (simp_all only: pin_block_fields counters_pin_block)

interpretation unpinb: block_op unpin_block "\<lambda>a. a\<lparr>al_pins := al_pins a - 1\<rparr>" "\<lambda>a. True"
  by unfold_locales (simp_all only: unpin_block_fields counters_unpin_block)

end
