(* ===== verification/Ledger_Heap.thy ===== *)
theory Ledger_Heap
  imports Ledger_Counters
begin

text \<open>
  The ownership structure behind the ledger's handles: which tokens hold which allocations, and
  how categories, reservations and pins agree with them. It is what makes the assertions of the
  destructors true and an assigned block the property of one owner. The predicates read the
  allocation, token and pin lists only.
\<close>

section \<open>The structural invariant\<close>

definition live :: "charge_token list \<Rightarrow> nat \<Rightarrow> bool" where
  "live ts i \<longleftrightarrow> i < length ts \<and> tk_live (ts ! i)"

abbreviation holds :: "charge_token list \<Rightarrow> nat \<Rightarrow> nat \<Rightarrow> bool" where
  "holds ts i b \<equiv> b \<in> set (each (ts ! i))"

definition tokens_ok :: "allocation list \<Rightarrow> charge_token list \<Rightarrow> bool" where
  "tokens_ok as ts \<longleftrightarrow>
     (\<forall>i. live ts i \<longrightarrow> tk_active (ts ! i) \<and> distinct (each (ts ! i)) \<and>
        (\<forall>b. holds ts i b \<longrightarrow> b < length as \<and> al_admitted (as ! b) \<and>
             al_ledger (as ! b) = al_ledger (as ! tk_allocation (ts ! i))))"

definition pooled_ok :: "allocation list \<Rightarrow> charge_token list \<Rightarrow> bool" where
  "pooled_ok as ts \<longleftrightarrow>
     (\<forall>i b. live ts i \<longrightarrow> tk_pooled (ts ! i) \<longrightarrow> holds ts i b \<longrightarrow>
        al_backing (as ! b) \<and> payload_category (al_category (as ! b)) \<and>
        al_reserved (as ! b) = tk_reservation (ts ! i))"

text \<open>No two live assignments share a block.\<close>

definition exclusive :: "charge_token list \<Rightarrow> bool" where
  "exclusive ts \<longleftrightarrow>
     (\<forall>i j b. live ts i \<longrightarrow> live ts j \<longrightarrow> tk_pooled (ts ! i) \<longrightarrow> tk_pooled (ts ! j) \<longrightarrow>
        holds ts i b \<longrightarrow> holds ts j b \<longrightarrow> i = j)"

definition owners_ok :: "allocation list \<Rightarrow> charge_token list \<Rightarrow> bool" where
  "owners_ok as ts \<longleftrightarrow>
     (\<forall>i. live ts i \<longrightarrow> \<not> tk_pooled (ts ! i) \<longrightarrow> tk_additional (ts ! i) = [] \<and>
        (\<not> al_backing (as ! tk_allocation (ts ! i)) \<longrightarrow>
           al_reserved (as ! tk_allocation (ts ! i)) = tk_reservation (ts ! i)) \<and>
        (al_backing (as ! tk_allocation (ts ! i)) \<longrightarrow> tk_reservation (ts ! i) \<longrightarrow>
           al_category (as ! tk_allocation (ts ! i)) = BackingFree \<and>
           al_reserved (as ! tk_allocation (ts ! i))))"

definition unique_owner :: "charge_token list \<Rightarrow> bool" where
  "unique_owner ts \<longleftrightarrow>
     (\<forall>i j. live ts i \<longrightarrow> live ts j \<longrightarrow> \<not> tk_pooled (ts ! i) \<longrightarrow> \<not> tk_pooled (ts ! j) \<longrightarrow>
        tk_allocation (ts ! i) = tk_allocation (ts ! j) \<longrightarrow> i = j)"

definition allocs_ok :: "allocation list \<Rightarrow> charge_token list \<Rightarrow> bool" where
  "allocs_ok as ts \<longleftrightarrow>
     (\<forall>b < length as. al_admitted (as ! b) \<longrightarrow>
        (\<exists>i. live ts i \<and> holds ts i b) \<and>
        (\<not> al_backing (as ! b) \<longrightarrow>
           al_category (as ! b) \<notin> {BackingFree, BackingAssigned, BackingMaterialized}) \<and>
        (al_backing (as ! b) \<longrightarrow> al_category (as ! b) \<noteq> BackingFree \<longrightarrow>
           (\<exists>i. live ts i \<and> tk_pooled (ts ! i) \<and> holds ts i b)) \<and>
        (al_backing (as ! b) \<longrightarrow> al_category (as ! b) = BackingFree \<longrightarrow> al_reserved (as ! b) \<longrightarrow>
           (\<exists>i. live ts i \<and> \<not> tk_pooled (ts ! i) \<and> tk_reservation (ts ! i) \<and>
                tk_allocation (ts ! i) = b)))"

definition pins_on :: "charge_token list \<Rightarrow> pin_token list \<Rightarrow> nat \<Rightarrow> nat" where
  "pins_on ts ps b = length (filter (\<lambda>p. 0 < pn_handles p \<and> holds ts (pn_charge p) b) ps)"

definition pins_ok :: "allocation list \<Rightarrow> charge_token list \<Rightarrow> pin_token list \<Rightarrow> bool" where
  "pins_ok as ts ps \<longleftrightarrow>
     (\<forall>p \<in> set ps. 0 < pn_handles p \<longrightarrow> pn_active p \<and> live ts (pn_charge p) \<and>
        (\<forall>b. holds ts (pn_charge p) b \<longrightarrow> al_backing (as ! b) \<longrightarrow> tk_pooled (ts ! pn_charge p))) \<and>
     (\<forall>b < length as. al_admitted (as ! b) \<longrightarrow> al_pins (as ! b) = pins_on ts ps b)"

definition heap_core :: "allocation list \<Rightarrow> charge_token list \<Rightarrow> pin_token list \<Rightarrow> bool" where
  "heap_core as ts ps \<longleftrightarrow> tokens_ok as ts \<and> pooled_ok as ts \<and> exclusive ts \<and> owners_ok as ts \<and>
     unique_owner ts \<and> allocs_ok as ts \<and> pins_ok as ts ps"

text \<open>Client handles: a token lives while a handle or a pin shares it, and a reservation is
  move-only.\<close>

definition pinned_token :: "pin_token list \<Rightarrow> nat \<Rightarrow> bool" where
  "pinned_token ps t \<longleftrightarrow> (\<exists>p \<in> set ps. 0 < pn_handles p \<and> pn_charge p = t)"

definition handles_ok :: "charge_token list \<Rightarrow> pin_token list \<Rightarrow> bool" where
  "handles_ok ts ps \<longleftrightarrow>
     (\<forall>i < length ts. (tk_live (ts ! i) \<longleftrightarrow> 0 < tk_handles (ts ! i) \<or> pinned_token ps i) \<and>
        (tk_reservation (ts ! i) \<longrightarrow> tk_handles (ts ! i) \<le> 1))"

definition heap_ok :: "world \<Rightarrow> bool" where
  "heap_ok w \<longleftrightarrow> heap_core (allocs w) (tokens w) (pins w) \<and> handles_ok (tokens w) (pins w)"

lemmas heap_core_defs =
  tokens_ok_def pooled_ok_def exclusive_def owners_ok_def unique_owner_def allocs_ok_def

lemma tokens_okD:
  assumes "tokens_ok as ts" "live ts i"
  shows "tk_active (ts ! i)" "distinct (each (ts ! i))"
    and "holds ts i b \<Longrightarrow> b < length as" "holds ts i b \<Longrightarrow> al_admitted (as ! b)"
    and "holds ts i b \<Longrightarrow> al_ledger (as ! b) = al_ledger (as ! tk_allocation (ts ! i))"
  using assms by (auto simp: tokens_ok_def)

lemma pooled_okD:
  assumes "pooled_ok as ts" "live ts i" "tk_pooled (ts ! i)" "holds ts i b"
  shows "al_backing (as ! b)" "payload_category (al_category (as ! b))"
    and "al_reserved (as ! b) = tk_reservation (ts ! i)" "al_category (as ! b) \<noteq> BackingFree"
    and "al_category (as ! b) \<noteq> TransferStaging"
proof -
  show p: "al_backing (as ! b)" "payload_category (al_category (as ! b))"
    "al_reserved (as ! b) = tk_reservation (ts ! i)"
    using assms unfolding pooled_ok_def by metis+
  then show "al_category (as ! b) \<noteq> BackingFree" "al_category (as ! b) \<noteq> TransferStaging"
    by (auto simp: payload_category_def)
qed

lemma owners_okD:
  assumes "owners_ok as ts" "live ts i" "\<not> tk_pooled (ts ! i)"
  shows "tk_additional (ts ! i) = []"
    and "\<not> al_backing (as ! tk_allocation (ts ! i)) \<Longrightarrow>
      al_reserved (as ! tk_allocation (ts ! i)) = tk_reservation (ts ! i)"
    and "al_backing (as ! tk_allocation (ts ! i)) \<Longrightarrow> tk_reservation (ts ! i) \<Longrightarrow>
      al_category (as ! tk_allocation (ts ! i)) = BackingFree \<and> al_reserved (as ! tk_allocation (ts ! i))"
  using assms by (auto simp: owners_ok_def)

lemma exclusiveD:
  "exclusive ts \<Longrightarrow> live ts i \<Longrightarrow> live ts j \<Longrightarrow> tk_pooled (ts ! i) \<Longrightarrow> tk_pooled (ts ! j) \<Longrightarrow>
    holds ts i b \<Longrightarrow> holds ts j b \<Longrightarrow> i = j"
  unfolding exclusive_def by metis

lemma live_append: "live (ts @ [t]) i \<longleftrightarrow> live ts i \<or> (i = length ts \<and> tk_live t)"
  by (auto simp: live_def nth_append less_Suc_eq)

lemma each_append: "live ts i \<Longrightarrow> (ts @ [t]) ! i = ts ! i"
  by (simp add: live_def nth_append)

lemma live_update:
  "live (ts[k := t]) i \<longleftrightarrow> i < length ts \<and> (if i = k then tk_live t else tk_live (ts ! i))"
  by (auto simp: live_def)

lemma each_simps [simp]:
  "each (t\<lparr>tk_live := x\<rparr>) = each t" "each (t\<lparr>tk_handles := n\<rparr>) = each t"
  "each (t\<lparr>tk_reservation := y\<rparr>) = each t"
  by (simp_all add: each_def)

lemma pins_on_cong:
  assumes "\<And>p. p \<in> set ps \<Longrightarrow> 0 < pn_handles p \<Longrightarrow> each (ts ! pn_charge p) = each (ts' ! pn_charge p)"
  shows "pins_on ts ps b = pins_on ts' ps b"
  unfolding pins_on_def by (rule arg_cong[where f=length], rule filter_cong) (auto simp: assms)

text \<open>Reading lists after one element was appended, without unfolding the append.\<close>

lemma nth_snoc [simp]: "i < length xs \<Longrightarrow> (xs @ [x]) ! i = xs ! i" "(xs @ [x]) ! length xs = x"
  by (simp_all add: nth_append)

lemma all_snoc: "(\<forall>i < length (xs @ [x]). P i ((xs @ [x]) ! i)) \<longleftrightarrow> (\<forall>i < length xs. P i (xs ! i)) \<and> P (length xs) x"
  by (auto simp: less_Suc_eq)

text \<open>What one allocation contributes to \<open>allocs_ok\<close>.\<close>

definition alloc_ok :: "charge_token list \<Rightarrow> nat \<Rightarrow> allocation \<Rightarrow> bool" where
  "alloc_ok ts b a \<longleftrightarrow>
     (\<exists>i. live ts i \<and> holds ts i b) \<and>
     (\<not> al_backing a \<longrightarrow> al_category a \<notin> {BackingFree, BackingAssigned, BackingMaterialized}) \<and>
     (al_backing a \<longrightarrow> al_category a \<noteq> BackingFree \<longrightarrow>
        (\<exists>i. live ts i \<and> tk_pooled (ts ! i) \<and> holds ts i b)) \<and>
     (al_backing a \<longrightarrow> al_category a = BackingFree \<longrightarrow> al_reserved a \<longrightarrow>
        (\<exists>i. live ts i \<and> \<not> tk_pooled (ts ! i) \<and> tk_reservation (ts ! i) \<and> tk_allocation (ts ! i) = b))"

lemma allocs_ok_alt:
  "allocs_ok as ts \<longleftrightarrow> (\<forall>b < length as. al_admitted (as ! b) \<longrightarrow> alloc_ok ts b (as ! b))"
  by (simp add: allocs_ok_def alloc_ok_def)

lemma alloc_ok_mono:
  assumes "alloc_ok ts b a"
    and "\<And>i. live ts i \<Longrightarrow> holds ts i b \<Longrightarrow> live ts' i \<and> each (ts' ! i) = each (ts ! i) \<and>
      tk_pooled (ts' ! i) = tk_pooled (ts ! i) \<and> tk_reservation (ts' ! i) = tk_reservation (ts ! i)"
  shows "alloc_ok ts' b a"
proof -
  have alloc: "tk_allocation (ts' ! i) = tk_allocation (ts ! i)" if "each (ts' ! i) = each (ts ! i)" for i
    using that by (simp add: each_def)
  have "holds ts i (tk_allocation (ts ! i))" for i
    by (simp add: each_def)
  with assms alloc show ?thesis
    unfolding alloc_ok_def by metis
qed

section \<open>Reserving\<close>

lemma core_reserve:
  assumes "heap_core as ts ps" "tk_allocation t = length as" "tk_additional t = []"
    and "\<not> tk_pooled t" "tk_active t" "tk_reservation t" "tk_live t"
    and "c \<noteq> BackingAssigned" "c \<noteq> BackingMaterialized"
  shows "heap_core (as @ [new_allocation l c n]) (ts @ [t]) ps"
proof -
  let ?a = "new_allocation l c n"
  have core: "tokens_ok as ts" "pooled_ok as ts" "exclusive ts" "owners_ok as ts"
    "unique_owner ts" "allocs_ok as ts" "pins_ok as ts ps"
    using assms(1) by (simp_all add: heap_core_def)
  have each_t: "each t = [length as]" using assms by (simp add: each_def)
  have old: "\<And>i b. live ts i \<Longrightarrow> holds ts i b \<Longrightarrow> b < length as"
    using core(1) by (auto simp: tokens_ok_def)
  have old0: "\<And>i. live ts i \<Longrightarrow> tk_allocation (ts ! i) < length as"
    using old by (simp add: each_def)
  have old_ne: "\<And>i. live ts i \<Longrightarrow> tk_allocation (ts ! i) \<noteq> length as"
    using old0 by force
  note simps = live_append each_append old old0 old_ne assms each_t new_allocation_def less_Suc_eq
  show ?thesis
    unfolding heap_core_def
  proof (intro conjI)
    show "tokens_ok (as @ [?a]) (ts @ [t])"
      using core(1) by (auto simp: tokens_ok_def simps)
    show "pooled_ok (as @ [?a]) (ts @ [t])"
      using core(2) by (auto simp: pooled_ok_def simps)
    show "exclusive (ts @ [t])"
      using core(3) by (auto simp: exclusive_def simps)
    show "owners_ok (as @ [?a]) (ts @ [t])"
      using core(4) by (auto simp: owners_ok_def simps)
    show "unique_owner (ts @ [t])"
      using core(5) by (auto simp: unique_owner_def simps dest: sym)
    have keep: "alloc_ok (ts @ [t]) b a" if "alloc_ok ts b a" for a b
      using that by (rule alloc_ok_mono) (simp add: simps)
    have new: "alloc_ok (ts @ [t]) (length as) ?a"
      using assms each_t by (auto simp: alloc_ok_def live_append new_allocation_def intro!: exI[of _ "length ts"])
    show "allocs_ok (as @ [?a]) (ts @ [t])"
      using core(6) keep new unfolding allocs_ok_alt by (auto simp: less_Suc_eq)
    have same: "\<And>b. pins_on (ts @ [t]) ps b = pins_on ts ps b"
      using core(7) by (intro pins_on_cong) (auto simp: pins_ok_def each_append)
    have none: "pins_on ts ps (length as) = 0"
      using core(7) old by (force simp: pins_on_def pins_ok_def filter_empty_conv)
    show "pins_ok (as @ [?a]) (ts @ [t]) ps"
      unfolding pins_ok_def same using core(7) none
      by (auto simp: pins_ok_def simps)
  qed
qed

section \<open>Converting\<close>

lemma core_convert:
  assumes core: "heap_core as ts ps" and t: "live ts t" "tk_reservation (ts ! t)"
    and as': "length as' = length as"
      "\<And>i. i < length as \<Longrightarrow> as' ! i = (if holds ts t i then convert_alloc (as ! i) else as ! i)"
  shows "heap_core as' (ts[t := (ts ! t)\<lparr>tk_reservation := False\<rparr>]) ps"
proof -
  let ?ts = "ts[t := (ts ! t)\<lparr>tk_reservation := False\<rparr>]"
  have core': "tokens_ok as ts" "pooled_ok as ts" "exclusive ts" "owners_ok as ts"
    "unique_owner ts" "allocs_ok as ts" "pins_ok as ts ps"
    using core by (simp_all add: heap_core_def)
  have lt: "t < length ts" using t by (simp add: live_def)
  have tok: "each (?ts ! i) = each (ts ! i)" "tk_pooled (?ts ! i) = tk_pooled (ts ! i)"
    "tk_allocation (?ts ! i) = tk_allocation (ts ! i)" "tk_additional (?ts ! i) = tk_additional (ts ! i)"
    "tk_active (?ts ! i) = tk_active (ts ! i)" "live ?ts i = live ts i"
    "tk_reservation (?ts ! i) \<longleftrightarrow> i \<noteq> t \<and> tk_reservation (ts ! i)" for i
    using lt by (auto simp: nth_list_update live_def)
  have lim: "b < length as" "al_admitted (as ! b)" if "live ts i" "holds ts i b" for i b
    using core'(1) that by (auto simp: tokens_ok_def)
  have lim0: "tk_allocation (ts ! i) < length as" if "live ts i" for i
    using lim(1)[OF that, of "tk_allocation (ts ! i)"] by (simp add: each_def)
  have al: "al_admitted (as' ! b) = al_admitted (as ! b)" "al_ledger (as' ! b) = al_ledger (as ! b)"
    "al_backing (as' ! b) = al_backing (as ! b)" "al_pins (as' ! b) = al_pins (as ! b)"
    "al_reserved (as' ! b) \<longleftrightarrow> \<not> holds ts t b \<and> al_reserved (as ! b)"
    "al_category (as' ! b) = (if holds ts t b \<and> al_category (as ! b) = BackingAssigned
       then BackingMaterialized else al_category (as ! b))"
    "payload_category (al_category (as' ! b)) = payload_category (al_category (as ! b))"
    if "b < length as" for b
    using that by (auto simp: as' convert_alloc_def payload_category_def)
  have own: "holds ts i (tk_allocation (ts ! i))" for i by (simp add: each_def)
  show ?thesis
    unfolding heap_core_def
  proof (intro conjI)
    show "tokens_ok as' ?ts"
      using core'(1) by (simp add: tokens_ok_def tok al as'(1) lim0 lim)
    have other: "i = t" if "live ts i" "tk_pooled (ts ! i)" "holds ts i b" "holds ts t b" for i b
    proof (rule ccontr)
      assume "i \<noteq> t"
      with core'(3) that t have np: "\<not> tk_pooled (ts ! t)" by (auto simp: exclusive_def)
      with core'(4) t that(4) have b: "b = tk_allocation (ts ! t)"
        by (auto simp: owners_ok_def each_def)
      have "al_backing (as ! b)" "al_category (as ! b) \<noteq> BackingFree"
        using pooled_okD[OF core'(2) that(1-3)] by simp_all
      with owners_okD(2,3)[OF core'(4) t(1) np] t(2) b show False by auto
    qed
    show "pooled_ok as' ?ts"
      unfolding pooled_ok_def tok
    proof (intro allI impI)
      fix i b assume i: "live ts i" "tk_pooled (ts ! i)" "holds ts i b"
      show "al_backing (as' ! b) \<and> payload_category (al_category (as' ! b)) \<and>
          al_reserved (as' ! b) = (i \<noteq> t \<and> tk_reservation (ts ! i))"
        using pooled_okD(1-3)[OF core'(2) i] other[OF i] i(3) by (auto simp: al(1-5,7) lim[OF i(1,3)])
    qed
    have other0: "i = t" if "live ts i" "\<not> tk_pooled (ts ! i)" "holds ts t (tk_allocation (ts ! i))"
      "tk_reservation (ts ! i) \<or> \<not> al_backing (as ! tk_allocation (ts ! i))" for i
    proof (cases "tk_pooled (ts ! t)")
      case True
      have "al_backing (as ! tk_allocation (ts ! i))"
        "al_category (as ! tk_allocation (ts ! i)) \<noteq> BackingFree"
        using pooled_okD[OF core'(2) t(1) True that(3)] by simp_all
      with owners_okD(3)[OF core'(4) that(1,2)] that(4) show ?thesis by auto
    next
      case False
      with that core'(4,5) t show ?thesis
        by (auto simp: owners_ok_def unique_owner_def each_def)
    qed
    show "owners_ok as' ?ts"
      using core'(4) other0 own t(2) by (auto simp: owners_ok_def tok al lim0)
    show "exclusive ?ts"
      using core'(3) by (simp add: exclusive_def tok)
    show "unique_owner ?ts"
      using core'(5) by (simp add: unique_owner_def tok)
    show "allocs_ok as' ?ts"
      unfolding allocs_ok_alt as'(1)
    proof (intro allI impI)
      fix b assume b: "b < length as" "al_admitted (as' ! b)"
      then have ok: "alloc_ok ts b (as ! b)" using core'(6) by (simp add: allocs_ok_alt al)
      then show "alloc_ok ?ts b (as' ! b)"
        using own[of t] t(2) unfolding alloc_ok_def tok by (auto simp: al b split: if_splits)
    qed
    have "pins_on ?ts ps b = pins_on ts ps b" for b
      by (rule pins_on_cong) (simp add: tok)
    then show "pins_ok as' ?ts ps"
      using core'(7) by (auto simp: pins_ok_def tok as'(1) al lim)
  qed
qed

section \<open>Assigning pool blocks\<close>

text \<open>A free block has no live assignment and no pin, and it is not reserved once its pool handle
  is a charge: the assertions of \<open>ReserveBacking\<close>.\<close>

lemma free_not_pooled:
  assumes "heap_core as ts ps" "live ts i" "holds ts i b" "al_category (as ! b) = BackingFree"
  shows "\<not> tk_pooled (ts ! i)"
  using assms pooled_okD(4)[of as ts i b] by (auto simp: heap_core_def)

lemma free_not_pinned:
  assumes core: "heap_core as ts ps" and b: "b < length as" "al_admitted (as ! b)"
    and "al_backing (as ! b)" "al_category (as ! b) = BackingFree"
  shows "pins_on ts ps b = 0"
proof -
  have "\<not> holds ts (pn_charge p) b" if "p \<in> set ps" "0 < pn_handles p" for p
    using that free_not_pooled[OF core] assms by (auto simp: heap_core_def pins_ok_def)
  then show ?thesis
    by (auto simp: pins_on_def filter_empty_conv)
qed

lemma free_not_reserved:
  assumes core: "heap_core as ts ps" and i: "live ts i" "\<not> tk_pooled (ts ! i)"
    "\<not> tk_reservation (ts ! i)" "al_category (as ! tk_allocation (ts ! i)) = BackingFree"
    "al_backing (as ! tk_allocation (ts ! i))"
  shows "\<not> al_reserved (as ! tk_allocation (ts ! i))"
proof
  assume r: "al_reserved (as ! tk_allocation (ts ! i))"
  have ok: "tokens_ok as ts" "allocs_ok as ts" "unique_owner ts"
    using core by (simp_all add: heap_core_def)
  have "holds ts i (tk_allocation (ts ! i))" by (simp add: each_def)
  then have "alloc_ok ts (tk_allocation (ts ! i)) (as ! tk_allocation (ts ! i))"
    using ok(2) tokens_okD(3,4)[OF ok(1) i(1)] by (simp add: allocs_ok_alt)
  with r i obtain j where
    "live ts j" "\<not> tk_pooled (ts ! j)" "tk_reservation (ts ! j)" "tk_allocation (ts ! j) = tk_allocation (ts ! i)"
    by (auto simp: alloc_ok_def)
  with ok(3) i show False by (auto simp: unique_owner_def)
qed

lemma core_assign:
  assumes core: "heap_core as ts ps"
    and t: "tk_pooled t" "tk_active t" "tk_reservation t" "tk_live t" "distinct (each t)"
    and blocks: "\<And>b. b \<in> set (each t) \<Longrightarrow> b < length as \<and> al_admitted (as ! b) \<and> al_backing (as ! b) \<and>
        al_category (as ! b) = BackingFree \<and> \<not> al_reserved (as ! b) \<and>
        al_ledger (as ! b) = l"
    and c: "payload_category c"
    and as': "length as' = length as"
      "\<And>i. i < length as \<Longrightarrow> as' ! i = (if i \<in> set (each t) then assign_alloc c (as ! i) else as ! i)"
  shows "heap_core as' (ts @ [t]) ps"
proof -
  let ?ts = "ts @ [t]"
  have core': "tokens_ok as ts" "pooled_ok as ts" "exclusive ts" "owners_ok as ts"
    "unique_owner ts" "allocs_ok as ts" "pins_ok as ts ps"
    using core by (simp_all add: heap_core_def)
  have al: "al_admitted (as' ! b) = al_admitted (as ! b)" "al_ledger (as' ! b) = al_ledger (as ! b)"
    "al_backing (as' ! b) = al_backing (as ! b)" "al_pins (as' ! b) = al_pins (as ! b)"
    "al_reserved (as' ! b) \<longleftrightarrow> b \<in> set (each t) \<or> al_reserved (as ! b)"
    "al_category (as' ! b) = (if b \<in> set (each t) then c else al_category (as ! b))"
    if "b < length as" for b
    using that by (auto simp: as' assign_alloc_def)
  have np: "\<not> tk_pooled (ts ! i)" if "live ts i" "holds ts i b" "b \<in> set (each t)" for i b
    using free_not_pooled[OF core that(1,2)] blocks[OF that(3)] by simp
  have own: "tk_allocation t \<in> set (each t)" "holds ts i (tk_allocation (ts ! i))" for i
    by (simp_all add: each_def)
  have lim0: "tk_allocation (ts ! i) < length as" if "live ts i" for i
    using tokens_okD(3)[OF core'(1) that] own by blast
  note lim = tokens_okD(3,4)[OF core'(1)]
  note simps = live_append each_append lim lim0 t as'(1) al
  show ?thesis
    unfolding heap_core_def
  proof (intro conjI)
    show "tokens_ok as' ?ts"
      unfolding tokens_ok_def as'(1)
    proof (intro allI impI)
      fix i assume i: "live ?ts i"
      show "tk_active (?ts ! i) \<and> distinct (each (?ts ! i)) \<and>
        (\<forall>b. holds ?ts i b \<longrightarrow> b < length as \<and> al_admitted (as' ! b) \<and>
             al_ledger (as' ! b) = al_ledger (as' ! tk_allocation (?ts ! i)))"
      proof (cases "live ts i")
        case True
        then show ?thesis
          using tokens_okD[OF core'(1) True] lim0[OF True] by (simp add: each_append al)
      next
        case False
        with i have "i = length ts" by (simp add: live_append)
        with blocks own t show ?thesis by (simp add: al)
      qed
    qed
    show "pooled_ok as' ?ts"
      unfolding pooled_ok_def
    proof (intro allI impI)
      fix i b assume i: "live ?ts i" "tk_pooled (?ts ! i)" "holds ?ts i b"
      show "al_backing (as' ! b) \<and> payload_category (al_category (as' ! b)) \<and>
          al_reserved (as' ! b) = tk_reservation (?ts ! i)"
      proof (cases "live ts i")
        case True
        with i np pooled_okD(1-3)[OF core'(2) True] lim[OF True] show ?thesis
          by (auto simp: al each_append)
      next
        case False
        with i blocks c t show ?thesis by (auto simp: live_append al)
      qed
    qed
    show "exclusive ?ts"
      unfolding exclusive_def
    proof (intro allI impI)
      fix i j b assume "live ?ts i" "live ?ts j" "tk_pooled (?ts ! i)" "tk_pooled (?ts ! j)"
        "holds ?ts i b" "holds ?ts j b"
      then show "i = j"
        using exclusiveD[OF core'(3), of i j b] np[of i b] np[of j b]
        by (cases "live ts i"; cases "live ts j") (simp_all add: live_append each_append)
    qed
    show "owners_ok as' ?ts"
      unfolding owners_ok_def
    proof (intro allI impI)
      fix i assume "live ?ts i" "\<not> tk_pooled (?ts ! i)"
      then have i: "live ts i" "\<not> tk_pooled (ts ! i)" and e: "?ts ! i = ts ! i"
        using t by (auto simp: live_append each_append)
      show "tk_additional (?ts ! i) = [] \<and>
        (\<not> al_backing (as' ! tk_allocation (?ts ! i)) \<longrightarrow>
           al_reserved (as' ! tk_allocation (?ts ! i)) = tk_reservation (?ts ! i)) \<and>
        (al_backing (as' ! tk_allocation (?ts ! i)) \<longrightarrow> tk_reservation (?ts ! i) \<longrightarrow>
           al_category (as' ! tk_allocation (?ts ! i)) = BackingFree \<and>
           al_reserved (as' ! tk_allocation (?ts ! i)))"
        using owners_okD[OF core'(4) i] blocks[of "tk_allocation (ts ! i)"] lim0[OF i(1)]
        by (auto simp: e al)
    qed
    show "unique_owner ?ts"
      using core'(5) t by (auto simp: unique_owner_def live_append each_append)
    show "allocs_ok as' ?ts"
      unfolding allocs_ok_alt as'(1)
    proof (intro allI impI)
      fix b assume b: "b < length as" "al_admitted (as' ! b)"
      then have ok: "alloc_ok ts b (as ! b)" using core'(6) by (simp add: allocs_ok_alt al)
      show "alloc_ok ?ts b (as' ! b)"
      proof (cases "b \<in> set (each t)")
        case True
        with t blocks[OF True] c show ?thesis
          by (auto simp: alloc_ok_def live_append al payload_category_def intro!: exI[of _ "length ts"])
      next
        case False
        then have "as' ! b = as ! b" using as'(2)[OF b(1)] by simp
        moreover have "alloc_ok ?ts b (as ! b)"
          using ok by (rule alloc_ok_mono) (simp add: live_append each_append)
        ultimately show ?thesis by simp
      qed
    qed
    have same: "\<And>b. pins_on ?ts ps b = pins_on ts ps b"
      using core'(7) by (intro pins_on_cong) (auto simp: pins_ok_def each_append)
    show "pins_ok as' ?ts ps"
      unfolding pins_ok_def same using core'(7)
      by (auto simp: pins_ok_def simps)
  qed
qed

section \<open>Pins\<close>

text \<open>Apart from \<open>pins_ok\<close> the invariant does not read the pin counts.\<close>

definition same_but_pins :: "allocation list \<Rightarrow> allocation list \<Rightarrow> bool" where
  "same_but_pins as as' \<longleftrightarrow> length as' = length as \<and>
     (\<forall>b < length as. as' ! b = (as ! b)\<lparr>al_pins := al_pins (as' ! b)\<rparr>)"

lemma same_but_pinsD:
  assumes "same_but_pins as as'"
  shows "length as' = length as"
    and "b < length as \<Longrightarrow> al_admitted (as' ! b) = al_admitted (as ! b)"
    and "b < length as \<Longrightarrow> al_ledger (as' ! b) = al_ledger (as ! b)"
    and "b < length as \<Longrightarrow> al_category (as' ! b) = al_category (as ! b)"
    and "b < length as \<Longrightarrow> al_backing (as' ! b) = al_backing (as ! b)"
    and "b < length as \<Longrightarrow> al_reserved (as' ! b) = al_reserved (as ! b)"
    and "b < length as \<Longrightarrow> al_bytes (as' ! b) = al_bytes (as ! b)"
proof -
  have r: "as' ! b = (as ! b)\<lparr>al_pins := al_pins (as' ! b)\<rparr>" if "b < length as"
    using assms that by (simp add: same_but_pins_def)
  show "length as' = length as" using assms by (simp add: same_but_pins_def)
  show "al_admitted (as' ! b) = al_admitted (as ! b)" if "b < length as" by (subst r[OF that]) simp
  show "al_ledger (as' ! b) = al_ledger (as ! b)" if "b < length as" by (subst r[OF that]) simp
  show "al_category (as' ! b) = al_category (as ! b)" if "b < length as" by (subst r[OF that]) simp
  show "al_backing (as' ! b) = al_backing (as ! b)" if "b < length as" by (subst r[OF that]) simp
  show "al_reserved (as' ! b) = al_reserved (as ! b)" if "b < length as" by (subst r[OF that]) simp
  show "al_bytes (as' ! b) = al_bytes (as ! b)" if "b < length as" by (subst r[OF that]) simp
qed

lemma core_same_but_pins:
  assumes core: "heap_core as ts ps" and same: "same_but_pins as as'" and pins: "pins_ok as' ts ps'"
  shows "heap_core as' ts ps'"
proof -
  have core': "tokens_ok as ts" "pooled_ok as ts" "exclusive ts" "owners_ok as ts"
    "unique_owner ts" "allocs_ok as ts"
    using core by (simp_all add: heap_core_def)
  have own: "holds ts i (tk_allocation (ts ! i))" for i by (simp add: each_def)
  note lim = tokens_okD(3)[OF core'(1)] tokens_okD(3)[OF core'(1) _ own]
  note al = same_but_pinsD[OF same]
  show ?thesis
    unfolding heap_core_def
  proof (intro conjI core'(3) core'(5) pins)
    show "tokens_ok as' ts"
      using core'(1) unfolding tokens_ok_def by (auto simp: al lim)
    show "pooled_ok as' ts"
      unfolding pooled_ok_def
      using pooled_okD(1-3)[OF core'(2)] by (simp add: al lim)
    show "owners_ok as' ts"
      unfolding owners_ok_def
      using owners_okD[OF core'(4)] by (simp add: al lim)
    show "allocs_ok as' ts"
      using core'(6) unfolding allocs_ok_alt alloc_ok_def by (simp add: al)
  qed
qed

lemma pins_on_sum:
  "pins_on ts ps b = sum_list (map (\<lambda>p. if 0 < pn_handles p \<and> holds ts (pn_charge p) b then 1 else 0) ps)"
  by (induction ps) (simp_all add: pins_on_def)

lemma core_pin:
  assumes core: "heap_core as ts ps" and t: "live ts t"
    and payload: "\<And>b. holds ts t b \<Longrightarrow> al_backing (as ! b) \<Longrightarrow> tk_pooled (ts ! t)"
    and p: "pn_charge p = t" "pn_active p" "0 < pn_handles p"
    and as': "length as' = length as"
      "\<And>i. i < length as \<Longrightarrow> as' ! i =
        (if holds ts t i then (as ! i)\<lparr>al_pins := al_pins (as ! i) + 1\<rparr> else as ! i)"
  shows "heap_core as' ts (ps @ [p])"
proof (rule core_same_but_pins[OF core])
  show same: "same_but_pins as as'"
    using as' by (simp add: same_but_pins_def)
  have tok: "tokens_ok as ts" and pok: "pins_ok as ts ps"
    using core by (simp_all add: heap_core_def)
  have lim: "b < length as" if "live ts i" "holds ts i b" for i b
    using tokens_okD(3)[OF tok that(1)] that(2) by blast
  have old: "pn_active q" "live ts (pn_charge q)"
    "holds ts (pn_charge q) b \<Longrightarrow> al_backing (as ! b) \<Longrightarrow> tk_pooled (ts ! pn_charge q)"
    if "q \<in> set ps" "0 < pn_handles q" for q b
    using pok that unfolding pins_ok_def by blast+
  have cnt: "al_pins (as ! b) = pins_on ts ps b" if "b < length as" "al_admitted (as ! b)" for b
    using pok that unfolding pins_ok_def by blast
  show "pins_ok as' ts (ps @ [p])"
    unfolding pins_ok_def
  proof (intro conjI ballI allI impI)
    fix q assume q: "q \<in> set (ps @ [p])" "0 < pn_handles q"
    then show "pn_active q" "live ts (pn_charge q)" using old(1,2) p t by auto
    fix b assume b: "holds ts (pn_charge q) b" "al_backing (as' ! b)"
    with \<open>live ts (pn_charge q)\<close> have "b < length as" by (simp add: lim)
    with b(2) have "al_backing (as ! b)" by (simp add: same_but_pinsD[OF same])
    with b(1) q old(3) payload p(1) show "tk_pooled (ts ! pn_charge q)" by auto
  next
    fix b assume b: "b < length as'" "al_admitted (as' ! b)"
    then have "al_pins (as ! b) = pins_on ts ps b"
      using cnt by (simp add: same_but_pinsD[OF same])
    then show "al_pins (as' ! b) = pins_on ts (ps @ [p]) b"
      using b p by (auto simp: as' pins_on_sum)
  qed
qed

lemma core_unpin:
  assumes core: "heap_core as ts ps" and k: "k < length ps" "pn_handles (ps ! k) = 1"
    and as': "length as' = length as"
      "\<And>i. i < length as \<Longrightarrow> as' ! i = (if holds ts (pn_charge (ps ! k)) i
         then (as ! i)\<lparr>al_pins := al_pins (as ! i) - 1\<rparr> else as ! i)"
  shows "heap_core as' ts (ps[k := (ps ! k)\<lparr>pn_handles := 0\<rparr>])"
proof (rule core_same_but_pins[OF core])
  let ?ps = "ps[k := (ps ! k)\<lparr>pn_handles := 0\<rparr>]"
  show same: "same_but_pins as as'"
    using as' by (simp add: same_but_pins_def)
  have tok: "tokens_ok as ts" and pok: "pins_ok as ts ps"
    using core by (simp_all add: heap_core_def)
  have cnt: "al_pins (as ! b) = pins_on ts ps b" if "b < length as" "al_admitted (as ! b)" for b
    using pok that unfolding pins_ok_def by blast
  have sub: "q \<in> set ps" if "q \<in> set ?ps" "0 < pn_handles q" for q
    using that set_update_subset_insert by fastforce
  show "pins_ok as' ts ?ps"
    unfolding pins_ok_def
  proof (intro conjI ballI allI impI)
    fix q assume q: "q \<in> set ?ps" "0 < pn_handles q"
    then show l: "pn_active q" "live ts (pn_charge q)"
      using pok sub unfolding pins_ok_def by blast+
    fix b assume b: "holds ts (pn_charge q) b" "al_backing (as' ! b)"
    then have "al_backing (as ! b)"
      using tokens_okD(3)[OF tok l(2)] by (simp add: same_but_pinsD[OF same])
    with b sub[OF q] q(2) pok show "tk_pooled (ts ! pn_charge q)"
      unfolding pins_ok_def by blast
  next
    fix b assume b: "b < length as'" "al_admitted (as' ! b)"
    then have "al_pins (as ! b) = pins_on ts ps b"
      using cnt by (simp add: same_but_pinsD[OF same])
    moreover have "pins_on ts ?ps b + (if holds ts (pn_charge (ps ! k)) b then 1 else 0) = pins_on ts ps b"
      unfolding pins_on_sum
      using sum_list_update_nat[OF k(1), of "\<lambda>p. if 0 < pn_handles p \<and> holds ts (pn_charge p) b then 1 else 0"
        "(ps ! k)\<lparr>pn_handles := 0\<rparr>"] k(2) by simp
    ultimately show "al_pins (as' ! b) = pins_on ts ?ps b"
      using b as' by (auto split: if_splits)
  qed
qed

section \<open>Destroying a token\<close>

text \<open>\<open>assert(block.pins == 0)\<close> of \<open>~ChargeToken\<close> and \<open>~Allocation\<close>.\<close>

lemma unpinned_block:
  assumes core: "heap_core as ts ps" and t: "live ts t" "\<not> pinned_token ps t" "holds ts t b"
    and alone: "tk_pooled (ts ! t) \<or> (\<forall>i. live ts i \<longrightarrow> holds ts i b \<longrightarrow> i = t)"
  shows "al_pins (as ! b) = 0"
proof -
  have core': "tokens_ok as ts" "pooled_ok as ts" "exclusive ts" "pins_ok as ts ps"
    using core by (simp_all add: heap_core_def)
  have b: "b < length as" "al_admitted (as ! b)"
    using tokens_okD(3,4)[OF core'(1) t(1)] t(3) by blast+
  have "\<not> holds ts (pn_charge p) b" if p: "p \<in> set ps" "0 < pn_handles p" for p
  proof
    assume h: "holds ts (pn_charge p) b"
    have l: "live ts (pn_charge p)" using core'(4) p unfolding pins_ok_def by blast
    have "pn_charge p = t"
    proof (cases "tk_pooled (ts ! t)")
      case True
      then have "al_backing (as ! b)" using pooled_okD(1)[OF core'(2) t(1) _ t(3)] by simp
      with core'(4) p h have "tk_pooled (ts ! pn_charge p)" unfolding pins_ok_def by blast
      then show ?thesis using exclusiveD[OF core'(3) l t(1) _ True h t(3)] by simp
    next
      case False
      with alone l h show ?thesis by blast
    qed
    with t(2) p show False by (auto simp: pinned_token_def)
  qed
  then have "pins_on ts ps b = 0"
    by (auto simp: pins_on_def filter_empty_conv)
  with core'(4) b show ?thesis by (simp add: pins_ok_def)
qed

definition after_destroy :: "charge_token list \<Rightarrow> nat \<Rightarrow> bool \<Rightarrow> nat \<Rightarrow> allocation \<Rightarrow> allocation" where
  "after_destroy ts' t pooled b a =
     (let a1 = (if pooled then return_alloc a else a)
      in if \<exists>i. live ts' i \<and> holds ts' i b then a1 else a1\<lparr>al_admitted := False\<rparr>)"

lemma after_destroy_fields:
  "al_ledger (after_destroy ts' t pooled b a) = al_ledger a"
  "al_backing (after_destroy ts' t pooled b a) = al_backing a"
  "al_pins (after_destroy ts' t pooled b a) = al_pins a"
  "al_bytes (after_destroy ts' t pooled b a) = al_bytes a"
  "al_category (after_destroy ts' t pooled b a) = (if pooled then BackingFree else al_category a)"
  "al_reserved (after_destroy ts' t pooled b a) \<longleftrightarrow> \<not> pooled \<and> al_reserved a"
  "al_admitted (after_destroy ts' t pooled b a) \<longleftrightarrow>
     al_admitted a \<and> (\<exists>i. live ts' i \<and> holds ts' i b)"
  by (auto simp: after_destroy_def return_alloc_def Let_def)

lemma core_destroy:
  assumes core: "heap_core as ts ps" and t: "live ts t" "\<not> pinned_token ps t"
    and ts': "ts' = ts[t := (ts ! t)\<lparr>tk_live := False, tk_handles := n\<rparr>]"
    and as': "length as' = length as" "\<And>b. b < length as \<Longrightarrow> as' ! b =
        (if holds ts t b then after_destroy ts' t (tk_pooled (ts ! t)) b (as ! b) else as ! b)"
  shows "heap_core as' ts' ps"
proof -
  have core': "tokens_ok as ts" "pooled_ok as ts" "exclusive ts" "owners_ok as ts"
    "unique_owner ts" "allocs_ok as ts" "pins_ok as ts ps"
    using core by (simp_all add: heap_core_def)
  have lt: "t < length ts" using t by (simp add: live_def)
  have each': "each ((ts ! t)\<lparr>tk_live := False, tk_handles := n\<rparr>) = each (ts ! t)"
    by (simp add: each_def)
  have tok: "each (ts' ! i) = each (ts ! i)" "tk_pooled (ts' ! i) = tk_pooled (ts ! i)"
    "tk_allocation (ts' ! i) = tk_allocation (ts ! i)" "tk_additional (ts' ! i) = tk_additional (ts ! i)"
    "tk_active (ts' ! i) = tk_active (ts ! i)" "tk_reservation (ts' ! i) = tk_reservation (ts ! i)"
    "live ts' i \<longleftrightarrow> i \<noteq> t \<and> live ts i" for i
    using lt by (auto simp: ts' nth_list_update live_def each')
  have own: "holds ts i (tk_allocation (ts ! i))" for i by (simp add: each_def)
  note lim = tokens_okD(3,4)[OF core'(1)]
  have lim0: "tk_allocation (ts ! i) < length as" if "live ts i" for i
    using lim(1)[OF that own] .
  have led: "al_ledger (as' ! b) = al_ledger (as ! b)" and bck: "al_backing (as' ! b) = al_backing (as ! b)"
    and pns: "al_pins (as' ! b) = al_pins (as ! b)"
    and adm: "al_admitted (as' ! b) \<Longrightarrow> al_admitted (as ! b)"
    and adm': "al_admitted (as ! b) \<Longrightarrow> i \<noteq> t \<Longrightarrow> live ts i \<Longrightarrow> holds ts i b \<Longrightarrow> al_admitted (as' ! b)"
    if "b < length as" for b i
    using that by (auto simp: as' after_destroy_fields tok split: if_splits)
  have keep: "al_category (as' ! b) = al_category (as ! b)" "al_reserved (as' ! b) = al_reserved (as ! b)"
    if "b < length as" "\<not> (tk_pooled (ts ! t) \<and> holds ts t b)" for b
    using that by (auto simp: as' after_destroy_fields)
  show ?thesis
    unfolding heap_core_def
  proof (intro conjI)
    show "tokens_ok as' ts'"
      unfolding tokens_ok_def tok as'(1)
      using tokens_okD[OF core'(1)] by (auto simp: led lim0 intro: adm')
    show "pooled_ok as' ts'"
      unfolding pooled_ok_def tok
    proof (intro allI impI)
      fix i b assume "i \<noteq> t \<and> live ts i" and i: "tk_pooled (ts ! i)" "holds ts i b"
      then have l: "live ts i" "i \<noteq> t" by simp_all
      have "\<not> (tk_pooled (ts ! t) \<and> holds ts t b)"
        using exclusiveD[OF core'(3) l(1) t(1) i(1) _ i(2)] l(2) by blast
      then show "al_backing (as' ! b) \<and> payload_category (al_category (as' ! b)) \<and>
          al_reserved (as' ! b) = tk_reservation (ts ! i)"
        using pooled_okD(1-3)[OF core'(2) l(1) i] lim(1)[OF l(1) i(2)] by (simp add: keep bck)
    qed
    show "exclusive ts'"
      unfolding exclusive_def tok using exclusiveD[OF core'(3)] by blast
    show "owners_ok as' ts'"
      unfolding owners_ok_def tok
    proof (intro allI impI)
      fix i assume "i \<noteq> t \<and> live ts i" and i: "\<not> tk_pooled (ts ! i)"
      then have l: "live ts i" "i \<noteq> t" by simp_all
      let ?b = "tk_allocation (ts ! i)"
      show "tk_additional (ts ! i) = [] \<and>
          (\<not> al_backing (as' ! ?b) \<longrightarrow> al_reserved (as' ! ?b) = tk_reservation (ts ! i)) \<and>
          (al_backing (as' ! ?b) \<longrightarrow> tk_reservation (ts ! i) \<longrightarrow>
            al_category (as' ! ?b) = BackingFree \<and> al_reserved (as' ! ?b))"
      proof (cases "tk_pooled (ts ! t) \<and> holds ts t ?b")
        case True
        then show ?thesis
          using pooled_okD[OF core'(2) t(1), of ?b] owners_okD[OF core'(4) l(1) i] lim0[OF l(1)]
          by (auto simp: bck)
      next
        case False
        then show ?thesis
          using owners_okD[OF core'(4) l(1) i] lim0[OF l(1)] by (simp add: keep bck)
      qed
    qed
    show "unique_owner ts'"
      unfolding unique_owner_def tok using core'(5) unfolding unique_owner_def by blast
    show "allocs_ok as' ts'"
      unfolding allocs_ok_alt as'(1)
    proof (intro allI impI)
      fix b assume b: "b < length as" "al_admitted (as' ! b)"
      then have ok: "alloc_ok ts b (as ! b)" using core'(6) adm by (simp add: allocs_ok_alt)
      show "alloc_ok ts' b (as' ! b)"
      proof (cases "holds ts t b")
        case False
        then have "as' ! b = as ! b" using as'(2)[OF b(1)] by simp
        moreover have "alloc_ok ts' b (as ! b)"
          using ok by (rule alloc_ok_mono) (use False in \<open>auto simp: tok\<close>)
        ultimately show ?thesis by simp
      next
        case True
        with b obtain j where j: "j \<noteq> t" "live ts j" "holds ts j b"
          by (auto simp: as' after_destroy_fields tok split: if_splits)
        show ?thesis
        proof (cases "tk_pooled (ts ! t)")
          case pooled: True
          have "al_backing (as ! b)" using pooled_okD(1)[OF core'(2) t(1) pooled True] .
          then show ?thesis
            using j True pooled b(1) unfolding alloc_ok_def tok
            by (auto simp: as' after_destroy_fields)
        next
          case solo: False
          have bt: "b = tk_allocation (ts ! t)"
            using owners_okD(1)[OF core'(4) t(1) solo] True by (simp add: each_def)
          have "tk_pooled (ts ! j)"
          proof (rule ccontr)
            assume "\<not> tk_pooled (ts ! j)"
            moreover from this have "b = tk_allocation (ts ! j)"
              using owners_okD(1)[OF core'(4) j(2)] j(3) by (simp add: each_def)
            ultimately show False
              using core'(5) j(1,2) t(1) solo bt unfolding unique_owner_def by metis
          qed
          then have "al_category (as ! b) \<noteq> BackingFree" "al_backing (as ! b)"
            using pooled_okD[OF core'(2) j(2) _ j(3)] by simp_all
          then show ?thesis
            using ok j \<open>tk_pooled (ts ! j)\<close> solo b(1) unfolding alloc_ok_def tok
            by (auto simp: as' after_destroy_fields)
        qed
      qed
    qed
    have same: "pins_on ts' ps b = pins_on ts ps b" for b
      by (rule pins_on_cong) (simp add: tok)
    show "pins_ok as' ts' ps"
      unfolding pins_ok_def same tok as'(1)
    proof (intro conjI ballI allI impI)
      fix p assume p: "p \<in> set ps" "0 < pn_handles p"
      show "pn_active p" using core'(7) p unfolding pins_ok_def by blast
      show "pn_charge p \<noteq> t" using t(2) p by (auto simp: pinned_token_def)
      show l: "live ts (pn_charge p)" using core'(7) p unfolding pins_ok_def by blast
      fix b assume h: "holds ts (pn_charge p) b" "al_backing (as' ! b)"
      then have "al_backing (as ! b)" using lim(1)[OF l h(1)] by (simp add: bck)
      with h(1) p core'(7) show "tk_pooled (ts ! pn_charge p)" unfolding pins_ok_def by blast
    next
      fix b assume b: "b < length as" "al_admitted (as' ! b)"
      then show "al_pins (as' ! b) = pins_on ts ps b"
        using core'(7) adm by (simp add: pns pins_ok_def)
    qed
  qed
qed

end
