(* ===== verification/Ledger_Steps.thy ===== *)
theory Ledger_Steps
  imports Ledger_Heap
begin

text \<open>
  The ledger as a transition system: every call a client can make through a handle it holds is a
  step, and the invariant of a world is kept by each of them. The invariant has four parts: the
  counters are the sums over the allocations, the pinned total likewise, the ownership structure
  of \<open>Ledger_Heap\<close>, and the sums within their limits.
\<close>

section \<open>The invariant\<close>

definition within_limits :: "allocation list \<Rightarrow> nat \<Rightarrow> resource_limits \<Rightarrow> bool" where
  "within_limits as l lim \<longleftrightarrow>
     nacct as l anything \<le> unat (total_limit lim) \<and>
     nacct as l in_ram \<le> unat (ram_limit lim) \<and>
     nacct as l (in_category TransferStaging) \<le> unat (staging_limit lim) \<and>
     nacct as l is_pinned \<le> unat (pinned_limit lim)"

definition limits_ok :: "world \<Rightarrow> bool" where
  "limits_ok w \<longleftrightarrow> (\<forall>l. within_limits (allocs w) l (limits_of w l))"

definition ledger_inv :: "world \<Rightarrow> bool" where
  "ledger_inv w \<longleftrightarrow> counters_ok w \<and> pinned_ok w \<and> heap_ok w \<and> limits_ok w"

section \<open>Destroying blocks\<close>

lemma destroy_alloc_fields:
  "allocs (destroy_alloc w b) = (allocs w)[b := (allocs w ! b)\<lparr>al_admitted := False\<rparr>]"
  "tokens (destroy_alloc w b) = tokens w" "pins (destroy_alloc w b) = pins w"
  "limits_of (destroy_alloc w b) l = limits_of w l"
  "snap_pinned (snapshot_of (destroy_alloc w b) l) = snap_pinned (snapshot_of w l)"
proof -
  have id: "(allocs w)[b := (allocs w ! b)\<lparr>al_admitted := False\<rparr>] = allocs w"
    if "\<not> al_admitted (allocs w ! b)"
  proof -
    have "(allocs w ! b)\<lparr>al_admitted := False\<rparr> = allocs w ! b" using that by simp
    then show ?thesis by simp
  qed
  then show "allocs (destroy_alloc w b) = (allocs w)[b := (allocs w ! b)\<lparr>al_admitted := False\<rparr>]"
    by (simp add: destroy_alloc_def Let_def)
qed (simp_all add: destroy_alloc_def Let_def)

interpretation dst: block_op destroy_alloc "\<lambda>a. a\<lparr>al_admitted := False\<rparr>" "\<lambda>a. True"
  by unfold_locales (simp_all only: destroy_alloc_fields counters_destroy_alloc)

lemma pinned_destroy_alloc:
  assumes "pinned_ok w" "al_pins (allocs w ! b) = 0"
  shows "pinned_ok (destroy_alloc w b)"
  using assms unfolding pinned_ok_def destroy_alloc_fields
  by (cases "b < length (allocs w)") (auto simp: acct_update counted_def list_update_beyond)

lemma pinned_destroy_fold:
  assumes "pinned_ok w" "\<forall>b \<in> set bs. al_pins (allocs w ! b) = 0"
  shows "pinned_ok (foldl destroy_alloc w bs)"
  using assms
proof (induction bs arbitrary: w)
  case Nil
  then show ?case by simp
next
  case (Cons b bs)
  have "al_pins (allocs (destroy_alloc w b) ! i) = al_pins (allocs w ! i)" for i
    by (cases "i = b"; cases "b < length (allocs w)")
      (simp_all add: destroy_alloc_fields list_update_beyond)
  with Cons show ?case by (simp add: pinned_destroy_alloc)
qed

text \<open>Which blocks die depends on the tokens only, which the loop does not change.\<close>

lemma release_alloc_fold:
  "foldl release_alloc w bs = foldl destroy_alloc w (filter (\<lambda>b. \<not> referenced w b) bs)"
proof (induction bs arbitrary: w)
  case Nil
  then show ?case by simp
next
  case (Cons b bs)
  have "referenced (destroy_alloc w b) = referenced w"
    by (simp add: fun_eq_iff referenced_def destroy_alloc_fields)
  with Cons show ?case by (simp add: release_alloc_def)
qed

lemma referenced_live: "referenced w b \<longleftrightarrow> (\<exists>i. live (tokens w) i \<and> holds (tokens w) i b)"
  unfolding referenced_def live_def by (auto simp: list_ex_length)

section \<open>Limits\<close>

lemma nacct_mono_list:
  assumes "length as' = length as"
    and "\<And>b. b < length as \<Longrightarrow> counted l P (as' ! b) \<Longrightarrow>
      counted l P (as ! b) \<and> al_bytes (as' ! b) = al_bytes (as ! b)"
  shows "nacct as' l P \<le> nacct as l P"
  using assms
proof (induction as arbitrary: as')
  case Nil
  then show ?case by simp
next
  case (Cons a as)
  then obtain a' as'' where as': "as' = a' # as''" "length as'' = length as"
    by (cases as') auto
  have "nacct as'' l P \<le> nacct as l P"
    using Cons.prems(2)[of "Suc b" for b] by (intro Cons.IH) (auto simp: as')
  moreover have "counted l P a' \<Longrightarrow> counted l P a \<and> al_bytes a' = al_bytes a"
    using Cons.prems(2)[of 0] by (simp add: as')
  ultimately show ?case by (auto simp: as')
qed

text \<open>A step that moves no allocation into staging and out of it, and admits and pins nothing
  new, stays within the limits.\<close>

lemma within_limits_mono:
  assumes "within_limits as l lim" "length as' = length as"
    and "\<And>b. b < length as \<Longrightarrow> al_admitted (as' ! b) \<Longrightarrow> al_admitted (as ! b) \<and>
      al_ledger (as' ! b) = al_ledger (as ! b) \<and> al_bytes (as' ! b) = al_bytes (as ! b) \<and>
      (al_category (as' ! b) = TransferStaging \<longleftrightarrow> al_category (as ! b) = TransferStaging) \<and>
      (0 < al_pins (as' ! b) \<longrightarrow> 0 < al_pins (as ! b))"
  shows "within_limits as' l lim"
proof -
  have "nacct as' l P \<le> nacct as l P"
    if "P \<in> {anything, in_ram, in_category TransferStaging, is_pinned}" for P
    using that by (intro nacct_mono_list[OF assms(2)]) (auto simp: counted_def dest: assms(3))
  from this[of anything] this[of in_ram] this[of "in_category TransferStaging"] this[of is_pinned]
  show ?thesis using assms(1) unfolding within_limits_def by force
qed

text \<open>The same facts word-wise: what the counters of a good world are as numbers.\<close>

lemma counter_values:
  assumes "ledger_inv w"
  shows "unat (snap_total (snapshot_of w l)) = nacct (allocs w) l anything"
    and "unat (snap_ram (snapshot_of w l)) = nacct (allocs w) l in_ram"
    and "unat (snap_bytes (snapshot_of w l) c) = nacct (allocs w) l (in_category c)"
    and "unat (snap_reserved (snapshot_of w l) c) = nacct (allocs w) l (reserved_in c)"
    and "unat (snap_pinned (snapshot_of w l)) = nacct (allocs w) l is_pinned"
proof -
  have sums: "snap_total (snapshot_of w l) = acct (allocs w) l anything"
    "snap_ram (snapshot_of w l) = acct (allocs w) l in_ram"
    "snap_bytes (snapshot_of w l) c = acct (allocs w) l (in_category c)"
    "snap_reserved (snapshot_of w l) c = acct (allocs w) l (reserved_in c)"
    "snap_pinned (snapshot_of w l) = acct (allocs w) l is_pinned"
    using assms by (simp_all add: ledger_inv_def counters_ok_def pinned_ok_def)
  have "nacct (allocs w) l P \<le> unat (total_limit (limits_of w l))" for P
    using assms nacct_mono[of P anything "allocs w" l]
    by (simp add: ledger_inv_def limits_ok_def within_limits_def) (meson le_trans)
  then show "unat (snap_total (snapshot_of w l)) = nacct (allocs w) l anything"
    and "unat (snap_ram (snapshot_of w l)) = nacct (allocs w) l in_ram"
    and "unat (snap_bytes (snapshot_of w l) c) = nacct (allocs w) l (in_category c)"
    and "unat (snap_reserved (snapshot_of w l) c) = nacct (allocs w) l (reserved_in c)"
    and "unat (snap_pinned (snapshot_of w l)) = nacct (allocs w) l is_pinned"
    unfolding sums by (rule unat_acct)+
qed

section \<open>The destructor of a token\<close>

lemma destroy_token_ok:
  assumes core: "heap_core (allocs w) (tokens w) (pins w)" and t: "live (tokens w) t"
    "\<not> pinned_token (pins w) t" and ok: "counters_ok w" "pinned_ok w" "limits_ok w"
  defines "w' \<equiv> destroy_token w t"
  shows "heap_core (allocs w') (tokens w') (pins w')" and "counters_ok w'" and "pinned_ok w'"
    and "limits_ok w'" and "pins w' = pins w"
    and "tokens w' = (tokens w)[t := (tokens w ! t)\<lparr>tk_live := False\<rparr>]"
    and "limits_of w' l = limits_of w l"
proof -
  let ?tok = "tokens w ! t" and ?t' = "(tokens w ! t)\<lparr>tk_live := False\<rparr>"
  let ?ts' = "(tokens w)[t := ?t']"
  have core': "tokens_ok (allocs w) (tokens w)" "pooled_ok (allocs w) (tokens w)"
    using core by (simp_all add: heap_core_def)
  note tok = tokens_okD[OF core'(1) t(1)]
  have lim: "b < length (allocs w)" if "b \<in> set (each ?tok)" for b
    using tok(3) that .
  define w1 where "w1 = (if tk_pooled ?tok \<and> tk_active ?tok
      then on_snapshot (token_ledger w ?tok) peaks (foldl return_block w (each ?tok)) else w)"
  define bs where "bs = filter (\<lambda>b. \<not> referenced (set_token t ?t' w1) b) (tk_additional ?tok @ [tk_allocation ?tok])"
  have w': "w' = foldl destroy_alloc (set_token t ?t' w1) bs"
    by (simp only: w'_def destroy_token_def Let_def w1_def bs_def release_alloc_fold)
  have w1: "tokens w1 = tokens w" "pins w1 = pins w" "length (allocs w1) = length (allocs w)"
    "\<And>l. limits_of w1 l = limits_of w l"
    by (simp_all add: w1_def ret.fold_frame)
  have nth1: "allocs w1 ! b = (if tk_pooled ?tok \<and> b \<in> set (each ?tok)
      then return_alloc (allocs w ! b) else allocs w ! b)" if "b < length (allocs w)" for b
    using tok(1,2) that by (simp add: w1_def ret.fold_nth)
  have ref: "referenced (set_token t ?t' w1) b \<longleftrightarrow> (\<exists>i. live ?ts' i \<and> holds ?ts' i b)" for b
    by (simp add: referenced_live w1)
  have bs: "distinct bs" "b \<in> set bs \<longleftrightarrow> b \<in> set (each ?tok) \<and> \<not> (\<exists>i. live ?ts' i \<and> holds ?ts' i b)" for b
    using tok(2) by (auto simp: bs_def each_def ref)
  show toks: "tokens w' = ?ts'" and pns: "pins w' = pins w" and "limits_of w' l = limits_of w l"
    by (simp_all add: w' dst.fold_frame w1)
  have len: "length (allocs w') = length (allocs w)"
    by (simp add: w' dst.fold_frame w1)
  have nth: "allocs w' ! b = (if holds (tokens w) t b
      then after_destroy ?ts' t (tk_pooled ?tok) b (allocs w ! b) else allocs w ! b)"
    if "b < length (allocs w)" for b
    using that bs by (auto simp: w' dst.fold_nth w1 nth1 after_destroy_def Let_def)
  show "heap_core (allocs w') (tokens w') (pins w')"
    unfolding toks pns using nth len
    by (intro core_destroy[OF core t, where n = "tk_handles ?tok"]) simp_all
  have c1: "counters_ok w1"
  proof (cases "tk_pooled ?tok")
    case True
    have "counters_ok (foldl return_block w (each ?tok))"
      using ok(1) tok(2-4) pooled_okD(5)[OF core'(2) t(1) True] by (intro ret.fold_counters) auto
    with True tok(1) show ?thesis by (simp add: w1_def counters_ok_def)
  qed (simp add: w1_def ok(1))
  then have "counters_ok (set_token t ?t' w1)" by (simp add: counters_ok_def)
  then show "counters_ok w'"
    unfolding w' using bs lim by (intro dst.fold_counters) (auto simp: w1)
  have p1: "pinned_ok w1"
    using ret.fold_pinned_ok[OF ok(2)] ok(2) by (auto simp: w1_def pinned_ok_def)
  have unp: "al_pins (allocs w1 ! b) = 0" if "b \<in> set bs" for b
  proof -
    have b: "holds (tokens w) t b" and none: "\<not> (live ?ts' i \<and> holds ?ts' i b)" for i
      using that bs(2) by blast+
    have "\<forall>i. live (tokens w) i \<longrightarrow> holds (tokens w) i b \<longrightarrow> i = t"
    proof (intro allI impI, rule ccontr)
      fix i assume "live (tokens w) i" "holds (tokens w) i b" "i \<noteq> t"
      with none[of i] show False by (simp add: live_def)
    qed
    then have "al_pins (allocs w ! b) = 0" using unpinned_block[OF core t b] by blast
    with nth1[OF lim[OF b]] show ?thesis by (simp add: return_alloc_def)
  qed
  from p1 have "pinned_ok (set_token t ?t' w1)" by (simp add: pinned_ok_def)
  then show "pinned_ok w'"
    unfolding w' by (rule pinned_destroy_fold) (simp add: unp)
  have stg: "al_category (allocs w ! b) \<noteq> TransferStaging" if "holds (tokens w) t b" "tk_pooled ?tok" for b
    using pooled_okD(5)[OF core'(2) t(1) that(2,1)] .
  show "limits_ok w'"
    unfolding limits_ok_def
  proof
    fix l
    have "within_limits (allocs w) l (limits_of w l)" using ok(3) by (simp add: limits_ok_def)
    then have "within_limits (allocs w') l (limits_of w l)"
    proof (rule within_limits_mono[OF _ len])
      fix b assume "b < length (allocs w)" "al_admitted (allocs w' ! b)"
      then show "al_admitted (allocs w ! b) \<and> al_ledger (allocs w' ! b) = al_ledger (allocs w ! b) \<and>
          al_bytes (allocs w' ! b) = al_bytes (allocs w ! b) \<and>
          (al_category (allocs w' ! b) = TransferStaging \<longleftrightarrow> al_category (allocs w ! b) = TransferStaging) \<and>
          (0 < al_pins (allocs w' ! b) \<longrightarrow> 0 < al_pins (allocs w ! b))"
        by (cases "holds (tokens w) t b"; cases "tk_pooled ?tok")
          (simp_all add: nth after_destroy_fields stg)
    qed
    then show "within_limits (allocs w') l (limits_of w' l)"
      by (simp add: w' dst.fold_frame w1)
  qed
qed

section \<open>Handles\<close>

definition handle_ok :: "pin_token list \<Rightarrow> nat \<Rightarrow> charge_token \<Rightarrow> bool" where
  "handle_ok ps i t \<longleftrightarrow> (tk_live t \<longleftrightarrow> 0 < tk_handles t \<or> pinned_token ps i) \<and>
     (tk_reservation t \<longrightarrow> tk_handles t \<le> 1)"

lemma handles_ok_alt: "handles_ok ts ps \<longleftrightarrow> (\<forall>i < length ts. handle_ok ps i (ts ! i))"
  by (simp add: handles_ok_def handle_ok_def)

lemma handles_update:
  assumes "handles_ok ts ps" "handle_ok ps t x"
  shows "handles_ok (ts[t := x]) ps"
  using assms unfolding handles_ok_alt
  by (cases "t < length ts") (auto simp: nth_list_update list_update_beyond)

lemma token_pinned_iff: "token_pinned w t \<longleftrightarrow> pinned_token (pins w) t"
  by (auto simp: token_pinned_def pinned_token_def list_ex_iff)

text \<open>Every handle operation ends in \<open>release_token\<close>: the other handles are in order, and the
  token either keeps an owner or is destroyed.\<close>

lemma release_token_ok:
  assumes core: "heap_core (allocs w) (tokens w) (pins w)" and ok: "counters_ok w" "pinned_ok w" "limits_ok w"
    and t: "live (tokens w) t" "tk_reservation (tokens w ! t) \<longrightarrow> tk_handles (tokens w ! t) \<le> 1"
    and rest: "\<And>i. i < length (tokens w) \<Longrightarrow> i \<noteq> t \<Longrightarrow> handle_ok (pins w) i (tokens w ! i)"
  shows "ledger_inv (release_token w t)"
proof (cases "tk_handles (tokens w ! t) = 0 \<and> \<not> token_pinned w t")
  case True
  then have np: "\<not> pinned_token (pins w) t" by (simp add: token_pinned_iff)
  note d = destroy_token_ok[OF core t(1) np ok]
  have "handles_ok (tokens (destroy_token w t)) (pins (destroy_token w t))"
    unfolding handles_ok_alt d(5,6)
    using rest True np t by (auto simp: nth_list_update handle_ok_def live_def)
  with d True t(1) show ?thesis
    by (simp add: release_token_def ledger_inv_def heap_ok_def live_def)
next
  case False
  have "handle_ok (pins w) i (tokens w ! i)" if "i < length (tokens w)" for i
    using that rest[of i] t False by (cases "i = t") (auto simp: handle_ok_def live_def token_pinned_iff)
  then show ?thesis
    using False core ok by (auto simp: release_token_def ledger_inv_def heap_ok_def handles_ok_alt)
qed

lemma ledger_inv_cong:
  assumes "ledger_inv w" "allocs w' = allocs w" "tokens w' = tokens w" "pins w' = pins w"
    and "\<And>l. snap_bytes (snapshot_of w' l) = snap_bytes (snapshot_of w l)"
    and "\<And>l. snap_reserved (snapshot_of w' l) = snap_reserved (snapshot_of w l)"
    and "\<And>l. snap_total (snapshot_of w' l) = snap_total (snapshot_of w l)"
    and "\<And>l. snap_ram (snapshot_of w' l) = snap_ram (snapshot_of w l)"
    and "\<And>l. snap_pinned (snapshot_of w' l) = snap_pinned (snapshot_of w l)"
    and "\<And>l. within_limits (allocs w) l (limits_of w' l)"
  shows "ledger_inv w'"
  using assms by (simp add: ledger_inv_def counters_ok_def pinned_ok_def heap_ok_def limits_ok_def)

lemma ledger_inv_set_ledger:
  assumes "ledger_inv w" "ls_snapshot s = snapshot_of w l" "ls_limits s = limits_of w l"
  shows "ledger_inv (set_ledger l s w)"
  by (rule ledger_inv_cong[OF assms(1)]) (use assms in \<open>auto simp: ledger_inv_def limits_ok_def\<close>)

lemma ledger_inv_fault:
  assumes "ledger_inv w" "fail_step st (ledgers w l) = (s, b)"
  shows "ledger_inv (set_ledger l s w)"
  using fail_step_keeps[OF assms(2)]
  by (intro ledger_inv_set_ledger assms(1)) (simp_all add: snapshot_of_def limits_of_def)

lemma ledger_inv_peaks: "ledger_inv w \<Longrightarrow> ledger_inv (on_snapshot l peaks w)"
  by (rule ledger_inv_cong) (auto simp: ledger_inv_def limits_ok_def)

section \<open>Each operation keeps the invariant\<close>

lemma live_handle:
  assumes "ledger_inv w" "t < length (tokens w)" "0 < tk_handles (tokens w ! t)"
  shows "live (tokens w) t"
  using assms by (auto simp: ledger_inv_def heap_ok_def handles_ok_def live_def)

text \<open>The structure does not read the handle counts.\<close>

lemma core_handles:
  assumes "heap_core as ts ps"
  shows "heap_core as (ts[t := (ts ! t)\<lparr>tk_handles := n\<rparr>]) ps"
proof (cases "t < length ts")
  case True
  let ?ts = "ts[t := (ts ! t)\<lparr>tk_handles := n\<rparr>]"
  have tok: "each (?ts ! i) = each (ts ! i)" "tk_pooled (?ts ! i) = tk_pooled (ts ! i)"
    "tk_allocation (?ts ! i) = tk_allocation (ts ! i)" "tk_additional (?ts ! i) = tk_additional (ts ! i)"
    "tk_active (?ts ! i) = tk_active (ts ! i)" "tk_reservation (?ts ! i) = tk_reservation (ts ! i)"
    "live ?ts i = live ts i" for i
    using True by (auto simp: nth_list_update live_def)
  have "pins_on ?ts ps b = pins_on ts ps b" for b
    by (rule pins_on_cong) (simp add: tok)
  with assms show ?thesis
    unfolding heap_core_def heap_core_defs pins_ok_def tok by simp
qed (simp add: assms list_update_beyond)

lemma core_pin_handles:
  assumes "heap_core as ts ps" "0 < pn_handles (ps ! p)" "0 < n"
  shows "heap_core as ts (ps[p := (ps ! p)\<lparr>pn_handles := n\<rparr>])"
proof (cases "p < length ps")
  case True
  let ?ps = "ps[p := (ps ! p)\<lparr>pn_handles := n\<rparr>]"
  have "pins_on ts ?ps b = pins_on ts ps b" for b
    using sum_list_update_nat[OF True, of "\<lambda>p. if 0 < pn_handles p \<and> holds ts (pn_charge p) b then 1 else 0"
        "(ps ! p)\<lparr>pn_handles := n\<rparr>"] assms(2,3) by (simp add: pins_on_sum)
  moreover have "\<exists>r \<in> set ps. 0 < pn_handles r \<and> pn_charge r = pn_charge q \<and> pn_active r = pn_active q"
    if q: "q \<in> set ?ps" "0 < pn_handles q" for q
  proof -
    have "q \<in> set ps \<or> q = (ps ! p)\<lparr>pn_handles := n\<rparr>"
      using q(1) set_update_subset_insert[of ps p "(ps ! p)\<lparr>pn_handles := n\<rparr>"] by blast
    then show ?thesis
    proof
      assume "q = (ps ! p)\<lparr>pn_handles := n\<rparr>"
      with assms True show ?thesis by (auto intro!: bexI[of _ "ps ! p"])
    qed (use q(2) in blast)
  qed
  ultimately show ?thesis
    using assms(1) unfolding heap_core_def pins_ok_def by metis
qed (simp add: assms list_update_beyond)

lemma pinned_update:
  assumes "p < length ps" "pn_charge x = pn_charge (ps ! p)" "0 < pn_handles x" "0 < pn_handles (ps ! p)"
  shows "pinned_token (ps[p := x]) = pinned_token ps"
proof -
  have "(\<exists>i < length ps. 0 < pn_handles (ps[p := x] ! i) \<and> pn_charge (ps[p := x] ! i) = t) =
      (\<exists>i < length ps. 0 < pn_handles (ps ! i) \<and> pn_charge (ps ! i) = t)" for t
    using assms by (metis nth_list_update)
  then show ?thesis
    by (simp add: fun_eq_iff pinned_token_def in_set_conv_nth Bex_def) metis
qed

lemma inv_copy_charge:
  assumes inv: "ledger_inv w" and t: "t < length (tokens w)" "0 < tk_handles (tokens w ! t)"
    "\<not> tk_reservation (tokens w ! t)"
  shows "ledger_inv (copy_charge w t)"
proof -
  have "handle_ok (pins w) t ((tokens w ! t)\<lparr>tk_handles := tk_handles (tokens w ! t) + 1\<rparr>)"
    using inv t by (auto simp: ledger_inv_def heap_ok_def handles_ok_def handle_ok_def)
  with inv t show ?thesis
    by (simp add: ledger_inv_def heap_ok_def copy_charge_def Let_def core_handles handles_update
        counters_ok_def pinned_ok_def limits_ok_def)
qed

lemma inv_drop_handle:
  assumes inv: "ledger_inv w" and t: "t < length (tokens w)" "0 < tk_handles (tokens w ! t)"
  shows "ledger_inv (drop_handle w t)"
proof -
  have l: "live (tokens w) t" by (rule live_handle[OF assms])
  have h: "handle_ok (pins w) i (tokens w ! i)" if "i < length (tokens w)" for i
    using inv that by (simp add: ledger_inv_def heap_ok_def handles_ok_alt)
  show ?thesis
    unfolding drop_handle_def Let_def
  proof (rule release_token_ok)
    show "tk_reservation (tokens (set_token t ((tokens w ! t)\<lparr>tk_handles := tk_handles (tokens w ! t) - 1\<rparr>) w) ! t) \<longrightarrow>
      tk_handles (tokens (set_token t ((tokens w ! t)\<lparr>tk_handles := tk_handles (tokens w ! t) - 1\<rparr>) w) ! t) \<le> 1"
      using t h[OF t(1)] by (auto simp: handle_ok_def)
  qed (use inv l t h in \<open>auto simp: ledger_inv_def heap_ok_def core_handles counters_ok_def
        pinned_ok_def limits_ok_def live_def\<close>)
qed

lemma inv_copy_pin:
  assumes inv: "ledger_inv w" and p: "p < length (pins w)" "0 < pn_handles (pins w ! p)"
  shows "ledger_inv (copy_pin w p)"
  using inv p
  by (auto simp: ledger_inv_def heap_ok_def copy_pin_def Let_def core_pin_handles counters_ok_def
      pinned_ok_def limits_ok_def handles_ok_def pinned_update)

text \<open>The unpin loop takes each block that loses its last pin out of the pinned total.\<close>

lemma pinned_unpin_block:
  assumes "pinned_ok w" "b < length (allocs w)" "al_admitted (allocs w ! b)" "0 < al_pins (allocs w ! b)"
  shows "pinned_ok (unpin_block w b)"
  using assms unfolding pinned_ok_def
  by (auto simp: unpin_block_def Let_def acct_update counted_def)

lemma pinned_unpin_fold:
  assumes "pinned_ok w" "distinct bs"
    and "\<forall>b\<in>set bs. b < length (allocs w) \<and> al_admitted (allocs w ! b) \<and> 0 < al_pins (allocs w ! b)"
  shows "pinned_ok (foldl unpin_block w bs)"
  using assms
proof (induction bs arbitrary: w)
  case Nil
  then show ?case by simp
next
  case (Cons b bs)
  have "allocs (unpin_block w b) ! i = allocs w ! i" if "i \<in> set bs" for i
  proof -
    have "i \<noteq> b" using that Cons.prems(2) by auto
    then show ?thesis by (simp add: unpin_block_fields)
  qed
  then show ?case
    using Cons.prems Cons.IH[of "unpin_block w b"]
    by (simp add: unpin_block_fields(3) pinned_unpin_block) (simp add: unpin_block_fields(1))
qed

lemma inv_drop_last_pin:
  assumes inv: "ledger_inv w" and p: "p < length (pins w)" "pn_handles (pins w ! p) = 1"
  shows "ledger_inv (drop_pin w p)"
proof -
  let ?c = "pn_charge (pins w ! p)" and ?pin = "(pins w ! p)\<lparr>pn_handles := 0\<rparr>"
  let ?w1 = "set_pin p ?pin w"
  define w2 where "w2 = foldl unpin_block ?w1 (each (tokens w ! ?c))"
  have core: "heap_core (allocs w) (tokens w) (pins w)" and hs: "handles_ok (tokens w) (pins w)"
    using inv by (simp_all add: ledger_inv_def heap_ok_def)
  have ok: "tokens_ok (allocs w) (tokens w)" "pins_ok (allocs w) (tokens w) (pins w)"
    using core by (simp_all add: heap_core_def)
  have pin: "pn_active (pins w ! p)" "live (tokens w) ?c"
    using ok(2) p unfolding pins_ok_def by (metis less_numeral_extra(1) nth_mem)+
  note tok = tokens_okD[OF ok(1) pin(2)]
  have one: "0 < al_pins (allocs w ! b)" if "holds (tokens w) ?c b" for b
  proof -
    have "al_pins (allocs w ! b) = pins_on (tokens w) (pins w) b"
      using ok(2) tok(3,4) that by (simp add: pins_ok_def)
    moreover have "pins w ! p \<in> set (filter (\<lambda>p. 0 < pn_handles p \<and> holds (tokens w) (pn_charge p) b) (pins w))"
      using p that by simp
    then have "0 < pins_on (tokens w) (pins w) b"
      unfolding pins_on_def by (rule length_pos_if_in_set)
    ultimately show ?thesis by simp
  qed
  have w2: "tokens w2 = tokens w" "pins w2 = (pins w)[p := ?pin]"
    "length (allocs w2) = length (allocs w)" "limits_of w2 l = limits_of w l" for l
    by (simp_all add: w2_def unpinb.fold_frame)
  have nth: "allocs w2 ! b = (if holds (tokens w) ?c b
      then (allocs w ! b)\<lparr>al_pins := al_pins (allocs w ! b) - 1\<rparr> else allocs w ! b)"
    if "b < length (allocs w)" for b
    using that tok(2) by (simp add: w2_def unpinb.fold_nth)
  have "drop_pin w p = release_token w2 ?c"
    using p pin by (simp add: drop_pin_def Let_def w2_def)
  also have "ledger_inv \<dots>"
  proof (rule release_token_ok)
    show "heap_core (allocs w2) (tokens w2) (pins w2)"
      unfolding w2 using p nth w2(3) by (intro core_unpin[OF core])
    show "counters_ok w2"
      unfolding w2_def using inv tok(2,3)
      by (intro unpinb.fold_counters) (auto simp: ledger_inv_def counters_ok_def)
    show "pinned_ok w2"
      unfolding w2_def using inv tok(2-4) one
      by (intro pinned_unpin_fold) (auto simp: ledger_inv_def pinned_ok_def)
    show "limits_ok w2"
      unfolding limits_ok_def w2
    proof
      fix l
      show "within_limits (allocs w2) l (limits_of w l)"
        by (rule within_limits_mono[of "allocs w", OF _ w2(3)])
          (use inv in \<open>auto simp: ledger_inv_def limits_ok_def nth split: if_splits\<close>)
    qed
    show "live (tokens w2) ?c" by (simp add: w2 pin)
    show "tk_reservation (tokens w2 ! ?c) \<longrightarrow> tk_handles (tokens w2 ! ?c) \<le> 1"
      using hs pin(2) by (simp add: w2 handles_ok_def live_def)
    show "handle_ok (pins w2) i (tokens w2 ! i)" if "i < length (tokens w2)" "i \<noteq> ?c" for i
    proof -
      have "(\<exists>k < length (pins w). 0 < pn_handles ((pins w)[p := ?pin] ! k) \<and> pn_charge ((pins w)[p := ?pin] ! k) = i) =
          (\<exists>k < length (pins w). 0 < pn_handles (pins w ! k) \<and> pn_charge (pins w ! k) = i)"
        using p that(2) by (auto simp: nth_list_update)
      then have "pinned_token (pins w2) i = pinned_token (pins w) i"
        unfolding w2 pinned_token_def by (simp add: in_set_conv_nth Bex_def) metis
      with hs that(1) show ?thesis by (simp add: w2 handles_ok_alt handle_ok_def)
    qed
  qed
  finally show ?thesis .
qed

lemma inv_drop_pin:
  assumes inv: "ledger_inv w" and p: "p < length (pins w)" "0 < pn_handles (pins w ! p)"
  shows "ledger_inv (drop_pin w p)"
proof (cases "pn_handles (pins w ! p) = 1")
  case False
  with inv p show ?thesis
    by (auto simp: ledger_inv_def heap_ok_def drop_pin_def Let_def core_pin_handles counters_ok_def
        pinned_ok_def limits_ok_def handles_ok_def pinned_update)
qed (simp add: inv_drop_last_pin inv p)

text \<open>Admission: the comparison against the remainder is exact, so the new sums fit.\<close>

lemma admit_snapshot_fields:
  "snap_bytes (admit_snapshot c n s) = (snap_bytes s)(c := snap_bytes s c + n)"
  "snap_reserved (admit_snapshot c n s) = (snap_reserved s)(c := snap_reserved s c + n)"
  "snap_total (admit_snapshot c n s) = snap_total s + n"
  "snap_ram (admit_snapshot c n s) = (if c \<noteq> TransferStaging then snap_ram s + n else snap_ram s)"
  "snap_pinned (admit_snapshot c n s) = snap_pinned s"
  by (simp_all add: admit_snapshot_def Let_def)

lemma counter_le_limit:
  assumes "ledger_inv w"
  shows "snap_total (snapshot_of w l) \<le> total_limit (limits_of w l)"
    and "snap_ram (snapshot_of w l) \<le> ram_limit (limits_of w l)"
    and "snap_bytes (snapshot_of w l) TransferStaging \<le> staging_limit (limits_of w l)"
    and "snap_pinned (snapshot_of w l) \<le> pinned_limit (limits_of w l)"
proof -
  have "within_limits (allocs w) l (limits_of w l)"
    using assms by (simp add: ledger_inv_def limits_ok_def)
  then show "snap_total (snapshot_of w l) \<le> total_limit (limits_of w l)"
    and "snap_ram (snapshot_of w l) \<le> ram_limit (limits_of w l)"
    and "snap_bytes (snapshot_of w l) TransferStaging \<le> staging_limit (limits_of w l)"
    and "snap_pinned (snapshot_of w l) \<le> pinned_limit (limits_of w l)"
    by (simp_all add: word_le_nat_alt within_limits_def counter_values[OF assms])
qed

lemma admitted_within:
  assumes inv: "ledger_inv w" and fits: "\<not> over_budget (ledgers w l) c n"
  shows "within_limits (allocs w @ [new_allocation l c n]) l (limits_of w l)"
proof -
  have *: "snap_total (snapshot_of w l) \<le> total_limit (limits_of w l)"
    "snap_ram (snapshot_of w l) \<le> ram_limit (limits_of w l)"
    "snap_bytes (snapshot_of w l) TransferStaging \<le> staging_limit (limits_of w l)"
    by (simp_all add: counter_le_limit[OF inv])
  have "within_limits (allocs w) l (limits_of w l)"
    using inv by (simp add: ledger_inv_def limits_ok_def)
  moreover have "nacct (allocs w) l anything + unat n \<le> unat (total_limit (limits_of w l))"
    "c \<noteq> TransferStaging \<Longrightarrow> nacct (allocs w) l in_ram + unat n \<le> unat (ram_limit (limits_of w l))"
    "c = TransferStaging \<Longrightarrow> nacct (allocs w) l (in_category TransferStaging) + unat n
       \<le> unat (staging_limit (limits_of w l))"
    using fits *[THEN fits_iff, of n] counter_values[OF inv, of l]
    by (auto simp: over_budget_def Let_def snapshot_of_def[symmetric] limits_of_def[symmetric])
  ultimately show ?thesis
    by (auto simp: within_limits_def counted_def new_allocation_def)
qed

lemma inv_reserve:
  assumes inv: "ledger_inv w"
  shows "ledger_inv (fst (reserve w l c n))"
proof -
  obtain s b where fs: "fail_step StepReserve (ledgers w l) = (s, b)" by fastforce
  note keep = fail_step_keeps[OF fs]
  consider "fst (reserve w l c n) = w" | "fst (reserve w l c n) = set_ledger l s w"
    | "\<not> over_budget s c n" "c \<noteq> BackingAssigned" "c \<noteq> BackingMaterialized"
      "fst (reserve w l c n) = (set_ledger l (s\<lparr>ls_snapshot := admit_snapshot c n (ls_snapshot s)\<rparr>) w)
         \<lparr>allocs := allocs w @ [new_allocation l c n], tokens := tokens w @
            [\<lparr>tk_allocation = length (allocs w), tk_additional = [], tk_pooled = False,
              tk_active = True, tk_handles = 1, tk_reservation = True, tk_live = True\<rparr>]\<rparr>"
    unfolding reserve_def fs by (cases b; cases "over_budget s c n") (fastforce simp: Let_def split: if_splits)+
  then show ?thesis
  proof cases
    case 3
    let ?w' = "fst (reserve w l c n)"
    let ?a = "new_allocation l c n"
    have lists: "allocs ?w' = allocs w @ [?a]" "pins ?w' = pins w"
      "tokens ?w' = tokens w @ [\<lparr>tk_allocation = length (allocs w), tk_additional = [], tk_pooled = False,
              tk_active = True, tk_handles = 1, tk_reservation = True, tk_live = True\<rparr>]"
      by (simp_all add: 3(4))
    have snap: "snapshot_of ?w' l' = (if l' = l then admit_snapshot c n (snapshot_of w l) else snapshot_of w l')"
      and lims: "limits_of ?w' l' = limits_of w l'" for l'
      by (simp_all add: 3(4) keep snapshot_of_def limits_of_def set_ledger_def)
    have "\<not> over_budget (ledgers w l) c n" using 3(1) by (simp add: over_budget_def keep)
    note fit = admitted_within[OF inv this]
    have "counters_ok ?w'"
      using inv unfolding ledger_inv_def counters_ok_def snap lists
      by (auto simp: admit_snapshot_fields counted_def new_allocation_def)
    moreover have "pinned_ok ?w'"
      using inv unfolding ledger_inv_def pinned_ok_def snap lists
      by (auto simp: admit_snapshot_fields counted_def new_allocation_def)
    moreover have "heap_ok ?w'"
      using inv 3(2,3) unfolding ledger_inv_def heap_ok_def lists
      by (auto intro!: core_reserve simp: handles_ok_def less_Suc_eq)
    moreover have "limits_ok ?w'"
      unfolding limits_ok_def
    proof
      fix l'
      show "within_limits (allocs ?w') l' (limits_of ?w' l')"
        using inv fit unfolding lists lims
        by (cases "l' = l") (auto simp: ledger_inv_def limits_ok_def within_limits_def counted_def new_allocation_def)
    qed
    ultimately show ?thesis by (simp add: ledger_inv_def)
  qed (use inv ledger_inv_fault[OF inv fs] in simp_all)
qed

text \<open>The \<open>assert(block.reserved)\<close> of \<open>Convert\<close>.\<close>

lemma reservation_blocks_reserved:
  assumes core: "heap_core as ts ps" and t: "live ts t" "tk_reservation (ts ! t)" "holds ts t b"
  shows "al_reserved (as ! b)"
proof (cases "tk_pooled (ts ! t)")
  case True
  with core t show ?thesis using pooled_okD(3)[of as ts t b] by (simp add: heap_core_def)
next
  case False
  have "owners_ok as ts" using core by (simp add: heap_core_def)
  note own = owners_okD[OF this t(1) False]
  from own(1) t(3) have "b = tk_allocation (ts ! t)" by (simp add: each_def)
  with own(2,3) t(2) show ?thesis by (cases "al_backing (as ! b)") auto
qed

lemma inv_convert_success:
  assumes inv: "ledger_inv w" and t: "t < length (tokens w)" "0 < tk_handles (tokens w ! t)"
    "tk_reservation (tokens w ! t)"
  shows "ledger_inv (set_token t ((tokens w ! t)\<lparr>tk_reservation := False\<rparr>)
    (on_snapshot l peaks (foldl convert_block w (each (tokens w ! t)))))"
    (is "ledger_inv (set_token t ?t' (on_snapshot l peaks ?w1))")
proof -
  have lt: "live (tokens w) t" by (rule live_handle[OF inv t(1,2)])
  have core: "heap_core (allocs w) (tokens w) (pins w)" and hs: "handles_ok (tokens w) (pins w)"
    using inv by (simp_all add: ledger_inv_def heap_ok_def)
  have "tokens_ok (allocs w) (tokens w)" using core by (simp add: heap_core_def)
  note tok = tokens_okD[OF this lt]
  note res = reservation_blocks_reserved[OF core lt t(3)]
  have nth: "allocs ?w1 ! b = (if holds (tokens w) t b then convert_alloc (allocs w ! b) else allocs w ! b)"
    if "b < length (allocs w)" for b
    using that tok(2) by (simp add: conv.fold_nth)
  have "counters_ok ?w1"
  proof (rule conv.fold_counters[OF tok(2)])
    show "\<forall>b\<in>set (each (tokens w ! t)). b < length (allocs w) \<and> al_admitted (allocs w ! b) \<and> al_reserved (allocs w ! b)"
      using tok(3,4) res by blast
    show "counters_ok w" using inv by (simp add: ledger_inv_def)
  qed
  moreover have "pinned_ok ?w1"
    using inv by (intro conv.fold_pinned_ok) (simp add: ledger_inv_def)
  moreover have "heap_core (allocs ?w1) ((tokens w)[t := ?t']) (pins w)"
    using nth by (intro core_convert[OF core lt t(3)]) (simp_all add: conv.fold_frame)
  moreover have "handles_ok ((tokens w)[t := ?t']) (pins w)"
    using hs t by (intro handles_update) (auto simp: handles_ok_def handle_ok_def)
  moreover have "within_limits (allocs ?w1) l (limits_of w l)" for l
  proof (rule within_limits_mono[of "allocs w"])
    show "within_limits (allocs w) l (limits_of w l)"
      using inv by (simp add: ledger_inv_def limits_ok_def)
    show "length (allocs ?w1) = length (allocs w)" by (rule conv.fold_frame)
    fix b assume "b < length (allocs w)" "al_admitted (allocs ?w1 ! b)"
    then show "al_admitted (allocs w ! b) \<and> al_ledger (allocs ?w1 ! b) = al_ledger (allocs w ! b) \<and>
        al_bytes (allocs ?w1 ! b) = al_bytes (allocs w ! b) \<and>
        (al_category (allocs ?w1 ! b) = TransferStaging \<longleftrightarrow> al_category (allocs w ! b) = TransferStaging) \<and>
        (0 < al_pins (allocs ?w1 ! b) \<longrightarrow> 0 < al_pins (allocs w ! b))"
      by (cases "holds (tokens w) t b") (simp_all add: nth convert_alloc_def)
  qed
  ultimately show ?thesis
    by (simp add: ledger_inv_def heap_ok_def counters_ok_def pinned_ok_def limits_ok_def conv.fold_frame)
qed

lemma inv_convert:
  assumes inv: "ledger_inv w" and h: "\<And>t. h = Some t \<Longrightarrow> t < length (tokens w) \<and>
    0 < tk_handles (tokens w ! t) \<and> tk_reservation (tokens w ! t)"
  shows "ledger_inv (fst (convert w h))"
proof (cases h)
  case (Some t)
  let ?l = "token_ledger w (tokens w ! t)"
  obtain s b where fs: "fail_step StepConvert (ledgers w ?l) = (s, b)" by fastforce
  have inv': "ledger_inv (set_ledger ?l s w)" by (rule ledger_inv_fault[OF inv fs])
  have "ledger_inv (set_token t ((tokens w ! t)\<lparr>tk_reservation := False\<rparr>)
    (on_snapshot ?l peaks (foldl convert_block (set_ledger ?l s w) (each (tokens w ! t)))))"
    using inv_convert_success[OF inv', of t ?l] h[OF Some] by simp
  with inv' Some show ?thesis
    by (cases b) (simp_all add: convert_def Let_def fs)
qed (simp add: convert_def inv)

subsection \<open>Pinning\<close>

definition fresh_pins :: "allocation list \<Rightarrow> nat list \<Rightarrow> nat" where
  "fresh_pins as bs = sum_list (map (\<lambda>b. if al_pins (as ! b) = 0 then unat (al_bytes (as ! b)) else 0) bs)"

lemma newly_pinned_fresh: "newly_pinned w t = word_of_nat (fresh_pins (allocs w) (each t))"
proof -
  have "sum_list (map (\<lambda>b. if al_pins (allocs w ! b) = 0 then al_bytes (allocs w ! b) else 0) bs) =
      word_of_nat (fresh_pins (allocs w) bs)" for bs
    by (induction bs) (simp_all add: fresh_pins_def)
  then show ?thesis by (simp add: newly_pinned_def)
qed

lemma nacct_pin_fold:
  assumes "distinct bs"
    and "\<forall>b\<in>set bs. b < length (allocs w) \<and> al_admitted (allocs w ! b) \<and> al_ledger (allocs w ! b) = l"
  shows "nacct (allocs (foldl pin_block w bs)) l' is_pinned =
    nacct (allocs w) l' is_pinned + (if l' = l then fresh_pins (allocs w) bs else 0)"
  using assms
proof (induction bs arbitrary: w)
  case Nil
  then show ?case by (simp add: fresh_pins_def)
next
  case (Cons b bs)
  let ?w = "pin_block w b"
  have same: "allocs ?w ! i = allocs w ! i" if "i \<in> set bs" for i
  proof -
    have "i \<noteq> b" using that Cons.prems(1) by auto
    then show ?thesis by (simp add: pin_block_fields)
  qed
  then have "nacct (allocs (foldl pin_block ?w bs)) l' is_pinned =
      nacct (allocs ?w) l' is_pinned + (if l' = l then fresh_pins (allocs ?w) bs else 0)"
    using Cons.prems by (intro Cons.IH) (simp_all add: pin_block_fields(1))
  moreover have "fresh_pins (allocs ?w) bs = fresh_pins (allocs w) bs"
    unfolding fresh_pins_def using same by (simp cong: map_cong if_cong)
  moreover have "nacct (allocs ?w) l' is_pinned = nacct (allocs w) l' is_pinned +
      (if l' = l \<and> al_pins (allocs w ! b) = 0 then unat (al_bytes (allocs w ! b)) else 0)"
    using Cons.prems nacct_update[of b "allocs w" "(allocs w ! b)\<lparr>al_pins := al_pins (allocs w ! b) + 1\<rparr>" l' is_pinned]
    by (auto simp: pin_block_fields counted_def split: if_splits)
  ultimately show ?case by (simp add: fresh_pins_def)
qed

lemma nacct_pin_other:
  assumes "\<And>a n. P (a\<lparr>al_pins := n\<rparr>) = P a"
  shows "nacct (allocs (foldl pin_block w bs)) l P = nacct (allocs w) l P"
proof (induction bs arbitrary: w)
  case Nil
  then show ?case by simp
next
  case (Cons b bs)
  have "nacct (allocs (pin_block w b)) l P = nacct (allocs w) l P"
    using nacct_update[of b "allocs w" "(allocs w ! b)\<lparr>al_pins := al_pins (allocs w ! b) + 1\<rparr>" l P] assms
    by (cases "b < length (allocs w)")
      (auto simp: pin_block_fields counted_def list_update_beyond split: if_splits)
  with Cons show ?case by simp
qed

lemma pinnable_blocks:
  "\<not> list_ex (\<lambda>b. \<not> pinnable t (as ! b)) bs \<Longrightarrow> b \<in> set bs \<Longrightarrow> al_backing (as ! b) \<Longrightarrow> tk_pooled t"
  by (auto simp: list_ex_iff pinnable_def Let_def)

lemma inv_pin_success:
  fixes w t
  defines "tok \<equiv> tokens w ! t"
  defines "l \<equiv> token_ledger w tok"
  defines "w2 \<equiv> foldl pin_block
    (on_snapshot l (\<lambda>sn. sn\<lparr>snap_pinned := snap_pinned sn + newly_pinned w tok\<rparr>) w) (each tok)"
  assumes inv: "ledger_inv w" and t: "t < length (tokens w)" "0 < tk_handles tok"
    and payload: "\<not> list_ex (\<lambda>b. \<not> pinnable tok (allocs w ! b)) (each tok)"
    and fits: "\<not> newly_pinned w tok > pinned_limit (limits_of w l) - snap_pinned (snapshot_of w l)"
  shows "ledger_inv ((on_snapshot l peaks w2)
    \<lparr>pins := pins w @ [\<lparr>pn_charge = t, pn_active = True, pn_handles = 1\<rparr>]\<rparr>)"
proof -
  let ?p = "\<lparr>pn_charge = t, pn_active = True, pn_handles = 1\<rparr>"
  have lt: "live (tokens w) t" using live_handle[OF inv t(1)] t(2) by (simp add: tok_def)
  have core: "heap_core (allocs w) (tokens w) (pins w)" and hs: "handles_ok (tokens w) (pins w)"
    using inv by (simp_all add: ledger_inv_def heap_ok_def)
  have "tokens_ok (allocs w) (tokens w)" using core by (simp add: heap_core_def)
  note tok = tokens_okD[OF this lt, folded tok_def]
  have blocks: "\<forall>b\<in>set (each tok). b < length (allocs w) \<and> al_admitted (allocs w ! b) \<and> al_ledger (allocs w ! b) = l"
    using tok(3-5) by (simp add: l_def token_ledger_def)
  have w2: "tokens w2 = tokens w" "pins w2 = pins w" "length (allocs w2) = length (allocs w)"
    "limits_of w2 k = limits_of w k" for k
    by (simp_all add: w2_def pinb.fold_frame)
  have nth: "allocs w2 ! b = (if b \<in> set (each tok)
      then (allocs w ! b)\<lparr>al_pins := al_pins (allocs w ! b) + 1\<rparr> else allocs w ! b)"
    if "b < length (allocs w)" for b
    using that tok(2) by (simp add: w2_def pinb.fold_nth)
  have pinned: "nacct (allocs w2) k is_pinned = nacct (allocs w) k is_pinned +
      (if k = l then fresh_pins (allocs w) (each tok) else 0)" for k
    using nacct_pin_fold[OF tok(2), where l = l and l' = k
        and w = "on_snapshot l (\<lambda>sn. sn\<lparr>snap_pinned := snap_pinned sn + newly_pinned w tok\<rparr>) w"] blocks
    by (simp add: w2_def)
  have other: "nacct (allocs w2) k P = nacct (allocs w) k P" if "\<And>a n. P (a\<lparr>al_pins := n\<rparr>) = P a" for k P
    using nacct_pin_other[of P, OF that] by (simp add: w2_def)
  have within: "within_limits (allocs w) k (limits_of w k)" for k
    using inv by (simp add: ledger_inv_def limits_ok_def)
  have "fresh_pins (allocs w) (each tok) \<le> unat (total_limit (limits_of w l))"
  proof -
    have "fresh_pins (allocs w) (each tok) \<le> nacct (allocs w2) l anything"
      using pinned[of l] nacct_mono[of is_pinned anything "allocs w2" l] by simp
    also have "\<dots> \<le> unat (total_limit (limits_of w l))"
      using within[of l] by (simp add: other within_limits_def)
    finally show ?thesis .
  qed
  then have "fresh_pins (allocs w) (each tok) < 2 ^ LENGTH(64)"
    using unsigned_less by (rule le_less_trans)
  then have fresh: "unat (newly_pinned w tok) = fresh_pins (allocs w) (each tok)"
    by (simp add: newly_pinned_fresh unat_of_nat)
  have room: "nacct (allocs w) l is_pinned + fresh_pins (allocs w) (each tok) \<le> unat (pinned_limit (limits_of w l))"
    using fits fits_iff[OF counter_le_limit(4)[OF inv, of l], of "newly_pinned w tok"]
    by (simp add: counter_values[OF inv] fresh)
  have snap: "snapshot_of w2 k = (if k = l
      then (snapshot_of w l)\<lparr>snap_pinned := snap_pinned (snapshot_of w l) + newly_pinned w tok\<rparr>
      else snapshot_of w k)" for k
  proof -
    have "snapshot_of (foldl pin_block v bs) k = snapshot_of v k" for v bs
      by (induction bs arbitrary: v) (simp_all add: pin_block_fields)
    then show ?thesis by (simp add: w2_def)
  qed
  have "counters_ok w2"
    unfolding w2_def using inv blocks
    by (intro pinb.fold_counters[OF tok(2)]) (simp_all add: ledger_inv_def counters_ok_def)
  moreover have "pinned_ok w2"
    using inv unfolding ledger_inv_def pinned_ok_def snap acct_of_nacct pinned
    by (simp add: newly_pinned_fresh)
  moreover have "heap_core (allocs w2) (tokens w) (pins w @ [?p])"
    using nth w2(3) pinnable_blocks[OF payload]
    by (intro core_pin[OF core lt]) (simp_all add: tok_def)
  moreover have "handles_ok (tokens w) (pins w @ [?p])"
    using hs lt t by (auto simp: handles_ok_def pinned_token_def live_def tok_def)
  moreover have "within_limits (allocs w2) k (limits_of w k)" for k
    using within[of k] room by (simp add: within_limits_def other pinned)
  ultimately show ?thesis
    by (simp add: ledger_inv_def heap_ok_def counters_ok_def pinned_ok_def limits_ok_def w2)
qed

lemma inv_pin:
  assumes inv: "ledger_inv w" and h: "\<And>t. h = Some t \<Longrightarrow> t < length (tokens w) \<and> 0 < tk_handles (tokens w ! t)"
  shows "ledger_inv (fst (pin_persistence w h))"
proof (cases h)
  case (Some t)
  let ?tok = "tokens w ! t" let ?l = "token_ledger w ?tok"
  obtain s b where fs: "fail_step StepPin (ledgers w ?l) = (s, b)" by fastforce
  let ?v = "set_ledger ?l s w"
  have inv': "ledger_inv ?v" by (rule ledger_inv_fault[OF inv fs])
  have same: "newly_pinned ?v ?tok = newly_pinned w ?tok" "token_ledger ?v ?tok = ?l"
    by (simp_all add: newly_pinned_def token_ledger_def cong: if_cong)
  show ?thesis
  proof (cases "list_ex (\<lambda>b. \<not> pinnable ?tok (allocs w ! b)) (each ?tok) \<or> b \<or>
      newly_pinned w ?tok > pinned_limit (ls_limits s) - snap_pinned (ls_snapshot s)")
    case True
    with inv inv' Some show ?thesis
      by (cases b) (auto simp: pin_persistence_def Let_def fs)
  next
    case False
    then show ?thesis
      using inv_pin_success[OF inv', of t] h[OF Some] same pinb.fold_frame(2)
      by (simp add: pin_persistence_def Let_def fs Some)
  qed
qed (simp add: pin_persistence_def inv)

subsection \<open>Assigning backing blocks\<close>

lemma check_blocks_None:
  "check_blocks w l seen bs = None \<longleftrightarrow>
     (\<forall>b\<in>set bs. al_ledger (allocs w ! b) = l) \<and> distinct bs \<and> set bs \<inter> set seen = {}"
  by (induction bs arbitrary: seen) auto

definition charge_handle :: "world \<Rightarrow> nat option \<Rightarrow> bool" where
  "charge_handle w h \<longleftrightarrow>
     (case h of None \<Rightarrow> True
      | Some t \<Rightarrow> t < length (tokens w) \<and> 0 < tk_handles (tokens w ! t) \<and> \<not> tk_reservation (tokens w ! t))"

definition pool_allocs :: "world \<Rightarrow> nat option list \<Rightarrow> nat list" where
  "pool_allocs w hs = map (\<lambda>h. tk_allocation (tokens w ! the h)) hs"

text \<open>The free blocks behind charge handles of a pool: admitted, backing and not reserved, which
  is the \<open>assert(!block.reserved)\<close> of the loop.\<close>

lemma pool_block:
  assumes inv: "ledger_inv w" and h: "charge_handle w h" "pool_handle w h"
  defines "b \<equiv> tk_allocation (tokens w ! the h)"
  shows "b < length (allocs w)" and "al_admitted (allocs w ! b)" and "al_backing (allocs w ! b)"
    and "al_category (allocs w ! b) = BackingFree \<Longrightarrow> \<not> al_reserved (allocs w ! b)"
proof -
  obtain t where t: "h = Some t" "t < length (tokens w)" "0 < tk_handles (tokens w ! t)"
    "\<not> tk_reservation (tokens w ! t)" "\<not> tk_pooled (tokens w ! t)" "al_backing (allocs w ! tk_allocation (tokens w ! t))"
    using h by (cases h) (auto simp: charge_handle_def pool_handle_def)
  have lt: "live (tokens w) t" by (rule live_handle[OF inv t(2,3)])
  have core: "heap_core (allocs w) (tokens w) (pins w)"
    using inv by (simp_all add: ledger_inv_def heap_ok_def)
  then have "tokens_ok (allocs w) (tokens w)" by (simp add: heap_core_def)
  note tok = tokens_okD[OF this lt]
  have b: "b = tk_allocation (tokens w ! t)" by (simp add: b_def t(1))
  have "holds (tokens w) t b" by (simp add: b each_def)
  then show "b < length (allocs w)" "al_admitted (allocs w ! b)" by (simp_all add: tok)
  show "al_backing (allocs w ! b)" using t(6) by (simp add: b)
  show "\<not> al_reserved (allocs w ! b)" if "al_category (allocs w ! b) = BackingFree"
    using free_not_reserved[OF core lt t(5,4)] that t(6) by (simp add: b)
qed

lemma inv_assign_success:
  fixes w ids c
  defines "t \<equiv> \<lparr>tk_allocation = hd ids, tk_additional = tl ids, tk_pooled = True, tk_active = True,
    tk_handles = 1, tk_reservation = True, tk_live = True\<rparr>"
  defines "w1 \<equiv> foldl (assign_block c) w ids"
  assumes inv: "ledger_inv w" and ids: "ids \<noteq> []" "distinct ids" and c: "payload_category c"
    and blocks: "\<And>b. b \<in> set ids \<Longrightarrow> b < length (allocs w) \<and> al_admitted (allocs w ! b) \<and>
      al_backing (allocs w ! b) \<and> al_category (allocs w ! b) = BackingFree \<and>
      \<not> al_reserved (allocs w ! b) \<and> al_ledger (allocs w ! b) = l"
  shows "ledger_inv ((on_snapshot l peaks w1)\<lparr>tokens := tokens w @ [t]\<rparr>)"
proof -
  have each_t: "each t = ids" using ids(1) by (simp add: t_def each_def)
  have core: "heap_core (allocs w) (tokens w) (pins w)" and hs: "handles_ok (tokens w) (pins w)"
    using inv by (simp_all add: ledger_inv_def heap_ok_def)
  have w1: "tokens w1 = tokens w" "pins w1 = pins w" "length (allocs w1) = length (allocs w)"
    "limits_of w1 k = limits_of w k" for k
    by (simp_all add: w1_def asg.fold_frame)
  have nth: "allocs w1 ! b = (if b \<in> set ids then assign_alloc c (allocs w ! b) else allocs w ! b)"
    if "b < length (allocs w)" for b
    using that ids(2) by (simp add: w1_def asg.fold_nth)
  have cs: "c \<noteq> TransferStaging" using c by (auto simp: payload_category_def)
  have "counters_ok w1"
    unfolding w1_def using inv blocks cs
    by (intro asg.fold_counters[OF ids(2)]) (simp_all add: ledger_inv_def)
  moreover have "pinned_ok w1"
    unfolding w1_def using inv by (intro asg.fold_pinned_ok) (simp add: ledger_inv_def)
  moreover have "heap_core (allocs w1) (tokens w @ [t]) (pins w)"
    by (rule core_assign[OF core, of t _ c, where l = l]) (use blocks nth ids c in \<open>simp_all add: each_t w1, simp_all add: t_def\<close>)
  moreover have "handles_ok (tokens w @ [t]) (pins w)"
    using hs by (auto simp: handles_ok_def less_Suc_eq t_def)
  moreover have "within_limits (allocs w1) k (limits_of w k)" for k
  proof (rule within_limits_mono[of "allocs w", OF _ w1(3)])
    show "within_limits (allocs w) k (limits_of w k)"
      using inv by (simp add: ledger_inv_def limits_ok_def)
    fix b assume "b < length (allocs w)" "al_admitted (allocs w1 ! b)"
    then show "al_admitted (allocs w ! b) \<and> al_ledger (allocs w1 ! b) = al_ledger (allocs w ! b) \<and>
        al_bytes (allocs w1 ! b) = al_bytes (allocs w ! b) \<and>
        (al_category (allocs w1 ! b) = TransferStaging \<longleftrightarrow> al_category (allocs w ! b) = TransferStaging) \<and>
        (0 < al_pins (allocs w1 ! b) \<longrightarrow> 0 < al_pins (allocs w ! b))"
      using blocks[of b] cs by (cases "b \<in> set ids") (simp_all add: nth assign_alloc_def)
  qed
  ultimately show ?thesis
    by (simp add: ledger_inv_def heap_ok_def counters_ok_def pinned_ok_def limits_ok_def w1)
qed

lemma inv_reserve_backing:
  assumes inv: "ledger_inv w" and hs: "\<forall>h\<in>set blocks. charge_handle w h"
  shows "ledger_inv (fst (reserve_backing w blocks c))"
proof (cases "fst (reserve_backing w blocks c) = w")
  case False
  let ?ids = "map (\<lambda>h. tk_allocation (tokens w ! the h)) blocks"
  let ?l = "al_ledger (allocs w ! hd ?ids)"
  obtain s b where fs: "fail_step StepReserve (ledgers w ?l) = (s, b)" by fastforce
  let ?v = "set_ledger ?l s w"
  have inv': "ledger_inv ?v" by (rule ledger_inv_fault[OF inv fs])
  have g: "payload_category c" "blocks \<noteq> []" "\<forall>h\<in>set blocks. pool_handle w h"
    "check_blocks w ?l [hd ?ids] (tl ?ids) = None" "\<forall>b\<in>set ?ids. al_category (allocs w ! b) = BackingFree"
    "c \<noteq> BackingMaterialized"
    using False by (auto simp: reserve_backing_def Let_def list_ex_iff payload_category_def
        split: if_splits option.splits)
  have ids: "?ids \<noteq> []" using g(2) by simp
  then have split: "?ids = hd ?ids # tl ?ids" by simp
  have chk: "\<forall>b\<in>set (tl ?ids). al_ledger (allocs w ! b) = ?l" "distinct (tl ?ids)" "hd ?ids \<notin> set (tl ?ids)"
    using g(4) unfolding check_blocks_None by auto
  have dist: "distinct ?ids" using chk(2,3) by (subst split) simp
  have led: "\<forall>b\<in>set ?ids. al_ledger (allocs w ! b) = ?l" using chk(1) by (subst split) simp
  have res: "ledger_inv ((on_snapshot ?l peaks (foldl (assign_block c) ?v ?ids))
      \<lparr>tokens := tokens ?v @ [\<lparr>tk_allocation = hd ?ids, tk_additional = tl ?ids, tk_pooled = True,
         tk_active = True, tk_handles = 1, tk_reservation = True, tk_live = True\<rparr>]\<rparr>)"
  proof (rule inv_assign_success[OF inv' ids dist g(1)])
    fix b assume b: "b \<in> set ?ids"
    then obtain h where h: "h \<in> set blocks" "b = tk_allocation (tokens w ! the h)" by auto
    have "charge_handle w h" "pool_handle w h" using h(1) hs g(3) by blast+
    note pb = pool_block[OF inv this, folded h(2)]
    show "b < length (allocs ?v) \<and> al_admitted (allocs ?v ! b) \<and> al_backing (allocs ?v ! b) \<and>
        al_category (allocs ?v ! b) = BackingFree \<and> \<not> al_reserved (allocs ?v ! b) \<and>
        al_ledger (allocs ?v ! b) = ?l"
      using pb bspec[OF g(5) b] bspec[OF led b] by simp
  qed
  show ?thesis
  proof (cases b)
    case True
    then show ?thesis using inv inv' fs
      by (auto simp: reserve_backing_def Let_def split: option.splits)
  next
    case False
    have e: "reserve_backing w blocks c = ((on_snapshot ?l peaks (foldl (assign_block c) ?v ?ids))
      \<lparr>tokens := tokens ?v @ [\<lparr>tk_allocation = hd ?ids, tk_additional = tl ?ids, tk_pooled = True,
         tk_active = True, tk_handles = 1, tk_reservation = True, tk_live = True\<rparr>]\<rparr>, Inr (length (tokens w)))"
      using g False by (auto simp: reserve_backing_def Let_def fs list_ex_iff payload_category_def asg.fold_frame)
    show ?thesis unfolding e fst_conv by (rule res)
  qed
qed (simp add: inv)

subsection \<open>Limits, snapshots, faults\<close>

lemma inv_constrain:
  assumes inv: "ledger_inv w"
  shows "ledger_inv (fst (constrain_limits w l lim))"
proof (cases "fst (constrain_limits w l lim) = w")
  case False
  then have fit: "snap_total (snapshot_of w l) \<le> total_limit lim" "snap_ram (snapshot_of w l) \<le> ram_limit lim"
    "snap_bytes (snapshot_of w l) TransferStaging \<le> staging_limit lim"
    "snap_pinned (snapshot_of w l) \<le> pinned_limit lim"
    and e: "fst (constrain_limits w l lim) = set_ledger l ((ledgers w l)\<lparr>ls_limits := lim\<rparr>) w"
    by (auto simp: constrain_limits_def Let_def split: if_splits)
  have "within_limits (allocs w) l lim"
    using fit by (simp add: word_le_nat_alt counter_values[OF inv] within_limits_def)
  with inv show ?thesis
    unfolding e by (intro ledger_inv_cong[OF inv])
      (auto simp: snapshot_of_def limits_of_def set_ledger_def ledger_inv_def limits_ok_def)
qed (simp add: inv)

lemma reset_peaks_fields [simp]:
  "snap_bytes (reset_peaks s) = snap_bytes s" "snap_reserved (reset_peaks s) = snap_reserved s"
  "snap_total (reset_peaks s) = snap_total s" "snap_ram (reset_peaks s) = snap_ram s"
  "snap_pinned (reset_peaks s) = snap_pinned s"
  by (simp_all add: reset_peaks_def)

lemma inv_reset:
  "ledger_inv w \<Longrightarrow> ledger_inv (fst (snapshot_and_reset_peaks w l))"
  by (rule ledger_inv_cong) (auto simp: snapshot_and_reset_peaks_def ledger_inv_def limits_ok_def)

lemma inv_fail_after: "ledger_inv w \<Longrightarrow> ledger_inv (fst (fail_after w l st n))"
  by (simp add: fail_after_def Let_def ledger_inv_set_ledger snapshot_of_def limits_of_def)

lemma inv_clear_faults: "ledger_inv w \<Longrightarrow> ledger_inv (clear_faults w l)"
  by (simp add: clear_faults_def Let_def ledger_inv_set_ledger snapshot_of_def limits_of_def)

section \<open>The transition system\<close>

text \<open>A handle is a token of which the client holds at least one \<open>shared_ptr\<close>; the C++ types
  keep \<open>Convert\<close> to reservations and copying and \<open>ReserveBacking\<close> to charges.\<close>

definition reservation_handle :: "world \<Rightarrow> nat option \<Rightarrow> bool" where
  "reservation_handle w h \<longleftrightarrow>
     (case h of None \<Rightarrow> True
      | Some t \<Rightarrow> t < length (tokens w) \<and> 0 < tk_handles (tokens w ! t) \<and> tk_reservation (tokens w ! t))"

inductive ledger_trans :: "world \<Rightarrow> world \<Rightarrow> bool" where
  Reserve: "ledger_trans w (fst (reserve w l c n))"
| Convert: "reservation_handle w h \<Longrightarrow> ledger_trans w (fst (convert w h))"
| ReserveBacking: "\<forall>h\<in>set blocks. charge_handle w h \<Longrightarrow> ledger_trans w (fst (reserve_backing w blocks c))"
| Pin: "reservation_handle w h \<or> charge_handle w h \<Longrightarrow> ledger_trans w (fst (pin_persistence w h))"
| CopyCharge: "charge_handle w (Some t) \<Longrightarrow> ledger_trans w (copy_charge w t)"
| DropHandle: "reservation_handle w (Some t) \<or> charge_handle w (Some t) \<Longrightarrow> ledger_trans w (drop_handle w t)"
| CopyPin: "p < length (pins w) \<Longrightarrow> 0 < pn_handles (pins w ! p) \<Longrightarrow> ledger_trans w (copy_pin w p)"
| DropPin: "p < length (pins w) \<Longrightarrow> 0 < pn_handles (pins w ! p) \<Longrightarrow> ledger_trans w (drop_pin w p)"
| Constrain: "ledger_trans w (fst (constrain_limits w l lim))"
| ResetPeaks: "ledger_trans w (fst (snapshot_and_reset_peaks w l))"
| FailAfter: "ledger_trans w (fst (fail_after w l st n))"
| ClearFaults: "ledger_trans w (clear_faults w l)"

inductive ledger_reachable :: "(nat \<Rightarrow> resource_limits) \<Rightarrow> world \<Rightarrow> bool" for lims where
  Init: "ledger_reachable lims (init_world lims)"
| Step: "ledger_reachable lims w \<Longrightarrow> ledger_trans w w' \<Longrightarrow> ledger_reachable lims w'"

lemma inv_init: "ledger_inv (init_world lims)"
  by (simp add: ledger_inv_def counters_ok_def pinned_ok_def heap_ok_def heap_core_def heap_core_defs
      pins_ok_def handles_ok_def limits_ok_def within_limits_def init_world_def new_ledger_def
      snapshot_of_def live_def)

lemma inv_trans: "ledger_trans w w' \<Longrightarrow> ledger_inv w \<Longrightarrow> ledger_inv w'"
proof (induction rule: ledger_trans.induct)
  case (Convert w h)
  then show ?case by (intro inv_convert) (auto simp: reservation_handle_def)
next
  case (Pin w h)
  then show ?case by (intro inv_pin) (auto simp: reservation_handle_def charge_handle_def)
next
  case (CopyCharge w t)
  then show ?case by (intro inv_copy_charge) (auto simp: charge_handle_def)
next
  case (DropHandle w t)
  then show ?case by (intro inv_drop_handle) (auto simp: reservation_handle_def charge_handle_def)
qed (simp_all add: inv_reserve inv_reserve_backing inv_copy_pin inv_drop_pin inv_constrain inv_reset
    inv_fail_after inv_clear_faults)

lemma reachable_inv: "ledger_reachable lims w \<Longrightarrow> ledger_inv w"
  by (induction rule: ledger_reachable.induct) (simp_all add: inv_init inv_trans)

end
