(* ===== verification/Ledger_Properties.thy ===== *)
theory Ledger_Properties
  imports Ledger_Steps
begin

text \<open>
  What the ledger promises its clients, over every world they can reach, with a concrete history
  (a pool of two blocks, an assigned and pinned run, a staging buffer) for the witnesses.
\<close>

section \<open>A concrete history\<close>

definition demo_limits :: "nat \<Rightarrow> resource_limits" where
  "demo_limits l = \<lparr>total_limit = 10000, ram_limit = 9000, staging_limit = 600, pinned_limit = 8192\<rparr>"

definition demo_pool :: world where
  "demo_pool =
     (let w0 = init_world demo_limits;
          w1 = fst (reserve w0 0 BackingFree 4096);
          w2 = fst (convert w1 (Some 0));
          w3 = fst (reserve w2 0 BackingFree 4096);
          w4 = fst (convert w3 (Some 1))
      in fst (reserve w4 0 TransferStaging 512))"

definition demo_world :: world where
  "demo_world = fst (reserve_backing demo_pool [Some 0, Some 1] BackingAssigned)"

lemma demo_pool_tokens:
  "length (tokens demo_pool) = 3"
  "tk_handles (tokens demo_pool ! 0) = 1 \<and> \<not> tk_reservation (tokens demo_pool ! 0)"
  "tk_handles (tokens demo_pool ! 1) = 1 \<and> \<not> tk_reservation (tokens demo_pool ! 1)"
  by code_simp+

lemmas next_step = ledger_reachable.Step

lemma demo_block_reachable:
  "ledger_reachable demo_limits (fst (convert (fst (reserve (init_world demo_limits) 0 BackingFree 4096)) (Some 0)))"
proof -
  have "reservation_handle (fst (reserve (init_world demo_limits) 0 BackingFree 4096)) (Some 0)"
    by code_simp
  then show ?thesis
    by (intro next_step[OF _ ledger_trans.Convert] next_step[OF _ ledger_trans.Reserve] ledger_reachable.Init)
qed

lemma demo_pool_reachable: "ledger_reachable demo_limits demo_pool"
proof -
  have "reservation_handle (fst (reserve
    (fst (convert (fst (reserve (init_world demo_limits) 0 BackingFree 4096)) (Some 0))) 0 BackingFree 4096)) (Some 1)"
    by code_simp
  then show ?thesis
    unfolding demo_pool_def Let_def
    by (intro next_step[OF _ ledger_trans.Reserve] next_step[OF _ ledger_trans.Convert]
        next_step[OF demo_block_reachable ledger_trans.Reserve])
qed

lemma demo_reachable: "ledger_reachable demo_limits demo_world"
proof -
  have "\<forall>h \<in> set [Some 0, Some 1]. charge_handle demo_pool h" by code_simp
  then show ?thesis
    unfolding demo_world_def
    by (rule next_step[OF demo_pool_reachable ledger_trans.ReserveBacking])
qed

section \<open>Accounting\<close>

text \<open>C1. In every reachable world each counter of a ledger is the exact sum (no wrap-around) of
  the bytes of the admitted allocations it stands for: per category, reserved per category,
  total, RAM and persistence-pinned.\<close>

theorem ledger_counters_exact:
  assumes "ledger_reachable lims w"
  shows "unat (snap_total (snapshot_of w l)) = nacct (allocs w) l anything \<and>
    unat (snap_ram (snapshot_of w l)) = nacct (allocs w) l in_ram \<and>
    unat (snap_pinned (snapshot_of w l)) = nacct (allocs w) l is_pinned \<and>
    (\<forall>c. unat (snap_bytes (snapshot_of w l) c) = nacct (allocs w) l (in_category c) \<and>
         unat (snap_reserved (snapshot_of w l) c) = nacct (allocs w) l (reserved_in c))"
  using counter_values[OF reachable_inv[OF assms]] by blast

theorem ledger_counters_exact_witness:
  "unat (snap_bytes (snapshot_of demo_world 0) BackingAssigned) = 8192 \<and>
   nacct (allocs demo_world) 0 (in_category BackingAssigned) = 8192"
proof -
  have "unat (snap_bytes (snapshot_of demo_world 0) BackingAssigned) = 8192" by code_simp
  with ledger_counters_exact[OF demo_reachable, of 0] show ?thesis by simp
qed

text \<open>C2. In every reachable world a ledger's total, RAM, staging and pinned bytes are within the
  limits in force, whatever reservations, conversions, pins and constrained limits led there.\<close>

theorem ledger_within_limits:
  assumes "ledger_reachable lims w"
  shows "snap_total (snapshot_of w l) \<le> total_limit (limits_of w l) \<and>
    snap_ram (snapshot_of w l) \<le> ram_limit (limits_of w l) \<and>
    snap_bytes (snapshot_of w l) TransferStaging \<le> staging_limit (limits_of w l) \<and>
    snap_pinned (snapshot_of w l) \<le> pinned_limit (limits_of w l)"
  using counter_le_limit[OF reachable_inv[OF assms]] by blast

theorem ledger_within_limits_witness:
  "snap_total (snapshot_of demo_world 0) = 8704 \<and>
   snap_total (snapshot_of demo_world 0) \<le> total_limit (limits_of demo_world 0)"
proof -
  have "snap_total (snapshot_of demo_world 0) = 8704" by code_simp
  with ledger_within_limits[OF demo_reachable, of 0] show ?thesis by simp
qed

section \<open>Ownership\<close>

text \<open>C3. An assigned pool block has one owner: two live assignment tokens that hold the same block
  are the same token, every block of a live assignment is a backing block in a payload category,
  and every admitted backing block outside \<open>BackingFree\<close> is held by an assignment.\<close>

theorem assigned_blocks_exclusive:
  assumes "ledger_reachable lims w"
  shows "(\<forall>i j b. live (tokens w) i \<and> live (tokens w) j \<and> tk_pooled (tokens w ! i) \<and>
        tk_pooled (tokens w ! j) \<and> holds (tokens w) i b \<and> holds (tokens w) j b \<longrightarrow> i = j) \<and>
    (\<forall>i b. live (tokens w) i \<and> tk_pooled (tokens w ! i) \<and> holds (tokens w) i b \<longrightarrow>
        al_backing (allocs w ! b) \<and> payload_category (al_category (allocs w ! b))) \<and>
    (\<forall>b < length (allocs w). al_admitted (allocs w ! b) \<and> al_backing (allocs w ! b) \<and>
        al_category (allocs w ! b) \<noteq> BackingFree \<longrightarrow>
        (\<exists>i. live (tokens w) i \<and> tk_pooled (tokens w ! i) \<and> holds (tokens w) i b))"
proof -
  have core: "exclusive (tokens w)" "pooled_ok (allocs w) (tokens w)" "allocs_ok (allocs w) (tokens w)"
    using reachable_inv[OF assms] by (simp_all add: ledger_inv_def heap_ok_def heap_core_def)
  then show ?thesis
    using exclusiveD[OF core(1)] pooled_okD(1,2)[OF core(2)] core(3) unfolding allocs_ok_def by meson
qed

theorem assigned_blocks_exclusive_witness:
  "al_category (allocs demo_world ! 1) = BackingAssigned \<and>
   (\<exists>i. live (tokens demo_world) i \<and> tk_pooled (tokens demo_world ! i) \<and> holds (tokens demo_world) i 1)"
proof -
  have "1 < length (allocs demo_world)" "al_admitted (allocs demo_world ! 1)"
    "al_backing (allocs demo_world ! 1)" "al_category (allocs demo_world ! 1) = BackingAssigned"
    by code_simp+
  with assigned_blocks_exclusive[OF demo_reachable] show ?thesis by simp
qed

text \<open>C4. Nothing leaks: once the client holds no handle and no pin any more, every counter of
  every ledger is back to zero.\<close>

theorem ledger_no_leak:
  assumes "ledger_reachable lims w"
    and "\<forall>t \<in> set (tokens w). tk_handles t = 0" and "\<forall>p \<in> set (pins w). pn_handles p = 0"
  shows "snap_total (snapshot_of w l) = 0 \<and> snap_ram (snapshot_of w l) = 0 \<and>
    snap_pinned (snapshot_of w l) = 0 \<and> snap_bytes (snapshot_of w l) c = 0 \<and>
    snap_reserved (snapshot_of w l) c = 0"
proof -
  have inv: "ledger_inv w" by (rule reachable_inv[OF assms(1)])
  then have hs: "handles_ok (tokens w) (pins w)" and ok: "allocs_ok (allocs w) (tokens w)"
    by (simp_all add: ledger_inv_def heap_ok_def heap_core_def)
  have "\<not> live (tokens w) i" for i
    using hs assms(2,3) by (auto simp: live_def handles_ok_def pinned_token_def)
  with ok have "\<forall>a \<in> set (allocs w). \<not> al_admitted a"
    by (auto simp: allocs_ok_def in_set_conv_nth)
  then have "nacct (allocs w) l P = 0" for P
    by (auto simp: nacct_def counted_def)
  with counter_values[OF inv, of l] show ?thesis by (simp add: word_unat_eq_iff)
qed

definition demo_end :: world where
  "demo_end = drop_handle
     (fst (convert (fst (reserve (init_world demo_limits) 0 BackingFree 4096)) (Some 0))) 0"

theorem ledger_no_leak_witness:
  "length (allocs demo_end) = 1 \<and> snap_total (snapshot_of demo_end 0) = 0"
proof -
  have "charge_handle (fst (convert (fst (reserve (init_world demo_limits) 0 BackingFree 4096)) (Some 0))) (Some 0)"
    by code_simp
  then have r: "ledger_reachable demo_limits demo_end"
    unfolding demo_end_def by (intro next_step[OF demo_block_reachable ledger_trans.DropHandle]) simp
  have "\<forall>t \<in> set (tokens demo_end). tk_handles t = 0" "\<forall>p \<in> set (pins demo_end). pn_handles p = 0"
    and l: "length (allocs demo_end) = 1"
    by code_simp+
  from ledger_no_leak[OF r this(1,2), of 0] l show ?thesis by simp
qed



section \<open>Failures\<close>

definition unchanged :: "world \<Rightarrow> world \<Rightarrow> bool" where
  "unchanged w w' \<longleftrightarrow> allocs w' = allocs w \<and> tokens w' = tokens w \<and> pins w' = pins w \<and>
     (\<forall>l. snapshot_of w' l = snapshot_of w l \<and> limits_of w' l = limits_of w l)"

lemma unchanged_refl [simp]: "unchanged w w"
  by (simp add: unchanged_def)

lemma unchanged_fault:
  "fail_step st (ledgers w l) = (s, b) \<Longrightarrow> unchanged w (set_ledger l s w)"
  by (auto simp: unchanged_def snapshot_of_def limits_of_def set_ledger_def dest: fail_step_keeps)

text \<open>C6. A failed reservation, conversion, assignment, pin or limit change leaves every ledger's
  snapshot (peaks included) and limits as they were, and consumes no handle, whatever the error.\<close>

theorem ledger_failures_keep_state:
  "(snd (reserve w l c n) = Inl e \<longrightarrow> unchanged w (fst (reserve w l c n))) \<and>
   (snd (convert w h) = Inl e \<longrightarrow> unchanged w (fst (convert w h))) \<and>
   (snd (reserve_backing w blocks c) = Inl e \<longrightarrow> unchanged w (fst (reserve_backing w blocks c))) \<and>
   (snd (pin_persistence w h) = Inl e \<longrightarrow> unchanged w (fst (pin_persistence w h))) \<and>
   (snd (constrain_limits w l lim) = Inl e \<longrightarrow> unchanged w (fst (constrain_limits w l lim)))"
proof (intro conjI impI)
  assume "snd (reserve w l c n) = Inl e"
  then show "unchanged w (fst (reserve w l c n))"
    by (auto simp: reserve_def Let_def intro: unchanged_fault split: if_splits prod.splits bool.splits)
next
  assume "snd (convert w h) = Inl e"
  then show "unchanged w (fst (convert w h))"
    by (auto simp: convert_def Let_def intro: unchanged_fault split: option.splits prod.splits bool.splits)
next
  assume "snd (reserve_backing w blocks c) = Inl e"
  then show "unchanged w (fst (reserve_backing w blocks c))"
    by (auto simp: reserve_backing_def Let_def intro: unchanged_fault
        split: if_splits option.splits prod.splits bool.splits)
next
  assume "snd (pin_persistence w h) = Inl e"
  then show "unchanged w (fst (pin_persistence w h))"
    by (auto simp: pin_persistence_def Let_def intro: unchanged_fault
        split: if_splits option.splits prod.splits bool.splits)
next
  assume "snd (constrain_limits w l lim) = Inl e"
  then show "unchanged w (fst (constrain_limits w l lim))"
    by (auto simp: constrain_limits_def Let_def split: if_splits)
qed

theorem ledger_failures_keep_state_witness:
  "unchanged (init_world demo_limits) (fst (reserve (init_world demo_limits) 0 TransferStaging 601))"
proof -
  have "snd (reserve (init_world demo_limits) 0 TransferStaging 601) = Inl ResourceExhausted" by code_simp
  with ledger_failures_keep_state show ?thesis by blast
qed

section \<open>The free-run search\<close>

definition block_free :: "world \<Rightarrow> nat option list \<Rightarrow> nat \<Rightarrow> bool" where
  "block_free w blocks i \<longleftrightarrow> al_category (handle_alloc w (blocks ! i)) = BackingFree"

definition free_run :: "world \<Rightarrow> nat option list \<Rightarrow> nat \<Rightarrow> nat \<Rightarrow> bool" where
  "free_run w blocks count s \<longleftrightarrow> s + count \<le> length blocks \<and> (\<forall>k < count. block_free w blocks (s + k))"

text \<open>The loop in the order it visits the blocks: \<open>g i\<close> says whether the \<open>i\<close>-th visited block is
  free. \<open>trailing\<close> is the loop invariant: \<open>run\<close> is the longest free suffix of the visited part,
  and no visited window of \<open>count\<close> blocks is free.\<close>

definition visited_free :: "world \<Rightarrow> nat option list \<Rightarrow> bool \<Rightarrow> nat \<Rightarrow> bool" where
  "visited_free w blocks fe i = block_free w blocks (if fe then length blocks - 1 - i else i)"

definition no_window :: "(nat \<Rightarrow> bool) \<Rightarrow> nat \<Rightarrow> nat \<Rightarrow> bool" where
  "no_window g count i \<longleftrightarrow> (\<forall>s. s + count \<le> i \<longrightarrow> (\<exists>k < count. \<not> g (s + k)))"

definition trailing :: "(nat \<Rightarrow> bool) \<Rightarrow> nat \<Rightarrow> nat \<Rightarrow> nat \<Rightarrow> bool" where
  "trailing g count i run \<longleftrightarrow> run < count \<and> run \<le> i \<and> (\<forall>j. i - run \<le> j \<longrightarrow> j < i \<longrightarrow> g j) \<and>
     (run = i \<or> \<not> g (i - 1 - run)) \<and> no_window g count i"

lemma trailing_busy:
  assumes "trailing g count i run" "\<not> g i"
  shows "trailing g count (i + 1) 0"
proof -
  have "\<exists>k < count. \<not> g (s + k)" if "s + count \<le> i + 1" for s
  proof (cases "s + count \<le> i")
    case False
    with that assms have "s + (count - 1) = i" "count - 1 < count" by (auto simp: trailing_def)
    with assms(2) show ?thesis by metis
  qed (use assms in \<open>auto simp: trailing_def no_window_def\<close>)
  with assms show ?thesis by (auto simp: trailing_def no_window_def)
qed

lemma trailing_free:
  assumes t: "trailing g count i run" and g: "g i" and n: "run + 1 \<noteq> count"
  shows "trailing g count (i + 1) (run + 1)"
proof -
  have "\<exists>k < count. \<not> g (s + k)" if s: "s + count \<le> i + 1" for s
  proof (cases "s + count \<le> i")
    case False
    with s have e: "s + count = i + 1" by simp
    have r: "run + 1 < count" "run \<noteq> i" using t n e by (auto simp: trailing_def)
    have "\<not> g (i - 1 - run)" "run \<le> i" using t r(2) by (auto simp: trailing_def)
    moreover have "s + (i - 1 - run - s) = i - 1 - run" "i - 1 - run - s < count"
      using e r t by (auto simp: trailing_def)
    ultimately show ?thesis by metis
  qed (use t in \<open>auto simp: trailing_def no_window_def\<close>)
  moreover have "g j" if "i + 1 - (run + 1) \<le> j" "j < i + 1" for j
    using that t g by (cases "j = i") (auto simp: trailing_def)
  moreover have "run + 1 = i + 1 \<or> \<not> g (i + 1 - 1 - (run + 1))"
    using t by (auto simp: trailing_def)
  ultimately show ?thesis using t n by (auto simp: trailing_def no_window_def)
qed

definition search_result :: "(nat \<Rightarrow> bool) \<Rightarrow> nat \<Rightarrow> nat \<Rightarrow> bool \<Rightarrow> nat \<Rightarrow> bool" where
  "search_result g n count fe r \<longleftrightarrow>
     (r = n \<and> no_window g count n) \<or>
     (\<exists>e < n. count \<le> e + 1 \<and> (\<forall>k < count. g (e + 1 - count + k)) \<and> no_window g count e \<and>
        r = (if fe then n - 1 - e else e + 1 - count))"

lemma find_free_loop_result:
  assumes "find_free_loop w blocks count fe l i run = Inr r" "i \<le> length blocks"
    and "trailing (visited_free w blocks fe) count i run"
  shows "search_result (visited_free w blocks fe) (length blocks) count fe r"
  using assms
proof (induction w blocks count fe l i run rule: find_free_loop.induct)
  case (1 w blocks count fe l i run)
  let ?g = "visited_free w blocks fe" and ?n = "length blocks"
  let ?idx = "if fe then ?n - 1 - i else i"
  show ?case
  proof (cases "?n \<le> i")
    case True
    with "1.prems" show ?thesis
      by (auto simp: find_free_loop.simps[of w blocks] search_result_def trailing_def)
  next
    case inside: False
    have ok: "pool_handle w (blocks ! ?idx)" "al_ledger (handle_alloc w (blocks ! ?idx)) = l"
      using "1.prems"(1) inside by (auto simp: find_free_loop.simps[of w blocks] Let_def split: if_splits)
    have gi: "?g i \<longleftrightarrow> al_category (handle_alloc w (blocks ! ?idx)) = BackingFree"
      by (simp add: visited_free_def block_free_def)
    let ?run = "if ?g i then run + 1 else 0"
    have step: "find_free_loop w blocks count fe l i run =
        (if ?run = count then Inr (if fe then ?idx else ?idx + 1 - count)
         else find_free_loop w blocks count fe l (i + 1) ?run)"
      using inside ok by (subst find_free_loop.simps) (simp add: Let_def gi)
    have cnt: "0 < count" using "1.prems"(3) by (simp add: trailing_def)
    show ?thesis
    proof (cases "?run = count")
      case True
      with cnt have g: "?g i" and run: "run + 1 = count" by (auto split: if_splits)
      have all: "?g (i + 1 - count + k)" if "k < count" for k
        using "1.prems"(3) g run that by (cases "i + 1 - count + k = i") (auto simp: trailing_def)
      have le: "count \<le> i + 1" and nw: "no_window ?g count i"
        using "1.prems"(3) run by (auto simp: trailing_def)
      have "r = (if fe then ?n - 1 - i else i + 1 - count)"
        using "1.prems"(1) step True by (auto split: if_splits)
      with all le nw inside show ?thesis
        unfolding search_result_def by (intro disjI2 exI[of _ i]) simp
    next
      case more: False
      then have rec: "find_free_loop w blocks count fe l (i + 1) ?run = Inr r"
        using "1.prems"(1) step by simp
      have tr: "trailing ?g count (i + 1) ?run"
        using trailing_busy trailing_free "1.prems"(3) more by (auto split: if_splits)
      show ?thesis
        by (rule "1.IH"[OF inside refl refl _ _ refl]) (use ok rec more inside tr gi in simp_all)
    qed
  qed
qed

lemma free_run_visited:
  "free_run w blocks count s \<longleftrightarrow> s + count \<le> length blocks \<and>
     (\<forall>k < count. visited_free w blocks fe ((if fe then length blocks - count - s else s) + k))"
proof (cases "fe \<and> s + count \<le> length blocks")
  case True
  let ?n = "length blocks"
  have idx: "?n - 1 - (?n - count - s + k) = s + (count - 1 - k)" if "k < count" for k
    using that True by simp
  have "(\<forall>k < count. block_free w blocks (s + k)) \<longleftrightarrow> (\<forall>k < count. block_free w blocks (s + (count - 1 - k)))"
  proof (intro iffI allI impI)
    fix k assume all: "\<forall>k < count. block_free w blocks (s + (count - 1 - k))" and k: "k < count"
    from all[rule_format, of "count - 1 - k"] k show "block_free w blocks (s + k)" by simp
  next
    fix k assume all: "\<forall>k < count. block_free w blocks (s + k)" and k: "k < count"
    from k have "count - 1 - k < count" by simp
    with all show "block_free w blocks (s + (count - 1 - k))" by blast
  qed
  with True idx show ?thesis by (simp add: free_run_def visited_free_def)
qed (auto simp: free_run_def visited_free_def)

text \<open>\<open>FindFreeBacking\<close> is exact: it returns the number of blocks when no run of the wanted
  length is free, and otherwise the first block of a free run, the lowest one when it scans from
  the front and the highest one when it scans from the end.\<close>

theorem find_free_backing_correct:
  assumes "find_free_backing w blocks count from_end = Inr r"
  shows "(r = length blocks \<and> (\<nexists>s. free_run w blocks count s)) \<or>
    (free_run w blocks count r \<and>
      (\<forall>s. free_run w blocks count s \<longrightarrow> (if from_end then s \<le> r else r \<le> s)))"
proof (cases "blocks = []")
  case True
  with assms show ?thesis by (auto simp: find_free_backing_def free_run_def split: if_splits)
next
  case False
  let ?g = "visited_free w blocks from_end" and ?n = "length blocks"
  let ?at = "\<lambda>s. if from_end then ?n - count - s else s"
  obtain l where loop: "find_free_loop w blocks count from_end l 0 0 = Inr r" and cnt: "0 < count"
    using assms False by (auto simp: find_free_backing_def Let_def split: if_splits)
  have "trailing ?g count 0 0" using cnt by (auto simp: trailing_def no_window_def)
  then have "search_result ?g ?n count from_end r"
    by (rule find_free_loop_result[OF loop le0])
  then consider "r = ?n" "no_window ?g count ?n"
    | e where "e < ?n" "count \<le> e + 1" "\<forall>k < count. ?g (e + 1 - count + k)" "no_window ?g count e"
      "r = (if from_end then ?n - 1 - e else e + 1 - count)"
    unfolding search_result_def by blast
  then show ?thesis
  proof cases
    case 1
    have "\<not> free_run w blocks count s" for s
    proof
      assume "free_run w blocks count s"
      then have "?at s + count \<le> ?n" "\<forall>k < count. ?g (?at s + k)"
        unfolding free_run_visited[of w blocks count s from_end] by auto
      with 1(2) show False unfolding no_window_def by blast
    qed
    with 1(1) show ?thesis by blast
  next
    case 2
    have "?at r = e + 1 - count" "r + count \<le> ?n" using 2(1,2,5) by auto
    with 2(3) have "free_run w blocks count r"
      unfolding free_run_visited[of w blocks count r from_end] by simp
    moreover have "if from_end then s \<le> r else r \<le> s" if "free_run w blocks count s" for s
    proof (rule ccontr)
      have s: "s + count \<le> ?n" "\<forall>k < count. ?g (?at s + k)"
        using that unfolding free_run_visited[of w blocks count s from_end] by auto
      assume "\<not> (if from_end then s \<le> r else r \<le> s)"
      with 2(1,2,5) s(1) have "?at s + count \<le> e" by (auto split: if_splits)
      with 2(4) s(2) show False unfolding no_window_def by blast
    qed
    ultimately show ?thesis by blast
  qed
qed

theorem find_free_backing_correct_witness:
  "free_run demo_pool [Some 0, Some 1] 2 0"
proof -
  have "find_free_backing demo_pool [Some 0, Some 1] 2 True = Inr 0"
    by (simp add: find_free_backing_def) code_simp
  from find_free_backing_correct[OF this] show ?thesis by auto
qed

end
