(* ===== verification/Tp_Wire.thy ===== *)
theory Tp_Wire
  imports Gufo_Prelude "HOL-Library.Monad_Syntax"
begin

unbundle bit_operations_syntax

text \<open>
  The byte encoding of the control channel between the two tensor-parallel ranks
  (\<open>src/cli/serve/tp_control.cpp\<close>): little-endian integers and length-prefixed strings. The
  source reads at an offset that only advances; \<open>read_u32_at\<close>, \<open>read_u64_at\<close> and
  \<open>read_string_at\<close> are those readers. The decoders of the later theories use the same readers on
  the unread bytes, \<open>drop offset data\<close>; the \<open>_at\<close> lemmas show that they agree. A failed read is
  \<open>None\<close>: its message is always replaced by the caller's.
\<close>

section \<open>Writers\<close>

definition u32_bytes :: "u32 \<Rightarrow> u8 list" where
  "u32_bytes v = map (\<lambda>i. ucast (drop_bit (8 * i) v)) [0, 1, 2, 3]"

definition u64_bytes :: "u64 \<Rightarrow> u8 list" where
  "u64_bytes v = map (\<lambda>i. ucast (drop_bit (8 * i) v)) [0, 1, 2, 3, 4, 5, 6, 7]"

definition append_u32 :: "u8 list \<Rightarrow> u32 \<Rightarrow> u8 list" where
  "append_u32 out v = out @ u32_bytes v"

definition append_u64 :: "u8 list \<Rightarrow> u64 \<Rightarrow> u8 list" where
  "append_u64 out v = out @ u64_bytes v"

definition u32_size :: "nat \<Rightarrow> u32" where
  "u32_size n = word_of_nat n"

definition append_string :: "u8 list \<Rightarrow> string \<Rightarrow> u8 list" where
  "append_string out s = append_u32 out (u32_size (length s)) @ bytes_of_string s"

definition string_field :: "string \<Rightarrow> u8 list" where
  "string_field s = append_string [] s"

section \<open>Readers at an offset\<close>

definition le32 :: "u8 list \<Rightarrow> u32" where
  "le32 bs = foldr (\<lambda>b acc. ucast b OR push_bit 8 acc) bs 0"

definition le64 :: "u8 list \<Rightarrow> u64" where
  "le64 bs = foldr (\<lambda>b acc. ucast b OR push_bit 8 acc) bs 0"

text \<open>The loop of \<open>ReadU32\<close> or-s each byte in at its shift; \<open>le32\<close> is its value.\<close>

definition read_u32_at :: "u8 list \<Rightarrow> nat \<Rightarrow> (u32 \<times> nat) option" where
  "read_u32_at data offset =
     (if offset > length data \<or> length data - offset < 4 then None
      else Some (foldl (\<lambda>result i. result OR push_bit (8 * i) (ucast (data ! (offset + i)))) 0 [0, 1, 2, 3],
                 offset + 4))"

definition read_u64_at :: "u8 list \<Rightarrow> nat \<Rightarrow> (u64 \<times> nat) option" where
  "read_u64_at data offset =
     (if offset > length data \<or> length data - offset < 8 then None
      else Some (foldl (\<lambda>result i. result OR push_bit (8 * i) (ucast (data ! (offset + i)))) 0
                   [0, 1, 2, 3, 4, 5, 6, 7],
                 offset + 8))"

definition read_string_at :: "u8 list \<Rightarrow> nat \<Rightarrow> (string \<times> nat) option" where
  "read_string_at data offset = do {
     (size, offset) \<leftarrow> read_u32_at data offset;
     if length data - offset < unat size then None
     else Some (string_of_bytes (take (unat size) (drop offset data)), offset + unat size)
   }"

section \<open>Readers of the unread bytes\<close>

definition read_u32 :: "u8 list \<Rightarrow> (u32 \<times> u8 list) option" where
  "read_u32 d = (if length d < 4 then None else Some (le32 (take 4 d), drop 4 d))"

definition read_u64 :: "u8 list \<Rightarrow> (u64 \<times> u8 list) option" where
  "read_u64 d = (if length d < 8 then None else Some (le64 (take 8 d), drop 8 d))"

definition read_string :: "u8 list \<Rightarrow> (string \<times> u8 list) option" where
  "read_string d = do {
     (size, d) \<leftarrow> read_u32 d;
     if length d < unat size then None
     else Some (string_of_bytes (take (unat size) d), drop (unat size) d)
   }"

text \<open>A loop over the elements of a resized vector.\<close>

fun read_many :: "(u8 list \<Rightarrow> ('a \<times> u8 list) option) \<Rightarrow> nat \<Rightarrow> u8 list \<Rightarrow> ('a list \<times> u8 list) option" where
  "read_many rd 0 d = Some ([], d)"
| "read_many rd (Suc n) d = do {
     (x, d) \<leftarrow> rd d;
     (xs, d) \<leftarrow> read_many rd n d;
     Some (x # xs, d)
   }"

section \<open>The readers agree\<close>

lemma le32_four:
  "le32 [a, b, c, e] = ucast a OR push_bit 8 (ucast b) OR push_bit 16 (ucast c) OR push_bit 24 (ucast e)"
  by (simp add: le32_def push_bit_or ac_simps)

lemma le64_eight:
  "le64 [a, b, c, d, e, f, g, h] = ucast a OR push_bit 8 (ucast b) OR push_bit 16 (ucast c) OR
     push_bit 24 (ucast d) OR push_bit 32 (ucast e) OR push_bit 40 (ucast f) OR push_bit 48 (ucast g) OR
     push_bit 56 (ucast h)"
  by (simp add: le64_def push_bit_or ac_simps)

lemma take_nth: "n \<le> length xs \<Longrightarrow> take n xs = map (\<lambda>i. xs ! i) [0..<n]"
  by (rule nth_equalityI) auto

lemma upt_four: "[0..<4] = [0, 1, 2, 3::nat]" and upt_eight: "[0..<8] = [0, 1, 2, 3, 4, 5, 6, 7::nat]"
  by (simp_all add: upt_rec)

lemma read_u32_at_suffix:
  assumes "offset \<le> length data"
  shows "read_u32_at data offset =
    map_option (\<lambda>(v, rest). (v, length data - length rest)) (read_u32 (drop offset data))"
  using assms
  by (auto simp: read_u32_at_def read_u32_def take_nth upt_four le32_four or.assoc)

lemma read_u64_at_suffix:
  assumes "offset \<le> length data"
  shows "read_u64_at data offset =
    map_option (\<lambda>(v, rest). (v, length data - length rest)) (read_u64 (drop offset data))"
  using assms
  by (auto simp: read_u64_at_def read_u64_def take_nth upt_eight le64_eight or.assoc)

lemma read_u32_rest: "read_u32 d = Some (v, rest) \<Longrightarrow> length d = length rest + 4 \<and> rest = drop 4 d"
  by (auto simp: read_u32_def split: if_splits)

lemma read_string_at_suffix:
  assumes "offset \<le> length data"
  shows "read_string_at data offset =
    map_option (\<lambda>(v, rest). (v, length data - length rest)) (read_string (drop offset data))"
proof (cases "read_u32 (drop offset data)")
  case None
  then show ?thesis by (simp add: read_string_at_def read_string_def read_u32_at_suffix assms)
next
  case (Some a)
  obtain size rest where a: "read_u32 (drop offset data) = Some (size, rest)" using Some by (cases a) auto
  from read_u32_rest[OF a] have r: "rest = drop (offset + 4) data" "offset + 4 \<le> length data"
    using assms by (auto simp: add.commute)
  then show ?thesis
    using a by (auto simp: read_string_at_def read_string_def read_u32_at_suffix assms add.commute add.left_commute)
qed

section \<open>Round trips\<close>

lemma length_u32_bytes [wire_length, simp]: "length (u32_bytes v) = 4"
  by (simp add: u32_bytes_def)

lemma length_u64_bytes [wire_length, simp]: "length (u64_bytes v) = 8"
  by (simp add: u64_bytes_def)

lemma split_byte:
  fixes w :: "'a::len word"
  assumes "8 \<le> LENGTH('a)"
  shows "ucast (ucast w :: u8) OR push_bit 8 (drop_bit 8 w) = w"
proof (rule bit_word_eqI)
  fix n assume "n < LENGTH('a)"
  then show "bit (ucast (ucast w :: u8) OR push_bit 8 (drop_bit 8 w)) n = bit w n"
    using assms by (cases "n < 8") (auto simp: bit_simps not_less)
qed

lemma byte_step:
  fixes w :: "'a::len word"
  assumes "8 \<le> LENGTH('a)"
  shows "ucast (ucast (drop_bit k w) :: u8) OR push_bit 8 (drop_bit (8 + k) w) = drop_bit k w"
  using split_byte[OF assms, of "drop_bit k w"] by simp

lemma le32_u32_bytes: "le32 (u32_bytes v) = v"
proof -
  have "drop_bit 32 v = 0" by (rule bit_word_eqI) (simp add: bit_simps)
  then show ?thesis
    using byte_step[of 24 v] byte_step[of 16 v] byte_step[of 8 v] byte_step[of 0 v]
    by (simp add: u32_bytes_def le32_def)
qed

lemma le64_u64_bytes: "le64 (u64_bytes v) = v"
proof -
  have "drop_bit 64 v = 0" by (rule bit_word_eqI) (simp add: bit_simps)
  then show ?thesis
    using byte_step[of 56 v] byte_step[of 48 v] byte_step[of 40 v] byte_step[of 32 v]
      byte_step[of 24 v] byte_step[of 16 v] byte_step[of 8 v] byte_step[of 0 v]
    by (simp add: u64_bytes_def le64_def)
qed

text \<open>A codec: what was encoded is decoded, and the bytes after it are left unread.\<close>

locale codec =
  fixes enc :: "'a \<Rightarrow> u8 list"
    and dec :: "u8 list \<Rightarrow> ('a \<times> u8 list) option"
    and ok :: "'a \<Rightarrow> bool"
  assumes dec_enc: "ok v \<Longrightarrow> dec (enc v @ rest) = Some (v, rest)"
begin

lemma dec_many:
  "\<forall>v\<in>set vs. ok v \<Longrightarrow> read_many dec (length vs) (concat (map enc vs) @ rest) = Some (vs, rest)"
  by (induction vs) (simp_all add: dec_enc)

lemma enc_prefix_free: "ok v \<Longrightarrow> ok w \<Longrightarrow> enc v @ r = enc w @ s \<Longrightarrow> v = w \<and> r = s"
  by (metis dec_enc option.inject prod.inject)

end

text \<open>A canonical codec: every input it accepts is the encoding of what it returns, so no value
  has two encodings.\<close>

locale canonical_codec = codec +
  assumes enc_dec: "dec d = Some (v, rest) \<Longrightarrow> d = enc v @ rest \<and> ok v"
begin

lemma many_enc:
  "read_many dec n d = Some (vs, rest) \<Longrightarrow>
     d = concat (map enc vs) @ rest \<and> length vs = n \<and> (\<forall>v\<in>set vs. ok v)"
proof (induction n arbitrary: d vs rest)
  case (Suc n)
  from Suc.prems obtain x d' xs where x: "dec d = Some (x, d')"
    and xs: "read_many dec n d' = Some (xs, rest)" and vs: "vs = x # xs"
    by (auto simp: bind_eq_Some_conv)
  from enc_dec[OF x] Suc.IH[OF xs] vs show ?case by simp
qed simp

lemma one_encoding: "dec d = Some (v, rest) \<Longrightarrow> dec d' = Some (v, rest) \<Longrightarrow> d = d'"
  using enc_dec by metis

end

lemma list_of_four: "length xs = 4 \<Longrightarrow> \<exists>a b c d. xs = [a, b, c, d]"
  by (auto simp: numeral_eq_Suc length_Suc_conv)

lemma list_of_eight: "length xs = 8 \<Longrightarrow> \<exists>a b c d e f g h. xs = [a, b, c, d, e, f, g, h]"
  by (auto simp: numeral_eq_Suc length_Suc_conv)

lemma bit_u8: "8 \<le> n \<Longrightarrow> \<not> bit (a :: u8) n"
  using bit_imp_le_length[of a n] by auto

lemma bytes_of_le32:
  "(ucast (ucast a OR push_bit 8 (ucast b) OR push_bit 16 (ucast c) OR push_bit 24 (ucast d) :: u32) :: u8) = a"
  "(ucast (drop_bit 8 (ucast a OR push_bit 8 (ucast b) OR push_bit 16 (ucast c) OR push_bit 24 (ucast d) :: u32)) :: u8) = b"
  "(ucast (drop_bit 16 (ucast a OR push_bit 8 (ucast b) OR push_bit 16 (ucast c) OR push_bit 24 (ucast d) :: u32)) :: u8) = c"
  "(ucast (drop_bit 24 (ucast a OR push_bit 8 (ucast b) OR push_bit 16 (ucast c) OR push_bit 24 (ucast d) :: u32)) :: u8) = d"
  by (rule bit_word_eqI; auto simp: bit_simps bit_u8)+

lemma bytes_of_le64:
  "(ucast (ucast a OR push_bit 8 (ucast b) OR push_bit 16 (ucast c) OR push_bit 24 (ucast d) OR push_bit 32 (ucast e) OR push_bit 40 (ucast f) OR push_bit 48 (ucast g) OR push_bit 56 (ucast h) :: u64) :: u8) = a"
  "(ucast (drop_bit 8 (ucast a OR push_bit 8 (ucast b) OR push_bit 16 (ucast c) OR push_bit 24 (ucast d) OR push_bit 32 (ucast e) OR push_bit 40 (ucast f) OR push_bit 48 (ucast g) OR push_bit 56 (ucast h) :: u64)) :: u8) = b"
  "(ucast (drop_bit 16 (ucast a OR push_bit 8 (ucast b) OR push_bit 16 (ucast c) OR push_bit 24 (ucast d) OR push_bit 32 (ucast e) OR push_bit 40 (ucast f) OR push_bit 48 (ucast g) OR push_bit 56 (ucast h) :: u64)) :: u8) = c"
  "(ucast (drop_bit 24 (ucast a OR push_bit 8 (ucast b) OR push_bit 16 (ucast c) OR push_bit 24 (ucast d) OR push_bit 32 (ucast e) OR push_bit 40 (ucast f) OR push_bit 48 (ucast g) OR push_bit 56 (ucast h) :: u64)) :: u8) = d"
  "(ucast (drop_bit 32 (ucast a OR push_bit 8 (ucast b) OR push_bit 16 (ucast c) OR push_bit 24 (ucast d) OR push_bit 32 (ucast e) OR push_bit 40 (ucast f) OR push_bit 48 (ucast g) OR push_bit 56 (ucast h) :: u64)) :: u8) = e"
  "(ucast (drop_bit 40 (ucast a OR push_bit 8 (ucast b) OR push_bit 16 (ucast c) OR push_bit 24 (ucast d) OR push_bit 32 (ucast e) OR push_bit 40 (ucast f) OR push_bit 48 (ucast g) OR push_bit 56 (ucast h) :: u64)) :: u8) = f"
  "(ucast (drop_bit 48 (ucast a OR push_bit 8 (ucast b) OR push_bit 16 (ucast c) OR push_bit 24 (ucast d) OR push_bit 32 (ucast e) OR push_bit 40 (ucast f) OR push_bit 48 (ucast g) OR push_bit 56 (ucast h) :: u64)) :: u8) = g"
  "(ucast (drop_bit 56 (ucast a OR push_bit 8 (ucast b) OR push_bit 16 (ucast c) OR push_bit 24 (ucast d) OR push_bit 32 (ucast e) OR push_bit 40 (ucast f) OR push_bit 48 (ucast g) OR push_bit 56 (ucast h) :: u64)) :: u8) = h"
  by (rule bit_word_eqI; auto simp: bit_simps bit_u8)+

lemma u32_bytes_le32: "length bs = 4 \<Longrightarrow> u32_bytes (le32 bs) = bs"
  by (drule list_of_four) (auto simp: u32_bytes_def le32_four bytes_of_le32 simp del: drop_bit_or)

lemma u64_bytes_le64: "length bs = 8 \<Longrightarrow> u64_bytes (le64 bs) = bs"
  by (drule list_of_eight) (auto simp: u64_bytes_def le64_eight bytes_of_le64 simp del: drop_bit_or)

interpretation u32c: canonical_codec u32_bytes read_u32 "\<lambda>_. True"
  by unfold_locales (auto simp: read_u32_def le32_u32_bytes u32_bytes_le32 split: if_splits)

interpretation u64c: canonical_codec u64_bytes read_u64 "\<lambda>_. True"
  by unfold_locales (auto simp: read_u64_def le64_u64_bytes u64_bytes_le64 split: if_splits)

definition fits32 :: "nat \<Rightarrow> bool" where
  "fits32 n \<longleftrightarrow> n < 2 ^ 32"

lemma unat_u32_size: "fits32 n \<Longrightarrow> unat (u32_size n) = n"
  by (simp add: fits32_def u32_size_def unat_of_nat)

lemma u32_size_unat [simp]: "u32_size (unat v) = v"
  by (simp add: u32_size_def)

lemma bytes_of_string_of_bytes [simp]: "bytes_of_string (string_of_bytes bs) = bs"
  by (induction bs) (simp_all add: bytes_of_string_def string_of_bytes_def)

lemma length_string_of_bytes [simp]: "length (string_of_bytes bs) = length bs"
  by (simp add: string_of_bytes_def)

lemma fits32_unat [simp]: "fits32 (unat (v :: u32))"
  using unsigned_less[of v] by (simp add: fits32_def)

interpretation strc: canonical_codec string_field read_string "\<lambda>s. fits32 (length s)"
proof (unfold_locales, goal_cases)
  case (1 v rest)
  then show ?case
    by (simp add: string_field_def append_string_def append_u32_def read_string_def u32c.dec_enc unat_u32_size)
next
  case (2 d v rest)
  then obtain size d' where r: "read_u32 d = Some (size, d')" and l: "unat size \<le> length d'"
    and v: "v = string_of_bytes (take (unat size) d')" "rest = drop (unat size) d'"
    by (auto simp: read_string_def bind_eq_Some_conv split: if_splits)
  from l have "length v = unat size" by (simp add: v)
  with u32c.enc_dec[OF r] l v show ?case
    by (simp add: string_field_def append_string_def append_u32_def)
qed

lemmas [wire_simps] = u32c.dec_enc[OF TrueI] u64c.dec_enc[OF TrueI] strc.dec_enc

lemma append_fields [wire_simps]:
  "append_u32 out v = out @ u32_bytes v" "append_u64 out x = out @ u64_bytes x"
  "append_string out s = out @ string_field s"
  by (simp_all add: append_u32_def append_u64_def append_string_def string_field_def)

lemma length_string_field [wire_length]: "length (string_field s) = 4 + length s"
  by (simp add: string_field_def append_string_def append_u32_def)

end
