(* ===== verification/Sampling_Config.thy ===== *)
theory Sampling_Config
  imports Gufo_Prelude
begin

text \<open>
  \<open>sampling::SamplingConfig\<close> (\<open>src/core/sampling.hpp\<close>, \<open>src/core/sampling.cpp\<close>): the controls of
  a request and their validation. A \<open>float\<close> is its IEEE-754 bit pattern, with the comparisons
  the code uses decided on the pattern; a signed integer is its two's complement word.
\<close>

type_synonym f32 = "32 word"
type_synonym i32 = "32 word"
type_synonym i64 = "64 word"

section \<open>Binary32 comparisons\<close>

definition f32_exponent :: "f32 \<Rightarrow> nat" where
  "f32_exponent w = unat w div 2 ^ 23 mod 2 ^ 8"

definition f32_mantissa :: "f32 \<Rightarrow> nat" where
  "f32_mantissa w = unat w mod 2 ^ 23"

definition f32_negative :: "f32 \<Rightarrow> bool" where
  "f32_negative w \<longleftrightarrow> 2 ^ 31 \<le> unat w"

definition f32_finite :: "f32 \<Rightarrow> bool" where
  "f32_finite w \<longleftrightarrow> f32_exponent w \<noteq> 255"

definition f32_nan :: "f32 \<Rightarrow> bool" where
  "f32_nan w \<longleftrightarrow> f32_exponent w = 255 \<and> f32_mantissa w \<noteq> 0"

text \<open>Among numbers the order of the values is the order of the signed magnitudes.\<close>

definition f32_key :: "f32 \<Rightarrow> int" where
  "f32_key w = (if f32_negative w then - int (unat w mod 2 ^ 31) else int (unat w mod 2 ^ 31))"

definition f32_eq :: "f32 \<Rightarrow> f32 \<Rightarrow> bool" where
  "f32_eq a b \<longleftrightarrow> \<not> f32_nan a \<and> \<not> f32_nan b \<and> f32_key a = f32_key b"

definition f32_less :: "f32 \<Rightarrow> f32 \<Rightarrow> bool" where
  "f32_less a b \<longleftrightarrow> \<not> f32_nan a \<and> \<not> f32_nan b \<and> f32_key a < f32_key b"

definition f32_le :: "f32 \<Rightarrow> f32 \<Rightarrow> bool" where
  "f32_le a b \<longleftrightarrow> f32_less a b \<or> f32_eq a b"

definition f32_zero :: f32 where "f32_zero = 0"
definition f32_one :: f32 where "f32_one = 0x3F800000"

section \<open>The configuration\<close>

text \<open>What validation reads of a \<open>TokenConstraint\<close>: whether its grammar is there, and the size of
  its vocabulary if that is.\<close>

record token_constraint =
  tc_grammar :: bool
  tc_vocabulary :: "nat option"

record reasoning_budget =
  rb_tokens :: u64
  rb_forced :: "u32 list"
  rb_ends :: "u32 list"
  rb_prompt :: "u32 list"
  rb_partial_utf8 :: "bool list option"

record sampling_config =
  sc_logprobs :: "u32 option"
  sc_temperature :: f32
  sc_top_k :: i32
  sc_top_p :: f32
  sc_min_p :: f32
  sc_min_keep :: u64
  sc_seed :: i64
  sc_repeat_penalty :: f32
  sc_repeat_last_n :: u64
  sc_frequency_penalty :: f32
  sc_presence_penalty :: f32
  sc_constraint :: "token_constraint option"
  sc_reasoning_budget :: "reasoning_budget option"

definition default_sampling :: sampling_config where
  "default_sampling =
     \<lparr>sc_logprobs = None, sc_temperature = f32_zero, sc_top_k = 0, sc_top_p = f32_one,
      sc_min_p = f32_zero, sc_min_keep = 0, sc_seed = -1, sc_repeat_penalty = f32_one,
      sc_repeat_last_n = 64, sc_frequency_penalty = f32_zero, sc_presence_penalty = f32_zero,
      sc_constraint = None, sc_reasoning_budget = None\<rparr>"

text \<open>\<open>SamplingConfig::Validate\<close>: the message of the first failing check.\<close>

definition validate_sampling :: "sampling_config \<Rightarrow> string option" where
  "validate_sampling c =
     (if (case sc_logprobs c of None \<Rightarrow> False | Some n \<Rightarrow> n > 20)
      then Some ''logprobs must be between 0 and 20''
      else if (case sc_constraint c of None \<Rightarrow> False
               | Some k \<Rightarrow> \<not> tc_grammar k \<or> tc_vocabulary k = None \<or> tc_vocabulary k = Some 0)
      then Some ''sampling constraint is incomplete''
      else if (case sc_reasoning_budget c of None \<Rightarrow> False | Some b \<Rightarrow> rb_forced b = [])
      then Some ''reasoning budget has no forced end''
      else if \<not> f32_finite (sc_temperature c) \<or> f32_less (sc_temperature c) f32_zero
      then Some ''sampling temperature must be finite and nonnegative''
      else if sint (sc_top_k c) < 0
      then Some ''sampling top-k must be nonnegative''
      else if \<not> f32_finite (sc_top_p c) \<or> f32_less (sc_top_p c) f32_zero \<or> f32_less f32_one (sc_top_p c)
      then Some ''sampling top-p must be in [0, 1]''
      else if \<not> f32_finite (sc_min_p c) \<or> f32_less (sc_min_p c) f32_zero \<or> f32_less f32_one (sc_min_p c)
      then Some ''sampling min-p must be in [0, 1]''
      else if sint (sc_seed c) < -1
      then Some ''sampling seed must be -1 or nonnegative''
      else if \<not> f32_finite (sc_repeat_penalty c) \<or> f32_le (sc_repeat_penalty c) f32_zero
      then Some ''sampling repeat penalty must be finite and positive''
      else if \<not> f32_finite (sc_frequency_penalty c)
      then Some ''sampling frequency penalty must be finite''
      else if \<not> f32_finite (sc_presence_penalty c)
      then Some ''sampling presence penalty must be finite''
      else None)"

definition penalties_enabled :: "sampling_config \<Rightarrow> bool" where
  "penalties_enabled c \<longleftrightarrow> \<not> f32_eq (sc_repeat_penalty c) f32_one \<or>
     \<not> f32_eq (sc_frequency_penalty c) f32_zero \<or> \<not> f32_eq (sc_presence_penalty c) f32_zero"

definition uses_random_sampling :: "sampling_config \<Rightarrow> bool" where
  "uses_random_sampling c \<longleftrightarrow>
     f32_less f32_zero (sc_temperature c) \<and> (sc_top_k c \<noteq> 1 \<or> sc_min_keep c > 1)"

definition can_use_unmodified_argmax :: "sampling_config \<Rightarrow> bool" where
  "can_use_unmodified_argmax c \<longleftrightarrow> sc_constraint c = None \<and> sc_reasoning_budget c = None \<and>
     f32_eq (sc_temperature c) f32_zero \<and> \<not> penalties_enabled c"

section \<open>Facts\<close>

lemma f32_finite_not_nan: "f32_finite w \<Longrightarrow> \<not> f32_nan w"
  by (simp add: f32_finite_def f32_nan_def)

lemma f32_key_zero_one [simp]: "f32_key f32_zero = 0" "f32_key f32_one = 0x3F800000"
  by (simp_all add: f32_key_def f32_zero_def f32_one_def f32_negative_def)

lemma f32_constants_not_nan [simp]: "\<not> f32_nan f32_zero" "\<not> f32_nan f32_one"
  by (simp_all add: f32_nan_def f32_zero_def f32_one_def f32_exponent_def f32_mantissa_def)

lemma default_sampling_valid: "validate_sampling default_sampling = None"
  by (simp add: validate_sampling_def default_sampling_def f32_finite_def f32_exponent_def
      f32_zero_def f32_one_def f32_less_def f32_le_def f32_eq_def f32_key_def f32_negative_def f32_nan_def
      f32_mantissa_def)

text \<open>Validation does not depend on what the wire drops.\<close>

lemma validate_sampling_drop:
  "validate_sampling c = None \<Longrightarrow>
   validate_sampling (c\<lparr>sc_constraint := None, sc_reasoning_budget := None\<rparr>) = None"
  by (simp add: validate_sampling_def split: if_splits)

lemma validate_sampling_logprobs: "validate_sampling c = None \<Longrightarrow> sc_logprobs c = Some n \<Longrightarrow> n \<le> 20"
  by (auto simp: validate_sampling_def split: if_splits)

end
