(* ===== verification/Tp_Types.thy ===== *)
theory Tp_Types
  imports Tp_Wire Sampling_Config
begin

text \<open>
  The messages of the control channel (\<open>src/cli/serve/tp_control.hpp\<close>), field by field. A
  \<open>std::int32_t\<close> is its 32-bit word, read with \<open>sint\<close>. The two kind enums are stored in a
  \<open>std::uint8_t\<close> and the validators reject a value that no enumerator names; \<open>KOther\<close> and
  \<open>ROther\<close> stand for those values.
\<close>

section \<open>Limits\<close>

definition k_magic :: u32 where "k_magic = 0x54504331"
definition k_version :: u16 where "k_version = 22"
definition k_hello :: u16 where "k_hello = 1"
definition k_command :: u16 where "k_command = 2"
definition k_response :: u16 where "k_response = 3"
definition k_auth :: u16 where "k_auth = 4"
definition k_nonce_bytes :: nat where "k_nonce_bytes = 32"
definition k_mac_bytes :: nat where "k_mac_bytes = 32"
definition k_max_payload_bytes :: nat where "k_max_payload_bytes = 2 ^ 30"
definition k_max_hello_bytes :: nat where "k_max_hello_bytes = 64 * 2 ^ 10"
definition k_max_prompt_context_bytes :: nat where
  "k_max_prompt_context_bytes = k_max_payload_bytes - 64 * 2 ^ 20"
definition k_max_prompt_tokens :: nat where "k_max_prompt_tokens = 2 ^ 20"
definition k_max_batch_members :: nat where "k_max_batch_members = 8"
definition k_max_client_id_bytes :: nat where "k_max_client_id_bytes = 4096"
definition k_max_error_bytes :: nat where "k_max_error_bytes = 2 ^ 20"
definition k_max_auth_token_bytes :: nat where "k_max_auth_token_bytes = 4096"

lemmas k_defs = k_magic_def k_version_def k_hello_def k_command_def k_response_def k_auth_def
  k_nonce_bytes_def k_mac_bytes_def k_max_payload_bytes_def k_max_hello_bytes_def
  k_max_prompt_context_bytes_def k_max_prompt_tokens_def k_max_batch_members_def
  k_max_client_id_bytes_def k_max_error_bytes_def k_max_auth_token_bytes_def

section \<open>Configuration\<close>

record tp_config =
  cfg_snapshot_budget :: u64
  cfg_rank :: u32
  cfg_world_size :: u32
  cfg_max_context :: u32
  cfg_max_draft_tokens :: u32
  cfg_use_mtp :: bool
  cfg_auth_token :: string
  cfg_prefill_chunk :: u32
  cfg_sessions :: u32
  cfg_vision :: bool
  cfg_disk_cache :: bool
  cfg_yarn :: bool

section \<open>Instructions\<close>

datatype instruction_op =
    OpNone | OpInvalidate | OpPrefill | OpAdvance | OpDecode | OpEnd | OpSnapshot | OpDrop
  | OpRestore | OpReuse | OpCancelPrepare | OpAdvanceBatch | OpPromptContext | OpPersist
  | OpRestoreDisk | OpDecodeBatch

fun op_code :: "instruction_op \<Rightarrow> u32" where
  "op_code OpNone = 0"
| "op_code OpInvalidate = 1"
| "op_code OpPrefill = 2"
| "op_code OpAdvance = 3"
| "op_code OpDecode = 4"
| "op_code OpEnd = 5"
| "op_code OpSnapshot = 6"
| "op_code OpDrop = 7"
| "op_code OpRestore = 8"
| "op_code OpReuse = 9"
| "op_code OpCancelPrepare = 10"
| "op_code OpAdvanceBatch = 11"
| "op_code OpPromptContext = 12"
| "op_code OpPersist = 13"
| "op_code OpRestoreDisk = 14"
| "op_code OpDecodeBatch = 15"

definition all_ops :: "instruction_op list" where
  "all_ops = [OpNone, OpInvalidate, OpPrefill, OpAdvance, OpDecode, OpEnd, OpSnapshot, OpDrop,
     OpRestore, OpReuse, OpCancelPrepare, OpAdvanceBatch, OpPromptContext, OpPersist,
     OpRestoreDisk, OpDecodeBatch]"

text \<open>\<open>static_cast<TpInstructionOp>\<close> of a code that was checked to be at most \<open>kDecodeBatch\<close>.\<close>

definition op_of_code :: "u32 \<Rightarrow> instruction_op option" where
  "op_of_code c = (if c > op_code OpDecodeBatch then None else Some (all_ops ! unat c))"

record tp_member =
  mb_sequence :: u64
  mb_state :: u32
  mb_token :: i32
  mb_count :: u32
  mb_rng :: u64
  mb_pending :: i32
  mb_drafts :: u32

record tp_instruction =
  ti_op :: instruction_op
  ti_index :: u64
  ti_state :: u32
  ti_token :: i32
  ti_offset :: u32
  ti_count :: u32
  ti_prompt_size :: u32
  ti_digest :: u64
  ti_rng :: u64
  ti_pending :: i32
  ti_snapshot_id :: u64
  ti_batch :: "tp_member list"
  ti_file_key :: u64
  ti_batch_drafts :: u32
  ti_drafts :: u32
  ti_lookahead :: u32

definition default_instruction :: tp_instruction where
  "default_instruction =
     \<lparr>ti_op = OpNone, ti_index = 0, ti_state = 0, ti_token = 0, ti_offset = 0, ti_count = 0,
      ti_prompt_size = 0, ti_digest = 0, ti_rng = 0, ti_pending = -1, ti_snapshot_id = 0,
      ti_batch = [], ti_file_key = 0, ti_batch_drafts = 0, ti_drafts = 0, ti_lookahead = 0\<rparr>"

section \<open>Commands\<close>

datatype command_kind = KSingle | KInstruction | KOther u8

fun kind_code :: "command_kind \<Rightarrow> u32" where
  "kind_code KSingle = 1"
| "kind_code KInstruction = 2"
| "kind_code (KOther b) = ucast b"

record tp_tool =
  tool_name :: string
  tool_description :: string
  tool_parameters :: string
  tool_definition :: string

record tp_source =
  src_response_format :: string
  src_responses_form :: bool
  src_tools :: "tp_tool list"
  src_tool_choice :: u8
  src_parallel :: bool
  src_reasoning :: bool

record tp_command =
  tc_sequence :: u64
  tc_max_tokens :: u32
  tc_cache_prompt :: bool
  tc_cache_prefix :: u32
  tc_prompt_tokens :: "i32 list"
  tc_client_id :: string
  tc_prompt_context :: "u8 list"
  tc_kind :: command_kind
  tc_sampling :: sampling_config
  tc_constrained :: bool
  tc_source :: "tp_source option"
  tc_reasoning_budget :: "u64 option"
  tc_stop_at_eos :: bool
  tc_instruction :: tp_instruction

definition default_command :: tp_command where
  "default_command =
     \<lparr>tc_sequence = 0, tc_max_tokens = 0, tc_cache_prompt = False, tc_cache_prefix = 0,
      tc_prompt_tokens = [], tc_client_id = [], tc_prompt_context = [], tc_kind = KSingle,
      tc_sampling = default_sampling, tc_constrained = False, tc_source = None,
      tc_reasoning_budget = None, tc_stop_at_eos = True, tc_instruction = default_instruction\<rparr>"

section \<open>Responses\<close>

datatype response_kind = RSingle | RInstruction | ROther u8

fun rkind_code :: "response_kind \<Rightarrow> u32" where
  "rkind_code RSingle = 1"
| "rkind_code RInstruction = 2"
| "rkind_code (ROther b) = ucast b"

record tp_response =
  rs_instruction_index :: u64
  rs_sequence :: u64
  rs_tokens :: "i32 list"
  rs_draft_tokens :: u64
  rs_draft_accepted :: u64
  rs_cached_prompt :: u32
  rs_snapshot_bytes :: u64
  rs_error :: string
  rs_kind :: response_kind

definition default_response :: tp_response where
  "default_response =
     \<lparr>rs_instruction_index = 0, rs_sequence = 0, rs_tokens = [], rs_draft_tokens = 0,
      rs_draft_accepted = 0, rs_cached_prompt = 0, rs_snapshot_bytes = 0, rs_error = [],
      rs_kind = RSingle\<rparr>"

section \<open>Facts\<close>

lemma op_of_code_op_code [wire_simps, simp]: "op_of_code (op_code x) = Some x"
  by (cases x) (simp_all add: op_of_code_def all_ops_def word_le_nat_alt)

lemma op_code_le: "\<not> op_code x > op_code OpDecodeBatch"
  by (cases x) simp_all

end
