(* ===== verification/Tp_Validate.thy ===== *)
theory Tp_Validate
  imports Tp_Types
begin

text \<open>
  The validators of the control channel: \<open>IsDefaultSampling\<close>, \<open>HasRequestFields\<close>,
  \<open>ValidateInstruction\<close>, \<open>ValidateTpControlCommand\<close> and \<open>ValidateTpControlResponse\<close>. A result is
  the error message, \<open>None\<close> when the message is valid.
\<close>

section \<open>Commands\<close>

definition is_default_sampling :: "sampling_config \<Rightarrow> bool" where
  "is_default_sampling c \<longleftrightarrow>
     sc_logprobs c = sc_logprobs default_sampling \<and>
     f32_eq (sc_temperature c) (sc_temperature default_sampling) \<and>
     sc_top_k c = sc_top_k default_sampling \<and> f32_eq (sc_top_p c) (sc_top_p default_sampling) \<and>
     f32_eq (sc_min_p c) (sc_min_p default_sampling) \<and>
     sc_min_keep c = sc_min_keep default_sampling \<and> sc_seed c = sc_seed default_sampling \<and>
     f32_eq (sc_repeat_penalty c) (sc_repeat_penalty default_sampling) \<and>
     sc_repeat_last_n c = sc_repeat_last_n default_sampling \<and>
     f32_eq (sc_frequency_penalty c) (sc_frequency_penalty default_sampling) \<and>
     f32_eq (sc_presence_penalty c) (sc_presence_penalty default_sampling)"

definition has_request_fields :: "tp_command \<Rightarrow> bool" where
  "has_request_fields c \<longleftrightarrow>
     tc_max_tokens c \<noteq> 0 \<or> tc_cache_prompt c \<or> tc_cache_prefix c \<noteq> 0 \<or> tc_prompt_tokens c \<noteq> [] \<or>
     tc_client_id c \<noteq> [] \<or> tc_prompt_context c \<noteq> [] \<or> \<not> is_default_sampling (tc_sampling c) \<or>
     tc_constrained c \<or> sc_constraint (tc_sampling c) \<noteq> None \<or> \<not> tc_stop_at_eos c \<or>
     tc_source c \<noteq> None \<or> tc_reasoning_budget c \<noteq> None"

text \<open>The lambda \<open>only\<close>: every argument outside the listed ones is zero.\<close>

definition only_args :: "tp_instruction \<Rightarrow> bool \<Rightarrow> bool \<Rightarrow> bool \<Rightarrow> bool \<Rightarrow> bool \<Rightarrow> bool" where
  "only_args i token offset count prompt_size digest \<longleftrightarrow>
     (token \<or> ti_token i = 0) \<and> (offset \<or> ti_offset i = 0) \<and> (count \<or> ti_count i = 0) \<and>
     (prompt_size \<or> ti_prompt_size i = 0) \<and> (digest \<or> ti_digest i = 0)"

text \<open>The loop over a batch: a member's own arguments, then the members before it.\<close>

definition member_ok :: "bool \<Rightarrow> u32 \<Rightarrow> tp_member \<Rightarrow> bool" where
  "member_ok decode batch_drafts m \<longleftrightarrow>
     mb_sequence m \<noteq> 0 \<and>
     (mb_drafts m = 0 \<or> (decode \<and> batch_drafts = 0)) \<and>
     (if decode then mb_token m = 0 \<and> mb_count m \<noteq> 0 \<and> sint (mb_pending m) \<ge> -1
      else sint (mb_token m) \<ge> 0 \<and> mb_count m = 0 \<and> mb_rng m = 0 \<and> mb_pending m = -1)"

fun batch_ok :: "bool \<Rightarrow> u32 \<Rightarrow> tp_member list \<Rightarrow> tp_member list \<Rightarrow> bool" where
  "batch_ok decode drafts previous [] = True"
| "batch_ok decode drafts previous (m # ms) =
     (member_ok decode drafts m \<and>
      list_all (\<lambda>p. mb_state p \<noteq> mb_state m \<and> (\<not> decode \<or> mb_sequence p \<noteq> mb_sequence m)) previous \<and>
      batch_ok decode drafts (previous @ [m]) ms)"

definition op_arguments_ok :: "u64 \<Rightarrow> tp_instruction \<Rightarrow> bool" where
  "op_arguments_ok sequence i =
     (let only = only_args i in
      if ti_op i = OpAdvanceBatch \<or> ti_op i = OpDecodeBatch then
        ti_state i = 0 \<and> only False False False False False \<and> length (ti_batch i) \<ge> 2 \<and>
        length (ti_batch i) \<le> k_max_batch_members \<and> sequence = 0 \<and>
        batch_ok (ti_op i = OpDecodeBatch) (ti_batch_drafts i) [] (ti_batch i)
      else if ti_op i = OpDrop \<or> ti_op i = OpPersist then
        ti_state i = 0 \<and> only False False False False False
      else if ti_op i = OpReuse then
        only False False False True False \<and> unat (ti_prompt_size i) \<le> k_max_prompt_tokens
      else if ti_op i = OpSnapshot then
        only False True True False True \<and> ti_offset i \<le> 1
      else if ti_op i \<in> {OpRestore, OpCancelPrepare, OpInvalidate, OpPromptContext, OpRestoreDisk} then
        only False False False False False
      else if ti_op i = OpPrefill then
        only False True True True False \<and> ti_count i \<noteq> 0 \<and> ti_prompt_size i > ti_offset i \<and>
        unat (ti_prompt_size i) \<le> k_max_prompt_tokens \<and>
        unat (ti_lookahead i) \<le> k_max_prompt_tokens - unat (ti_prompt_size i)
      else if ti_op i = OpAdvance then
        only True False False False False \<and> sint (ti_token i) \<ge> 0
      else if ti_op i = OpDecode then
        only False False True False False \<and> ti_count i > 1 \<and> sint (ti_pending i) \<ge> -1
      else if ti_op i = OpEnd then only False False True False True
      else False)"

definition validate_instruction :: "u64 \<Rightarrow> tp_instruction \<Rightarrow> string option" where
  "validate_instruction sequence i =
     (if ti_op i \<noteq> OpDecode \<and> (ti_rng i \<noteq> 0 \<or> ti_pending i \<noteq> -1)
      then Some ''TP instruction carries a draw state it does not use''
      else if ti_op i \<noteq> OpDecode \<and> ti_drafts i \<noteq> 0
      then Some ''TP instruction carries a draft count it does not use''
      else if (ti_op i \<in> {OpSnapshot, OpRestore, OpDrop, OpPersist}) \<noteq> (ti_snapshot_id i \<noteq> 0)
      then Some ''TP instruction snapshot ID is invalid''
      else if (ti_op i \<in> {OpPersist, OpRestoreDisk}) \<noteq> (ti_file_key i \<noteq> 0)
      then Some ''TP instruction file key is invalid''
      else if ((ti_op i \<in> {OpAdvanceBatch, OpDecodeBatch}) \<noteq> (ti_batch i \<noteq> [])) \<or>
              (ti_op i \<noteq> OpDecodeBatch \<and> ti_batch_drafts i \<noteq> 0)
      then Some ''TP instruction batch does not match its operation''
      else if ti_op i \<noteq> OpPrefill \<and> ti_lookahead i \<noteq> 0
      then Some ''TP instruction carries a lookahead it does not use''
      else if \<not> op_arguments_ok sequence i
      then Some ''TP instruction has invalid arguments for its operation''
      else if sequence = 0 \<and>
              ti_op i \<notin> {OpInvalidate, OpDrop, OpPersist, OpPromptContext, OpAdvanceBatch, OpDecodeBatch}
      then Some (''TP instruction outside a request must be a reset, a snapshot '' @
                 ''drop or persist, or a prompt-context release'')
      else None)"

definition validate_command :: "tp_command \<Rightarrow> string option" where
  "validate_command c =
     (if tc_kind c \<noteq> KInstruction \<and> tc_instruction c \<noteq> default_instruction
      then Some ''TP request command carries an instruction''
      else if tc_kind c = KSingle then
        (if tc_max_tokens c = 0 \<or> tc_prompt_tokens c = [] \<or>
            length (tc_prompt_tokens c) > k_max_prompt_tokens \<or>
            unat (tc_cache_prefix c) > length (tc_prompt_tokens c) \<or>
            length (tc_client_id c) > k_max_client_id_bytes \<or>
            length (tc_prompt_context c) > k_max_prompt_context_bytes \<or>
            list_ex (\<lambda>t. sint t < 0) (tc_prompt_tokens c)
         then Some ''TP control request is invalid''
         else
           (case validate_sampling (tc_sampling c) of
              Some what \<Rightarrow> Some (''TP control request sampling is invalid: '' @ what)
            | None \<Rightarrow> None))
      else if tc_kind c = KInstruction then
        (if has_request_fields c then Some ''TP instruction carries request fields''
         else validate_instruction (tc_sequence c) (tc_instruction c))
      else Some ''TP control command kind is invalid'')"

section \<open>Responses\<close>

definition has_result_fields :: "tp_response \<Rightarrow> bool" where
  "has_result_fields r \<longleftrightarrow>
     rs_tokens r \<noteq> [] \<or> rs_draft_tokens r \<noteq> 0 \<or> rs_draft_accepted r \<noteq> 0 \<or>
     rs_cached_prompt r \<noteq> 0 \<or> rs_snapshot_bytes r \<noteq> 0"

definition validate_response :: "tp_response \<Rightarrow> string option" where
  "validate_response r =
     (if length (rs_error r) > k_max_error_bytes then Some ''TP control response error is too large''
      else if rs_kind r = RInstruction then
        (if rs_sequence r = 0 \<or> has_result_fields r
         then Some ''TP cache acknowledgement is invalid'' else None)
      else if rs_kind r \<noteq> RSingle then Some ''TP control response kind is invalid''
      else if rs_instruction_index r \<noteq> 0
      then Some ''TP final response carries an instruction index''
      else if length (rs_tokens r) > k_max_prompt_tokens \<or>
              unat (rs_cached_prompt r) > k_max_prompt_tokens
      then Some ''TP control response is too large''
      else None)"

section \<open>What validation gives\<close>

lemma batch_ok_members:
  "batch_ok d n prev ms \<Longrightarrow> m \<in> set ms \<Longrightarrow> member_ok d n m"
  by (induction d n prev ms rule: batch_ok.induct) auto

lemma batch_ok_states:
  "batch_ok d n prev ms \<Longrightarrow> distinct (map mb_state prev) \<Longrightarrow> distinct (map mb_state (prev @ ms))"
proof (induction d n prev ms rule: batch_ok.induct)
  case (2 d n prev m ms)
  then have "distinct (map mb_state (prev @ [m]))" by (auto simp: list_all_iff)
  with 2 show ?case by simp
qed simp

lemma batch_ok_sequences:
  "batch_ok True n prev ms \<Longrightarrow> distinct (map mb_sequence prev) \<Longrightarrow> distinct (map mb_sequence (prev @ ms))"
proof (induction "True" n prev ms rule: batch_ok.induct)
  case (2 n prev m ms)
  then have "distinct (map mb_sequence (prev @ [m]))" by (auto simp: list_all_iff)
  with 2 show ?case by simp
qed simp

lemma validate_commandD:
  assumes "validate_command c = None"
  shows "tc_kind c = KSingle \<and> tc_instruction c = default_instruction \<and>
      tc_max_tokens c \<noteq> 0 \<and> tc_prompt_tokens c \<noteq> [] \<and>
      length (tc_prompt_tokens c) \<le> k_max_prompt_tokens \<and>
      unat (tc_cache_prefix c) \<le> length (tc_prompt_tokens c) \<and>
      length (tc_client_id c) \<le> k_max_client_id_bytes \<and>
      length (tc_prompt_context c) \<le> k_max_prompt_context_bytes \<and>
      validate_sampling (tc_sampling c) = None \<or>
    tc_kind c = KInstruction \<and> \<not> has_request_fields c \<and>
      validate_instruction (tc_sequence c) (tc_instruction c) = None"
  using assms by (auto simp: validate_command_def split: if_splits option.splits)

lemma validate_instructionD:
  assumes "validate_instruction sequence i = None"
  shows "op_arguments_ok sequence i" and "length (ti_batch i) \<le> k_max_batch_members"
proof -
  show ok: "op_arguments_ok sequence i"
    using assms by (auto simp: validate_instruction_def split: if_splits)
  show "length (ti_batch i) \<le> k_max_batch_members"
  proof (cases "ti_batch i = []")
    case False
    then have "ti_op i \<in> {OpAdvanceBatch, OpDecodeBatch}"
      using assms by (simp add: validate_instruction_def split: if_splits)
    with ok show ?thesis by (auto simp: op_arguments_ok_def Let_def)
  qed (simp add: k_defs)
qed

end
