(* ===== verification/Tp_Codec.thy ===== *)
theory Tp_Codec
  imports Tp_Validate
begin

text \<open>
  The payloads of commands and responses: the encoders inside \<open>SendCommand\<close> and \<open>SendResponse\<close> and
  the decoders inside \<open>ReceiveCommand\<close> and \<open>ReceiveResponse\<close>
  (\<open>src/cli/serve/tp_control.cpp\<close>). Decoding a payload either rejects it with the source's
  message or gives the message it carries.
\<close>

section \<open>Encoding a command\<close>

definition flag :: "bool \<Rightarrow> u32 \<Rightarrow> u32" where
  "flag b v = (if b then v else 0)"

definition tool_bytes :: "tp_tool \<Rightarrow> u8 list" where
  "tool_bytes t = string_field (tool_name t) @ string_field (tool_description t) @
     string_field (tool_parameters t) @ string_field (tool_definition t)"

definition source_bytes :: "tp_source \<Rightarrow> u8 list" where
  "source_bytes s =
     string_field (src_response_format s) @
     u32_bytes (flag (src_responses_form s) 1 OR flag (src_parallel s) 2 OR flag (src_reasoning s) 4) @
     u32_bytes (ucast (src_tool_choice s)) @
     u32_bytes (u32_size (length (src_tools s))) @
     concat (map tool_bytes (src_tools s))"

definition sampling_bytes :: "sampling_config \<Rightarrow> u8 list" where
  "sampling_bytes c =
     u32_bytes (sc_temperature c) @ u32_bytes (sc_top_k c) @ u32_bytes (sc_top_p c) @
     u32_bytes (sc_min_p c) @ u64_bytes (sc_min_keep c) @ u64_bytes (sc_seed c) @
     u32_bytes (sc_repeat_penalty c) @ u64_bytes (sc_repeat_last_n c) @
     u32_bytes (sc_frequency_penalty c) @ u32_bytes (sc_presence_penalty c) @
     u32_bytes (case sc_logprobs c of None \<Rightarrow> 0 | Some n \<Rightarrow> n + 1)"

definition request_flags :: "tp_command \<Rightarrow> u32" where
  "request_flags c =
     flag (tc_constrained c \<or> sc_constraint (tc_sampling c) \<noteq> None \<or> tc_source c \<noteq> None) 1 OR
     flag (\<not> tc_stop_at_eos c) 2 OR flag (tc_source c \<noteq> None) 4 OR
     flag (tc_reasoning_budget c \<noteq> None) 8"

definition request_bytes :: "tp_command \<Rightarrow> u8 list" where
  "request_bytes c =
     u32_bytes (tc_max_tokens c) @ u32_bytes (flag (tc_cache_prompt c) 1) @
     u32_bytes (tc_cache_prefix c) @ u32_bytes (u32_size (length (tc_prompt_tokens c))) @
     u32_bytes (u32_size (length (tc_client_id c))) @
     u32_bytes (u32_size (length (tc_prompt_context c))) @
     concat (map u32_bytes (tc_prompt_tokens c)) @ bytes_of_string (tc_client_id c) @
     tc_prompt_context c @ sampling_bytes (tc_sampling c) @ u32_bytes (request_flags c) @
     (case tc_source c of None \<Rightarrow> [] | Some s \<Rightarrow> source_bytes s) @
     (case tc_reasoning_budget c of None \<Rightarrow> [] | Some n \<Rightarrow> u64_bytes n)"

definition member_bytes :: "tp_member \<Rightarrow> u8 list" where
  "member_bytes m =
     u64_bytes (mb_sequence m) @ u32_bytes (mb_state m) @ u32_bytes (mb_token m) @
     u32_bytes (mb_count m) @ u64_bytes (mb_rng m) @ u32_bytes (mb_pending m) @
     u32_bytes (mb_drafts m)"

definition instruction_bytes :: "tp_instruction \<Rightarrow> u8 list" where
  "instruction_bytes i =
     u32_bytes (op_code (ti_op i)) @ u64_bytes (ti_index i) @ u32_bytes (ti_state i) @
     u32_bytes (ti_token i) @ u32_bytes (ti_offset i) @ u32_bytes (ti_count i) @
     u32_bytes (ti_prompt_size i) @ u64_bytes (ti_snapshot_id i) @ u64_bytes (ti_digest i) @
     u64_bytes (ti_rng i) @ u32_bytes (ti_pending i) @ u64_bytes (ti_file_key i) @
     u32_bytes (ti_batch_drafts i) @ u32_bytes (ti_lookahead i) @ u32_bytes (ti_drafts i) @
     u32_bytes (u32_size (length (ti_batch i))) @ concat (map member_bytes (ti_batch i))"

definition command_payload :: "tp_command \<Rightarrow> u8 list" where
  "command_payload c =
     u64_bytes (tc_sequence c) @ u32_bytes (kind_code (tc_kind c)) @
     (if tc_kind c = KSingle then request_bytes c else instruction_bytes (tc_instruction c))"

section \<open>Decoding a command\<close>

definition read_tool :: "u8 list \<Rightarrow> (tp_tool \<times> u8 list) option" where
  "read_tool d = do {
     (n, d) \<leftarrow> read_string d;
     (e, d) \<leftarrow> read_string d;
     (p, d) \<leftarrow> read_string d;
     (f, d) \<leftarrow> read_string d;
     Some (\<lparr>tool_name = n, tool_description = e, tool_parameters = p, tool_definition = f\<rparr>, d)
   }"

definition read_source :: "u8 list \<Rightarrow> string + (tp_source \<times> u8 list)" where
  "read_source d =
     (case (do {
        (format, d) \<leftarrow> read_string d;
        (flags, d) \<leftarrow> read_u32 d;
        (choice, d) \<leftarrow> read_u32 d;
        (count, d) \<leftarrow> read_u32 d;
        Some (format, flags, choice, count, d)
      }) of
        None \<Rightarrow> Inl ''TP control request constraint is truncated''
      | Some (format, flags, choice, count, d) \<Rightarrow>
          if flags > 7 \<or> choice > 0xff \<or> unat count > length d div 16
          then Inl ''TP control request constraint is invalid''
          else
            (case read_many read_tool (unat count) d of
               None \<Rightarrow> Inl ''TP control request constraint is truncated''
             | Some (tools, d) \<Rightarrow>
                 Inr (\<lparr>src_response_format = format, src_responses_form = (flags AND 1 \<noteq> 0),
                       src_tools = tools, src_tool_choice = ucast choice,
                       src_parallel = (flags AND 2 \<noteq> 0), src_reasoning = (flags AND 4 \<noteq> 0)\<rparr>, d)))"

text \<open>The sampling fields, \<open>logprobs\<close> and \<open>flags\<close> as they stand on the wire.\<close>

definition read_sampling :: "u8 list \<Rightarrow> (sampling_config \<times> u32 \<times> u32 \<times> u8 list) option" where
  "read_sampling d = do {
     (temperature, d) \<leftarrow> read_u32 d;
     (top_k, d) \<leftarrow> read_u32 d;
     (top_p, d) \<leftarrow> read_u32 d;
     (min_p, d) \<leftarrow> read_u32 d;
     (min_keep, d) \<leftarrow> read_u64 d;
     (seed, d) \<leftarrow> read_u64 d;
     (repeat_penalty, d) \<leftarrow> read_u32 d;
     (repeat_last_n, d) \<leftarrow> read_u64 d;
     (frequency_penalty, d) \<leftarrow> read_u32 d;
     (presence_penalty, d) \<leftarrow> read_u32 d;
     (logprobs, d) \<leftarrow> read_u32 d;
     (flags, d) \<leftarrow> read_u32 d;
     Some (\<lparr>sc_logprobs = None, sc_temperature = temperature, sc_top_k = top_k, sc_top_p = top_p,
            sc_min_p = min_p, sc_min_keep = min_keep, sc_seed = seed,
            sc_repeat_penalty = repeat_penalty, sc_repeat_last_n = repeat_last_n,
            sc_frequency_penalty = frequency_penalty, sc_presence_penalty = presence_penalty,
            sc_constraint = None, sc_reasoning_budget = None\<rparr>, logprobs, flags, d)
   }"

text \<open>The first six fields of a request, and the vectors whose sizes they give.\<close>

definition read_prompt :: "tp_command \<Rightarrow> u8 list \<Rightarrow> string + (tp_command \<times> u8 list)" where
  "read_prompt parsed d =
     (case (do {
        (max_tokens, d) \<leftarrow> read_u32 d;
        (cache_prompt, d) \<leftarrow> read_u32 d;
        (cache_prefix, d) \<leftarrow> read_u32 d;
        (prompt_count, d) \<leftarrow> read_u32 d;
        (client_size, d) \<leftarrow> read_u32 d;
        (context_size, d) \<leftarrow> read_u32 d;
        (if cache_prompt > 1 \<or> prompt_count = 0 \<or> unat prompt_count > k_max_prompt_tokens \<or>
            unat client_size > k_max_client_id_bytes \<or>
            unat context_size > k_max_prompt_context_bytes \<or>
            length d < unat prompt_count * 4 + unat client_size + unat context_size
         then None else Some ());
        (tokens, d) \<leftarrow> read_many read_u32 (unat prompt_count) d;
        Some (parsed\<lparr>tc_kind := KSingle, tc_max_tokens := max_tokens,
                tc_cache_prefix := cache_prefix, tc_cache_prompt := (cache_prompt \<noteq> 0),
                tc_prompt_tokens := tokens,
                tc_client_id := string_of_bytes (take (unat client_size) d),
                tc_prompt_context := take (unat context_size) (drop (unat client_size) d)\<rparr>,
              drop (unat context_size) (drop (unat client_size) d))
      }) of
        None \<Rightarrow> Inl ''TP control request is invalid''
      | Some r \<Rightarrow> Inr r)"

definition read_request :: "tp_command \<Rightarrow> u8 list \<Rightarrow> string + (tp_command \<times> u8 list)" where
  "read_request parsed d =
     (case read_prompt parsed d of
        Inl e \<Rightarrow> Inl e
      | Inr (parsed, d) \<Rightarrow>
     (case read_sampling d of
        None \<Rightarrow> Inl ''TP control request sampling is truncated''
      | Some (config, logprobs, flags, d) \<Rightarrow>
     if logprobs > 21 then Inl ''TP control request logprobs is invalid''
     else if flags > 15 \<or> (flags AND 4 \<noteq> 0 \<and> flags AND 1 = 0)
     then Inl ''TP control request flags are invalid''
     else
     (case (if flags AND 4 \<noteq> 0 then map_sum id (\<lambda>(s, d). (Some s, d)) (read_source d)
            else Inr (None, d)) of
        Inl e \<Rightarrow> Inl e
      | Inr (source, d) \<Rightarrow>
     (case (if flags AND 8 \<noteq> 0 then map_option (\<lambda>(n, d). (Some n, d)) (read_u64 d)
            else Some (None, d)) of
        None \<Rightarrow> Inl ''TP control request reasoning budget is truncated''
      | Some (budget, d) \<Rightarrow>
          Inr (parsed\<lparr>tc_constrained := (flags AND 1 \<noteq> 0), tc_stop_at_eos := (flags AND 2 = 0),
                 tc_source := source, tc_reasoning_budget := budget,
                 tc_sampling := config\<lparr>sc_logprobs :=
                   (if logprobs \<noteq> 0 then Some (logprobs - 1) else None)\<rparr>\<rparr>, d)))))"

definition read_member :: "u8 list \<Rightarrow> (tp_member \<times> u8 list) option" where
  "read_member d = do {
     (sequence, d) \<leftarrow> read_u64 d;
     (state, d) \<leftarrow> read_u32 d;
     (token, d) \<leftarrow> read_u32 d;
     (count, d) \<leftarrow> read_u32 d;
     (rng, d) \<leftarrow> read_u64 d;
     (pending, d) \<leftarrow> read_u32 d;
     (drafts, d) \<leftarrow> read_u32 d;
     Some (\<lparr>mb_sequence = sequence, mb_state = state, mb_token = token, mb_count = count,
            mb_rng = rng, mb_pending = pending, mb_drafts = drafts\<rparr>, d)
   }"

definition read_instruction :: "tp_command \<Rightarrow> u8 list \<Rightarrow> string + (tp_command \<times> u8 list)" where
  "read_instruction parsed d =
     (case (do {
        (opc, d) \<leftarrow> read_u32 d;
        (index, d) \<leftarrow> read_u64 d;
        (state, d) \<leftarrow> read_u32 d;
        (token, d) \<leftarrow> read_u32 d;
        (offset, d) \<leftarrow> read_u32 d;
        (count, d) \<leftarrow> read_u32 d;
        (prompt_size, d) \<leftarrow> read_u32 d;
        (snapshot_id, d) \<leftarrow> read_u64 d;
        (digest, d) \<leftarrow> read_u64 d;
        (rng, d) \<leftarrow> read_u64 d;
        (pending, d) \<leftarrow> read_u32 d;
        (file_key, d) \<leftarrow> read_u64 d;
        (batch_drafts, d) \<leftarrow> read_u32 d;
        (lookahead, d) \<leftarrow> read_u32 d;
        (drafts, d) \<leftarrow> read_u32 d;
        (batch_size, d) \<leftarrow> read_u32 d;
        opr \<leftarrow> op_of_code opc;
        (if unat batch_size > k_max_batch_members then None
         else Some (\<lparr>ti_op = opr, ti_index = index, ti_state = state, ti_token = token,
                     ti_offset = offset, ti_count = count, ti_prompt_size = prompt_size,
                     ti_digest = digest, ti_rng = rng, ti_pending = pending,
                     ti_snapshot_id = snapshot_id, ti_batch = [], ti_file_key = file_key,
                     ti_batch_drafts = batch_drafts, ti_drafts = drafts,
                     ti_lookahead = lookahead\<rparr>, batch_size, d))
      }) of
        None \<Rightarrow> Inl ''TP control instruction is invalid''
      | Some (instruction, batch_size, d) \<Rightarrow>
          (case read_many read_member (unat batch_size) d of
             None \<Rightarrow> Inl ''TP control instruction batch is truncated''
           | Some (batch, d) \<Rightarrow>
               Inr (parsed\<lparr>tc_kind := KInstruction,
                           tc_instruction := instruction\<lparr>ti_batch := batch\<rparr>\<rparr>, d)))"

text \<open>\<open>ReceiveCommand\<close> after the frame arrived: \<open>sequence\<close> is the frame's.\<close>

definition parse_command :: "u32 \<Rightarrow> u64 \<Rightarrow> u8 list \<Rightarrow> string + tp_command" where
  "parse_command max_context sequence payload =
     (case (do {
        (embedded, d) \<leftarrow> read_u64 payload;
        (kind, d) \<leftarrow> read_u32 d;
        (if embedded \<noteq> sequence then None else Some (kind, d))
      }) of
        None \<Rightarrow> Inl ''TP control command header is invalid''
      | Some (kind, d) \<Rightarrow>
     (case (if kind = kind_code KSingle
            then read_request (default_command\<lparr>tc_sequence := sequence\<rparr>) d
            else if kind = kind_code KInstruction
            then read_instruction (default_command\<lparr>tc_sequence := sequence\<rparr>) d
            else Inl ''TP control command kind is invalid'') of
        Inl e \<Rightarrow> Inl e
      | Inr (parsed, d) \<Rightarrow>
          if d \<noteq> [] then Inl ''TP control command payload has trailing bytes''
          else if max_context = 0 \<or> length (tc_prompt_tokens parsed) > unat max_context
          then Inl ''TP control command exceeds the negotiated context''
          else
            (case validate_command parsed of
               Some e \<Rightarrow> Inl e
             | None \<Rightarrow> Inr parsed)))"

section \<open>Responses\<close>

definition response_payload :: "tp_response \<Rightarrow> u8 list" where
  "response_payload r =
     u64_bytes (rs_sequence r) @ u32_bytes (rkind_code (rs_kind r)) @
     (if rs_kind r = RInstruction then u64_bytes (rs_instruction_index r)
      else u32_bytes (u32_size (length (rs_tokens r))) @ u64_bytes (rs_draft_tokens r) @
           u64_bytes (rs_draft_accepted r) @ u32_bytes (rs_cached_prompt r) @
           u64_bytes (rs_snapshot_bytes r) @ concat (map u32_bytes (rs_tokens r))) @
     u32_bytes (u32_size (length (rs_error r))) @ bytes_of_string (rs_error r)"

definition read_result :: "tp_response \<Rightarrow> u8 list \<Rightarrow> (tp_response \<times> u8 list) option" where
  "read_result parsed d = do {
     (token_count, d) \<leftarrow> read_u32 d;
     (draft_tokens, d) \<leftarrow> read_u64 d;
     (draft_accepted, d) \<leftarrow> read_u64 d;
     (cached_prompt, d) \<leftarrow> read_u32 d;
     (snapshot_bytes, d) \<leftarrow> read_u64 d;
     (if unat token_count > k_max_prompt_tokens \<or> length d < unat token_count * 4
      then None else Some ());
     (tokens, d) \<leftarrow> read_many read_u32 (unat token_count) d;
     Some (parsed\<lparr>rs_kind := RSingle, rs_draft_tokens := draft_tokens,
             rs_draft_accepted := draft_accepted, rs_cached_prompt := cached_prompt,
             rs_snapshot_bytes := snapshot_bytes, rs_tokens := tokens\<rparr>, d)
   }"

definition read_response_body :: "u64 \<Rightarrow> u32 \<Rightarrow> u8 list \<Rightarrow> string + (tp_response \<times> u8 list)" where
  "read_response_body sequence kind d =
     (if kind = rkind_code RInstruction
      then (case read_u64 d of
              None \<Rightarrow> Inl ''TP cache acknowledgement is malformed''
            | Some (index, d) \<Rightarrow>
                Inr (default_response\<lparr>rs_sequence := sequence, rs_kind := RInstruction,
                       rs_instruction_index := index\<rparr>, d))
      else if kind = rkind_code RSingle
      then (case read_result (default_response\<lparr>rs_sequence := sequence\<rparr>) d of
              None \<Rightarrow> Inl ''TP control response is invalid''
            | Some r \<Rightarrow> Inr r)
      else Inl ''TP control response kind is invalid'')"

definition parse_response :: "u64 \<Rightarrow> u8 list \<Rightarrow> string + tp_response" where
  "parse_response sequence payload =
     (case (do {
        (embedded, d) \<leftarrow> read_u64 payload;
        (kind, d) \<leftarrow> read_u32 d;
        (if embedded \<noteq> sequence then None else Some (kind, d))
      }) of
        None \<Rightarrow> Inl ''TP control response header is invalid''
      | Some (kind, d) \<Rightarrow>
     (case read_response_body sequence kind d of
        Inl e \<Rightarrow> Inl e
      | Inr (parsed, d) \<Rightarrow>
     (case (do {
        (error_size, d) \<leftarrow> read_u32 d;
        (if unat error_size > k_max_error_bytes \<or> length d \<noteq> unat error_size
         then None else Some d)
      }) of
        None \<Rightarrow> Inl ''TP control response error payload is invalid''
      | Some d \<Rightarrow>
          (case validate_response (parsed\<lparr>rs_error := string_of_bytes d\<rparr>) of
             Some e \<Rightarrow> Inl e
           | None \<Rightarrow> Inr (parsed\<lparr>rs_error := string_of_bytes d\<rparr>)))))"

end
