(* ===== verification/Tp_Roundtrip.thy ===== *)
theory Tp_Roundtrip
  imports Tp_Codec
begin

text \<open>
  The codec theorems: what one rank encodes is what the other decodes. The parts are codecs in the
  sense of \<open>Tp_Wire\<close>; the messages are put together from them.
\<close>

section \<open>Parts\<close>

definition tool_ok :: "tp_tool \<Rightarrow> bool" where
  "tool_ok t \<longleftrightarrow> fits32 (length (tool_name t)) \<and> fits32 (length (tool_description t)) \<and>
     fits32 (length (tool_parameters t)) \<and> fits32 (length (tool_definition t))"

lemmas wire_inverse = u32c.enc_dec[THEN conjunct1] u64c.enc_dec[THEN conjunct1]

interpretation toolc: canonical_codec tool_bytes read_tool tool_ok
  by unfold_locales
    (auto simp: tool_bytes_def read_tool_def tool_ok_def wire_simps bind_eq_Some_conv dest!: strc.enc_dec)

interpretation memc: canonical_codec member_bytes read_member "\<lambda>_. True"
  by unfold_locales
    (auto simp: member_bytes_def read_member_def wire_simps bind_eq_Some_conv dest!: wire_inverse)

lemma flag_bits:
  "(flag a 1 OR flag b 2 OR flag c 4) AND 1 \<noteq> 0 \<longleftrightarrow> a"
  "(flag a 1 OR flag b 2 OR flag c 4) AND 2 \<noteq> 0 \<longleftrightarrow> b"
  "(flag a 1 OR flag b 2 OR flag c 4) AND 4 \<noteq> 0 \<longleftrightarrow> c"
  "\<not> flag a 1 OR flag b 2 OR flag c 4 > 7"
  by (cases a; cases b; cases c; simp add: flag_def)+

lemma length_tool_bytes: "16 \<le> length (tool_bytes t)"
  by (simp add: tool_bytes_def wire_length)

lemma length_tools: "16 * length ts \<le> length (concat (map tool_bytes ts))"
  by (induction ts) (use length_tool_bytes in \<open>auto intro: add_mono\<close>)

definition source_ok :: "tp_source \<Rightarrow> bool" where
  "source_ok s \<longleftrightarrow> fits32 (length (src_response_format s)) \<and> fits32 (length (src_tools s)) \<and>
     (\<forall>t\<in>set (src_tools s). tool_ok t)"

lemma u8_le_255: "ucast (c :: u8) \<le> (0xff :: u32)"
proof -
  have "unat c < 2 ^ LENGTH(8)" by (rule unsigned_less)
  then show ?thesis by (simp add: word_le_nat_alt unsigned_ucast_eq take_bit_nat_eq_self)
qed

lemma u8_of_u32 [simp]: "ucast (ucast (c :: u8) :: u32) = c"
  by (rule bit_word_eqI) (auto simp: bit_simps)

lemma read_source_bytes:
  assumes "source_ok s"
  shows "read_source (source_bytes s @ rest) = Inr (s, rest)"
proof -
  have "length (src_tools s) \<le> (length (concat (map tool_bytes (src_tools s)))) div 16"
    using length_tools[of "src_tools s"] by simp
  also have "\<dots> \<le> length (concat (map tool_bytes (src_tools s)) @ rest) div 16"
    by (rule div_le_mono) simp
  finally have len: "\<not> length (src_tools s) > length (concat (map tool_bytes (src_tools s)) @ rest) div 16"
    by simp
  have tools: "read_many read_tool (length (src_tools s)) (concat (map tool_bytes (src_tools s)) @ rest)
      = Some (src_tools s, rest)"
    using assms by (intro toolc.dec_many) (simp add: source_ok_def)
  have "\<not> ucast (src_tool_choice s) > (0xff :: u32)" using u8_le_255 by (simp add: not_less)
  with assms len tools show ?thesis
    unfolding read_source_def source_bytes_def source_ok_def
    by (simp add: wire_simps flag_bits unat_u32_size del: length_append)
qed

lemma read_sampling_bytes:
  "read_sampling (sampling_bytes c @ u32_bytes flags @ rest) =
     Some (c\<lparr>sc_logprobs := None, sc_constraint := None, sc_reasoning_budget := None\<rparr>,
           case sc_logprobs c of None \<Rightarrow> 0 | Some n \<Rightarrow> n + 1, flags, rest)"
  by (simp add: read_sampling_def sampling_bytes_def wire_simps)

section \<open>Requests\<close>

text \<open>What the other rank sees of a command: a pointer to a constraint becomes the flag, and the
  reasoning budget object is rebuilt from its token count; an instruction has no request fields.\<close>

definition wire_view :: "tp_command \<Rightarrow> tp_command" where
  "wire_view c =
     (if tc_kind c = KSingle
      then c\<lparr>tc_constrained := tc_constrained c \<or> sc_constraint (tc_sampling c) \<noteq> None \<or> tc_source c \<noteq> None,
             tc_sampling := (tc_sampling c)\<lparr>sc_constraint := None, sc_reasoning_budget := None\<rparr>\<rparr>
      else default_command\<lparr>tc_sequence := tc_sequence c, tc_kind := tc_kind c,
             tc_instruction := tc_instruction c\<rparr>)"

lemma length_words32: "length (concat (map u32_bytes ts)) = 4 * length ts"
  by (induction ts) simp_all

lemma small_fits32:
  "n \<le> k_max_prompt_tokens \<Longrightarrow> fits32 n" "n \<le> k_max_client_id_bytes \<Longrightarrow> fits32 n"
  "n \<le> k_max_prompt_context_bytes \<Longrightarrow> fits32 n" "n \<le> k_max_error_bytes \<Longrightarrow> fits32 n"
  "n \<le> k_max_payload_bytes \<Longrightarrow> fits32 n" "n \<le> k_max_batch_members \<Longrightarrow> fits32 n"
  by (simp_all add: fits32_def k_defs)

lemma request_flag_bits:
  "request_flags c AND 1 \<noteq> 0 \<longleftrightarrow>
     tc_constrained c \<or> sc_constraint (tc_sampling c) \<noteq> None \<or> tc_source c \<noteq> None"
  "request_flags c AND 2 = 0 \<longleftrightarrow> tc_stop_at_eos c"
  "request_flags c AND 4 \<noteq> 0 \<longleftrightarrow> tc_source c \<noteq> None"
  "request_flags c AND 8 \<noteq> 0 \<longleftrightarrow> tc_reasoning_budget c \<noteq> None"
  "\<not> request_flags c > 15"
  "tc_source c \<noteq> None \<Longrightarrow> request_flags c AND 1 \<noteq> 0"
  unfolding request_flags_def
  by (cases "tc_constrained c \<or> sc_constraint (tc_sampling c) \<noteq> None \<or> tc_source c \<noteq> None";
      cases "tc_stop_at_eos c"; cases "tc_source c \<noteq> None"; cases "tc_reasoning_budget c \<noteq> None";
      simp add: flag_def)+

lemma flag_one: "\<not> flag b 1 > (1 :: u32)" "flag b 1 \<noteq> 0 \<longleftrightarrow> b"
  by (simp_all add: flag_def)

lemma u32_size_eq_0: "fits32 n \<Longrightarrow> u32_size n = 0 \<longleftrightarrow> n = 0"
  using unat_u32_size[of n] by (auto simp: word_unat_eq_iff)

lemma logprobs_wire:
  assumes "validate_sampling c = None"
  shows "\<not> (case sc_logprobs c of None \<Rightarrow> 0 | Some n \<Rightarrow> n + 1) > 21"
    and "(if (case sc_logprobs c of None \<Rightarrow> 0 | Some n \<Rightarrow> n + 1) \<noteq> 0
          then Some ((case sc_logprobs c of None \<Rightarrow> 0 | Some n \<Rightarrow> n + 1) - 1) else None) = sc_logprobs c"
proof -
  have small: "\<not> n + 1 > (21 :: u32) \<and> n + 1 \<noteq> 0" if "sc_logprobs c = Some n" for n
  proof -
    have "unat n \<le> 20" using validate_sampling_logprobs[OF assms that] by (simp add: word_le_nat_alt)
    then have "unat (n + 1) = unat n + 1" by (simp add: unat_word_ariths)
    with \<open>unat n \<le> 20\<close> show ?thesis by (auto simp: word_less_nat_alt word_unat_eq_iff)
  qed
  then show "\<not> (case sc_logprobs c of None \<Rightarrow> 0 | Some n \<Rightarrow> n + 1) > 21"
    and "(if (case sc_logprobs c of None \<Rightarrow> 0 | Some n \<Rightarrow> n + 1) \<noteq> 0
          then Some ((case sc_logprobs c of None \<Rightarrow> 0 | Some n \<Rightarrow> n + 1) - 1) else None) = sc_logprobs c"
    by (auto split: option.splits)
qed

definition request_ok :: "tp_command \<Rightarrow> bool" where
  "request_ok c \<longleftrightarrow> tc_prompt_tokens c \<noteq> [] \<and> length (tc_prompt_tokens c) \<le> k_max_prompt_tokens \<and>
     length (tc_client_id c) \<le> k_max_client_id_bytes \<and>
     length (tc_prompt_context c) \<le> k_max_prompt_context_bytes \<and>
     validate_sampling (tc_sampling c) = None \<and> (\<forall>s. tc_source c = Some s \<longrightarrow> source_ok s)"

definition prompt_part :: "tp_command \<Rightarrow> u8 list" where
  "prompt_part c = u32_bytes (tc_max_tokens c) @ u32_bytes (flag (tc_cache_prompt c) 1) @
     u32_bytes (tc_cache_prefix c) @ u32_bytes (u32_size (length (tc_prompt_tokens c))) @
     u32_bytes (u32_size (length (tc_client_id c))) @
     u32_bytes (u32_size (length (tc_prompt_context c))) @
     concat (map u32_bytes (tc_prompt_tokens c)) @ bytes_of_string (tc_client_id c) @
     tc_prompt_context c"

lemma read_prompt_part:
  assumes "request_ok c"
  shows "read_prompt p (prompt_part c @ rest) =
    Inr (p\<lparr>tc_kind := KSingle, tc_max_tokens := tc_max_tokens c, tc_cache_prefix := tc_cache_prefix c,
       tc_cache_prompt := tc_cache_prompt c, tc_prompt_tokens := tc_prompt_tokens c,
       tc_client_id := tc_client_id c, tc_prompt_context := tc_prompt_context c\<rparr>, rest)"
proof -
  have fits: "fits32 (length (tc_prompt_tokens c))" "fits32 (length (tc_client_id c))"
    "fits32 (length (tc_prompt_context c))"
    using assms by (auto simp: request_ok_def intro: small_fits32)
  have many: "read_many read_u32 (length (tc_prompt_tokens c))
      (concat (map u32_bytes (tc_prompt_tokens c)) @ r) = Some (tc_prompt_tokens c, r)" for r
    by (rule u32c.dec_many) simp
  show ?thesis
    using assms fits many
    by (simp add: read_prompt_def prompt_part_def wire_simps flag_one u32_size_eq_0 unat_u32_size
        request_ok_def length_words32)
qed

lemma read_request_bytes:
  assumes "request_ok c"
  shows "read_request p (request_bytes c @ rest) =
    Inr (p\<lparr>tc_kind := KSingle, tc_max_tokens := tc_max_tokens c, tc_cache_prefix := tc_cache_prefix c,
       tc_cache_prompt := tc_cache_prompt c, tc_prompt_tokens := tc_prompt_tokens c,
       tc_client_id := tc_client_id c, tc_prompt_context := tc_prompt_context c,
       tc_constrained := tc_constrained c \<or> sc_constraint (tc_sampling c) \<noteq> None \<or> tc_source c \<noteq> None,
       tc_stop_at_eos := tc_stop_at_eos c, tc_source := tc_source c,
       tc_reasoning_budget := tc_reasoning_budget c,
       tc_sampling := (tc_sampling c)\<lparr>sc_constraint := None, sc_reasoning_budget := None\<rparr>\<rparr>, rest)"
proof -
  let ?tail = "(case tc_source c of None \<Rightarrow> [] | Some s \<Rightarrow> source_bytes s) @
     (case tc_reasoning_budget c of None \<Rightarrow> [] | Some n \<Rightarrow> u64_bytes n) @ rest"
  have bytes: "request_bytes c @ rest =
      prompt_part c @ sampling_bytes (tc_sampling c) @ u32_bytes (request_flags c) @ ?tail"
    by (simp add: request_bytes_def prompt_part_def)
  have v: "validate_sampling (tc_sampling c) = None" using assms by (simp add: request_ok_def)
  have src: "(if request_flags c AND 4 \<noteq> 0 then map_sum id (\<lambda>(s, d). (Some s, d)) (read_source ?tail)
      else Inr (None, ?tail)) =
      Inr (tc_source c, (case tc_reasoning_budget c of None \<Rightarrow> [] | Some n \<Rightarrow> u64_bytes n) @ rest)"
    using assms by (cases "tc_source c") (auto simp: request_flag_bits read_source_bytes request_ok_def)
  have bud: "(if request_flags c AND 8 \<noteq> 0 then map_option (\<lambda>(n, d). (Some n, d))
        (read_u64 ((case tc_reasoning_budget c of None \<Rightarrow> [] | Some n \<Rightarrow> u64_bytes n) @ rest))
      else Some (None, (case tc_reasoning_budget c of None \<Rightarrow> [] | Some n \<Rightarrow> u64_bytes n) @ rest)) =
      Some (tc_reasoning_budget c, rest)"
    by (cases "tc_reasoning_budget c") (simp_all add: request_flag_bits wire_simps)
  have flags: "\<not> (request_flags c > 15 \<or> request_flags c AND 4 \<noteq> 0 \<and> request_flags c AND 1 = 0)"
    using request_flag_bits[of c] by auto
  show ?thesis
    unfolding read_request_def bytes read_prompt_part[OF assms] sum.case prod.case
      read_sampling_bytes option.case if_not_P[OF logprobs_wire(1)[OF v]] if_not_P[OF flags] src bud
      logprobs_wire(2)[OF v] request_flag_bits(1,2)
    by simp
qed

section \<open>Instructions\<close>

lemma read_instruction_bytes:
  assumes "length (ti_batch i) \<le> k_max_batch_members"
  shows "read_instruction p (instruction_bytes i) =
    Inr (p\<lparr>tc_kind := KInstruction, tc_instruction := i\<rparr>, [])"
proof -
  have many: "read_many read_member (length (ti_batch i)) (concat (map member_bytes (ti_batch i))) =
      Some (ti_batch i, [])"
    using memc.dec_many[of "ti_batch i" "[]"] by simp
  have "fits32 (length (ti_batch i))" using assms by (rule small_fits32)
  then have n: "unat (u32_size (length (ti_batch i))) = length (ti_batch i)" by (rule unat_u32_size)
  show ?thesis
    unfolding read_instruction_def instruction_bytes_def
    using assms by (simp add: wire_simps n many not_less)
qed

section \<open>Sizes\<close>

text \<open>A payload that fits a frame holds no string or vector whose size does not fit its length
  field.\<close>

lemma length_concat_mem: "x \<in> set xs \<Longrightarrow> length (f x) \<le> length (concat (map f xs))"
  by (induction xs) auto

lemma source_ok_of_length:
  assumes "length (source_bytes s) \<le> k_max_payload_bytes"
  shows "source_ok s"
proof -
  have fits: "fits32 n" if "n \<le> length (source_bytes s)" for n
    using that assms by (intro small_fits32(5)) simp
  have tools: "length (concat (map tool_bytes (src_tools s))) \<le> length (source_bytes s)"
    by (simp add: source_bytes_def)
  have "tool_ok t" if "t \<in> set (src_tools s)" for t
  proof -
    have "length (tool_bytes t) \<le> length (source_bytes s)"
      using length_concat_mem[OF that, of tool_bytes] tools by simp
    then show ?thesis unfolding tool_ok_def by (intro conjI fits) (simp_all add: tool_bytes_def wire_length)
  qed
  moreover have "length (src_tools s) \<le> length (source_bytes s)"
    using length_tools[of "src_tools s"] tools by simp
  ultimately show ?thesis
    unfolding source_ok_def by (intro conjI fits) (auto simp: source_bytes_def wire_length)
qed

lemma request_ok_of_valid:
  assumes "validate_command c = None" "tc_kind c = KSingle"
    and "length (command_payload c) \<le> k_max_payload_bytes"
  shows "request_ok c"
proof -
  have "source_ok s" if "tc_source c = Some s" for s
    using assms(2,3) that by (intro source_ok_of_length) (simp add: command_payload_def request_bytes_def)
  with validate_commandD[OF assms(1)] assms(2) show ?thesis
    by (auto simp: request_ok_def)
qed

section \<open>Commands\<close>

lemma validate_wire_view:
  assumes "validate_command c = None"
  shows "validate_command (wire_view c) = None"
  using validate_commandD[OF assms]
proof
  assume c: "tc_kind c = KSingle \<and> tc_instruction c = default_instruction \<and>
      tc_max_tokens c \<noteq> 0 \<and> tc_prompt_tokens c \<noteq> [] \<and>
      length (tc_prompt_tokens c) \<le> k_max_prompt_tokens \<and>
      unat (tc_cache_prefix c) \<le> length (tc_prompt_tokens c) \<and>
      length (tc_client_id c) \<le> k_max_client_id_bytes \<and>
      length (tc_prompt_context c) \<le> k_max_prompt_context_bytes \<and>
      validate_sampling (tc_sampling c) = None"
  then have "\<not> list_ex (\<lambda>t. sint t < 0) (tc_prompt_tokens c)"
    using assms by (auto simp: validate_command_def split: if_splits)
  with c show ?thesis
    by (simp add: validate_command_def wire_view_def validate_sampling_drop)
next
  have d: "is_default_sampling default_sampling"
    by (simp add: is_default_sampling_def default_sampling_def f32_eq_def)
  assume "tc_kind c = KInstruction \<and> \<not> has_request_fields c \<and>
      validate_instruction (tc_sequence c) (tc_instruction c) = None"
  with d show ?thesis
    by (simp add: validate_command_def wire_view_def has_request_fields_def default_command_def)
      (simp add: default_sampling_def)
qed

lemma kind_codes: "kind_code KSingle \<noteq> kind_code KInstruction" by simp

lemma parse_command_payload:
  assumes valid: "validate_command c = None"
    and size: "length (command_payload c) \<le> k_max_payload_bytes"
    and ctx: "max_context \<noteq> 0" "length (tc_prompt_tokens c) \<le> unat max_context"
  shows "parse_command max_context (tc_sequence c) (command_payload c) = Inr (wire_view c)"
proof (cases "tc_kind c = KSingle")
  case True
  have ok: "request_ok c" by (rule request_ok_of_valid[OF valid True size])
  have "tc_instruction c = default_instruction"
    using validate_commandD[OF valid] True by auto
  then have "read_request (default_command\<lparr>tc_sequence := tc_sequence c\<rparr>) (request_bytes c) =
      Inr (wire_view c, [])"
    using read_request_bytes[OF ok, of "default_command\<lparr>tc_sequence := tc_sequence c\<rparr>" "[]"] True
    by (simp add: wire_view_def default_command_def)
  moreover have "tc_prompt_tokens (wire_view c) = tc_prompt_tokens c" using True by (simp add: wire_view_def)
  ultimately show ?thesis
    using True ctx validate_wire_view[OF valid]
    by (simp add: parse_command_def command_payload_def wire_simps not_less)
next
  case False
  then have k: "tc_kind c = KInstruction" "validate_instruction (tc_sequence c) (tc_instruction c) = None"
    using validate_commandD[OF valid] by auto
  have "read_instruction (default_command\<lparr>tc_sequence := tc_sequence c\<rparr>) (instruction_bytes (tc_instruction c)) =
      Inr (wire_view c, [])"
    using read_instruction_bytes[OF validate_instructionD(2)[OF k(2)]] k(1)
    by (simp add: wire_view_def default_command_def)
  moreover have "tc_prompt_tokens (wire_view c) = []" using k by (simp add: wire_view_def default_command_def)
  ultimately show ?thesis
    using k ctx validate_wire_view[OF valid]
    by (simp add: parse_command_def command_payload_def wire_simps)
qed

section \<open>Responses\<close>

lemma parse_response_payload:
  assumes valid: "validate_response r = None"
  shows "parse_response (rs_sequence r) (response_payload r) =
    Inr (if rs_kind r = RInstruction
         then default_response\<lparr>rs_sequence := rs_sequence r, rs_kind := RInstruction,
                rs_instruction_index := rs_instruction_index r, rs_error := rs_error r\<rparr>
         else r)"
proof -
  let ?err = "u32_bytes (u32_size (length (rs_error r))) @ bytes_of_string (rs_error r)"
  have e: "length (rs_error r) \<le> k_max_error_bytes"
    using valid by (auto simp: validate_response_def split: if_splits)
  have n: "unat (u32_size (length (rs_error r))) = length (rs_error r)"
    using e by (intro unat_u32_size small_fits32(4))
  have err: "(do { (error_size, d) \<leftarrow> read_u32 ?err;
        (if unat error_size > k_max_error_bytes \<or> length d \<noteq> unat error_size then None else Some d) }) =
      Some (bytes_of_string (rs_error r))"
    using e by (simp add: wire_simps n not_less)
  consider (ack) "rs_kind r = RInstruction" | (final) "rs_kind r = RSingle"
    using valid by (auto simp: validate_response_def split: if_splits)
  then show ?thesis
  proof cases
    case ack
    then show ?thesis
      using valid err
      by (simp add: parse_response_def read_response_body_def response_payload_def wire_simps validate_response_def
          has_result_fields_def default_response_def split: if_splits)
  next
    case final
    then have v: "rs_instruction_index r = 0" "length (rs_tokens r) \<le> k_max_prompt_tokens"
      using valid by (auto simp: validate_response_def split: if_splits)
    have t: "unat (u32_size (length (rs_tokens r))) = length (rs_tokens r)"
      using v(2) by (intro unat_u32_size small_fits32(1))
    have many: "read_many read_u32 (length (rs_tokens r)) (concat (map u32_bytes (rs_tokens r)) @ d) =
        Some (rs_tokens r, d)" for d
      by (rule u32c.dec_many) simp
    show ?thesis
      using valid final err v t many
      by (cases r) (simp add: parse_response_def read_response_body_def response_payload_def read_result_def wire_simps length_words32
          default_response_def not_less)
  qed
qed

end
