(* ===== verification/Tp_Canonical.thy ===== *)
theory Tp_Canonical
  imports Tp_Roundtrip
begin

text \<open>
  The encoding is canonical: a payload that a rank accepts is exactly the encoding of the message
  it accepted, so no two payloads mean the same command or response.
\<close>

section \<open>Small flag words\<close>

lemma small_word:
  fixes w :: u32
  assumes "unat w < n"
  shows "w \<in> set (map word_of_nat [0..<n])"
proof -
  have "w = word_of_nat (unat w)" by simp
  with assms show ?thesis by (metis atLeastLessThan_iff imageI list.set_map set_upt zero_le)
qed

lemma flags_upto_7: "w \<le> (7 :: u32) \<Longrightarrow> w \<in> {0, 1, 2, 3, 4, 5, 6, 7}"
  using small_word[of w 8] by (auto simp: word_le_nat_alt upt_rec)

lemma flags_upto_15:
  "w \<le> (15 :: u32) \<Longrightarrow> w \<in> {0, 1, 2, 3, 4, 5, 6, 7, 8, 9, 10, 11, 12, 13, 14, 15}"
  using small_word[of w 16] by (auto simp: word_le_nat_alt upt_rec)

lemma recompose_7:
  assumes "\<not> w > (7 :: u32)"
  shows "flag (w AND 1 \<noteq> 0) 1 OR flag (w AND 2 \<noteq> 0) 2 OR flag (w AND 4 \<noteq> 0) 4 = w"
proof -
  from assms have "w \<in> {0, 1, 2, 3, 4, 5, 6, 7}" by (intro flags_upto_7) simp
  then show ?thesis by (elim insertE emptyE) (simp_all add: flag_def)
qed

lemma recompose_15:
  assumes "\<not> w > (15 :: u32)"
  shows "flag (w AND 1 \<noteq> 0) 1 OR flag (w AND 2 \<noteq> 0) 2 OR flag (w AND 4 \<noteq> 0) 4 OR
    flag (w AND 8 \<noteq> 0) 8 = w"
proof -
  from assms have "w \<in> {0, 1, 2, 3, 4, 5, 6, 7, 8, 9, 10, 11, 12, 13, 14, 15}" by (intro flags_upto_15) simp
  then show ?thesis by (elim insertE emptyE) (simp_all add: flag_def)
qed

lemma recompose_1: "\<not> w > (1 :: u32) \<Longrightarrow> flag (w \<noteq> 0) 1 = w"
  using small_word[of w 2] by (auto simp: flag_def word_less_nat_alt upt_rec)

lemma u8_round: "\<not> w > (0xff :: u32) \<Longrightarrow> ucast (ucast w :: u8) = w"
proof -
  assume "\<not> w > (0xff :: u32)"
  then have "unat w < 256" by (simp add: word_less_nat_alt)
  then show ?thesis
    by (simp add: word_unat_eq_iff unsigned_ucast_eq take_bit_eq_mod unat_mod)
qed

section \<open>Commands\<close>

lemma read_source_inverse:
  assumes "read_source d = Inr (s, rest)"
  shows "d = source_bytes s @ rest"
  using assms
  by (auto simp: read_source_def source_bytes_def bind_eq_Some_conv recompose_7 u8_round
      split: option.splits if_splits dest!: strc.enc_dec wire_inverse toolc.many_enc)

lemma read_prompt_inverse:
  assumes "read_prompt p d = Inr (q, rest)"
  shows "d = prompt_part q @ rest \<and>
    q = p\<lparr>tc_kind := KSingle, tc_max_tokens := tc_max_tokens q, tc_cache_prefix := tc_cache_prefix q,
      tc_cache_prompt := tc_cache_prompt q, tc_prompt_tokens := tc_prompt_tokens q,
      tc_client_id := tc_client_id q, tc_prompt_context := tc_prompt_context q\<rparr>"
proof -
  from assms obtain mt cp cx pc cs xs d' toks d'' where
    d: "d = u32_bytes mt @ u32_bytes cp @ u32_bytes cx @ u32_bytes pc @ u32_bytes cs @ u32_bytes xs @ d'"
    and b: "\<not> cp > 1" "unat pc * 4 + unat cs + unat xs \<le> length d'"
    and many: "read_many read_u32 (unat pc) d' = Some (toks, d'')"
    and q: "q = p\<lparr>tc_kind := KSingle, tc_max_tokens := mt, tc_cache_prefix := cx,
        tc_cache_prompt := (cp \<noteq> 0), tc_prompt_tokens := toks,
        tc_client_id := string_of_bytes (take (unat cs) d''),
        tc_prompt_context := take (unat xs) (drop (unat cs) d'')\<rparr>"
    and r: "rest = drop (unat xs) (drop (unat cs) d'')"
    by (auto simp: read_prompt_def bind_eq_Some_conv split: option.splits if_splits dest!: wire_inverse)
  from u32c.many_enc[OF many] have t: "d' = concat (map u32_bytes toks) @ d''" "length toks = unat pc"
    by simp_all
  with b(2) have len: "unat cs + unat xs \<le> length d''" by (simp add: length_words32)
  have split: "d'' = take (unat cs) d'' @ take (unat xs) (drop (unat cs) d'') @ drop (unat xs) (drop (unat cs) d'')"
    by (simp only: append_take_drop_id)
  from len have "length (take (unat cs) d'') = unat cs" "length (take (unat xs) (drop (unat cs) d'')) = unat xs"
    by auto
  with t split b(1) show ?thesis
    by (simp add: d q r prompt_part_def recompose_1 min_def del: drop_drop)
qed

lemma read_sampling_inverse:
  assumes "read_sampling d = Some (c, logprobs, flags, rest)" and "\<not> logprobs > 21"
  shows "d = sampling_bytes (c\<lparr>sc_logprobs := (if logprobs \<noteq> 0 then Some (logprobs - 1) else None)\<rparr>) @
      u32_bytes flags @ rest \<and> sc_constraint c = None \<and> sc_reasoning_budget c = None"
  using assms
  by (auto simp: read_sampling_def sampling_bytes_def bind_eq_Some_conv dest!: wire_inverse)

lemma read_request_inverse:
  assumes "read_request p d = Inr (q, rest)"
  shows "d = request_bytes q @ rest \<and> tc_kind q = KSingle \<and> tc_sequence q = tc_sequence p \<and>
    tc_instruction q = tc_instruction p"
proof -
  from assms obtain q1 d1 config logprobs flags d2 source d3 budget where
    q1: "read_prompt p d = Inr (q1, d1)" and s: "read_sampling d1 = Some (config, logprobs, flags, d2)"
    and ok: "\<not> logprobs > 21" "\<not> flags > 15" "flags AND 4 \<noteq> 0 \<longrightarrow> flags AND 1 \<noteq> 0"
    and src: "(if flags AND 4 \<noteq> 0 then map_sum id (\<lambda>(s, d). (Some s, d)) (read_source d2)
            else Inr (None, d2)) = Inr (source, d3)"
    and bud: "(if flags AND 8 \<noteq> 0 then map_option (\<lambda>(n, d). (Some n, d)) (read_u64 d3)
            else Some (None, d3)) = Some (budget, rest)"
    and q: "q = q1\<lparr>tc_constrained := (flags AND 1 \<noteq> 0), tc_stop_at_eos := (flags AND 2 = 0),
                 tc_source := source, tc_reasoning_budget := budget,
                 tc_sampling := config\<lparr>sc_logprobs :=
                   (if logprobs \<noteq> 0 then Some (logprobs - 1) else None)\<rparr>\<rparr>"
    unfolding read_request_def by (auto split: sum.splits option.splits if_splits)
  have d2: "d2 = (case source of None \<Rightarrow> [] | Some s \<Rightarrow> source_bytes s) @ d3 \<and>
      (source \<noteq> None \<longleftrightarrow> flags AND 4 \<noteq> 0)"
    using src by (cases "read_source d2") (auto split: if_splits dest: read_source_inverse)
  have d3: "d3 = (case budget of None \<Rightarrow> [] | Some n \<Rightarrow> u64_bytes n) @ rest \<and>
      (budget \<noteq> None \<longleftrightarrow> flags AND 8 \<noteq> 0)"
    using bud by (auto split: if_splits dest: wire_inverse)
  note sam = read_sampling_inverse[OF s ok(1)]
  have "request_flags q = flags"
    using d2 d3 sam ok(3) recompose_15[OF ok(2)]
    by (cases "flags AND 4 = 0") (auto simp: request_flags_def q)
  moreover have "prompt_part q = prompt_part q1" by (simp add: q prompt_part_def)
  moreover have "request_bytes q @ r = prompt_part q @ sampling_bytes (tc_sampling q) @ u32_bytes (request_flags q) @
      (case source of None \<Rightarrow> [] | Some s \<Rightarrow> source_bytes s) @
      (case budget of None \<Rightarrow> [] | Some n \<Rightarrow> u64_bytes n) @ r" for r
    by (simp add: request_bytes_def prompt_part_def q)
  moreover have "tc_kind q1 = KSingle \<and> tc_sequence q1 = tc_sequence p \<and> tc_instruction q1 = tc_instruction p"
    by (subst (1 2 3) conjunct2[OF read_prompt_inverse[OF q1]]) simp
  ultimately show ?thesis
    using read_prompt_inverse[OF q1] sam d2 d3 by (simp add: q)
qed

lemma op_code_of_code:
  assumes "op_of_code c = Some x"
  shows "op_code x = c"
proof -
  from assms have "c \<le> 15" by (auto simp: op_of_code_def split: if_splits)
  then have "c \<in> {0, 1, 2, 3, 4, 5, 6, 7, 8, 9, 10, 11, 12, 13, 14, 15}" by (rule flags_upto_15)
  with assms show ?thesis
    by (elim insertE emptyE) (auto simp: op_of_code_def all_ops_def)
qed

lemma read_instruction_inverse:
  assumes "read_instruction p d = Inr (q, rest)"
  shows "d = instruction_bytes (tc_instruction q) @ rest \<and> tc_kind q = KInstruction \<and>
    tc_sequence q = tc_sequence p"
  using assms
  by (auto simp: read_instruction_def instruction_bytes_def bind_eq_Some_conv op_code_of_code
      split: option.splits if_splits dest!: wire_inverse memc.many_enc)

lemma parse_command_inverse:
  assumes "parse_command max_context sequence payload = Inr c"
  shows "payload = command_payload c" and "validate_command c = None" and "tc_sequence c = sequence"
    and "length (tc_prompt_tokens c) \<le> unat max_context"
proof -
  from assms obtain kind d where
    pd: "payload = u64_bytes sequence @ u32_bytes kind @ d"
    and body: "(if kind = kind_code KSingle
            then read_request (default_command\<lparr>tc_sequence := sequence\<rparr>) d
            else if kind = kind_code KInstruction
            then read_instruction (default_command\<lparr>tc_sequence := sequence\<rparr>) d
            else Inl ''TP control command kind is invalid'') = Inr (c, [])"
    and v: "validate_command c = None" "length (tc_prompt_tokens c) \<le> unat max_context"
    unfolding parse_command_def
    by (auto simp: bind_eq_Some_conv split: option.splits sum.splits if_splits dest!: wire_inverse)
  from v show "validate_command c = None" "length (tc_prompt_tokens c) \<le> unat max_context" by auto
  have "payload = command_payload c \<and> tc_sequence c = sequence"
  proof (cases "kind = kind_code KSingle")
    case True
    with body have "read_request (default_command\<lparr>tc_sequence := sequence\<rparr>) d = Inr (c, [])" by simp
    from read_request_inverse[OF this] pd True show ?thesis
      by (simp add: command_payload_def)
  next
    case False
    with body have k: "kind = kind_code KInstruction"
      and "read_instruction (default_command\<lparr>tc_sequence := sequence\<rparr>) d = Inr (c, [])"
      by (auto split: if_splits)
    from read_instruction_inverse[OF this(2)] pd k show ?thesis
      by (simp add: command_payload_def)
  qed
  then show "payload = command_payload c" "tc_sequence c = sequence" by simp_all
qed

section \<open>Responses\<close>

lemma parse_response_inverse:
  assumes "parse_response sequence payload = Inr r"
  shows "payload = response_payload r" and "validate_response r = None" and "rs_sequence r = sequence"
proof -
  from assms obtain kind d parsed sz e where
    pd: "payload = u64_bytes sequence @ u32_bytes kind @ d"
    and body0: "read_response_body sequence kind d = Inr (parsed, u32_bytes sz @ e)" "length e = unat sz"
    and r: "r = parsed\<lparr>rs_error := string_of_bytes e\<rparr>" "validate_response r = None"
    unfolding parse_response_def
    by (auto simp: bind_eq_Some_conv split: option.splits sum.splits if_splits dest!: wire_inverse)
  have body: "read_response_body sequence kind d = Inr (parsed, u32_bytes (u32_size (length e)) @ e)"
    using body0 by simp
  from r show "validate_response r = None" by simp
  have "payload = response_payload r \<and> rs_sequence r = sequence"
  proof (cases "kind = rkind_code RInstruction")
    case True
    with body obtain index where "read_u64 d = Some (index, u32_bytes (u32_size (length e)) @ e)"
      and "parsed = default_response\<lparr>rs_sequence := sequence, rs_kind := RInstruction,
                             rs_instruction_index := index\<rparr>"
      by (auto simp: read_response_body_def split: option.splits)
    with pd True r show ?thesis
      by (auto simp: response_payload_def default_response_def dest!: wire_inverse)
  next
    case False
    with body have k: "kind = rkind_code RSingle"
      and "read_result (default_response\<lparr>rs_sequence := sequence\<rparr>) d =
        Some (parsed, u32_bytes (u32_size (length e)) @ e)"
      by (auto simp: read_response_body_def split: if_splits option.splits)
    then show ?thesis
      using pd r
      by (auto simp: read_result_def response_payload_def default_response_def bind_eq_Some_conv
          split: if_splits dest!: wire_inverse u32c.many_enc)
  qed
  then show "payload = response_payload r" "rs_sequence r = sequence" by simp_all
qed

end
