(* ===== verification/Tp_Channel.thy ===== *)
theory Tp_Channel
  imports Tp_Canonical
begin

text \<open>
  The control channel over its socket (\<open>TpControlChannel\<close> in
  \<open>src/cli/serve/tp_control.cpp\<close>): \<open>SendAll\<close>, \<open>RecvAll\<close>, frames, and the four message calls. The
  kernel's answers to \<open>send\<close> and \<open>recv\<close> are scripts, lists of the results that the calls return
  one after the other; a call that is still blocked when its script ends has the value \<open>None\<close>.
\<close>

section \<open>The socket\<close>

text \<open>\<open>Accepted n\<close>: \<open>send\<close> took \<open>n\<close> bytes of those offered. \<open>Arrived bs\<close>: the bytes \<open>bs\<close> came in; a
  \<open>recv\<close> that asks for fewer leaves the rest for the next call, and an empty arrival is the
  peer's orderly close, as a return value of 0 is. A failure carries \<open>strerror(errno)\<close>.\<close>

datatype send_event = Accepted nat | SendInterrupted | SendFailed string
datatype recv_event = Arrived "u8 list" | RecvInterrupted | RecvFailed string

fun send_all :: "send_event list \<Rightarrow> u8 list \<Rightarrow> (send_event list \<times> u8 list \<times> string option) option" where
  "send_all script [] = Some (script, [], None)"
| "send_all [] (b # bs) = None"
| "send_all (Accepted n # script) (b # bs) =
     (if n = 0 then Some (script, [], Some ''TP control send'')
      else map_option (\<lambda>(s, out, e). (s, take n (b # bs) @ out, e))
             (send_all script (drop n (b # bs))))"
| "send_all (SendInterrupted # script) (b # bs) = send_all script (b # bs)"
| "send_all (SendFailed errno # script) (b # bs) = Some (script, [], Some (''TP control send: '' @ errno))"

fun recv_all :: "recv_event list \<Rightarrow> nat \<Rightarrow> (recv_event list \<times> (string + u8 list)) option" where
  "recv_all script 0 = Some (script, Inr [])"
| "recv_all [] (Suc n) = None"
| "recv_all (Arrived bs # script) (Suc n) =
     (if bs = [] then Some (script, Inl ''TP control peer closed the channel'')
      else if length bs \<le> Suc n
      then map_option (\<lambda>(s, r). (s, map_sum id (\<lambda>more. bs @ more) r)) (recv_all script (Suc n - length bs))
      else Some (Arrived (drop (Suc n) bs) # script, Inr (take (Suc n) bs)))"
| "recv_all (RecvInterrupted # script) (Suc n) = recv_all script (Suc n)"
| "recv_all (RecvFailed errno # script) (Suc n) = Some (script, Inl (''TP control receive: '' @ errno))"

section \<open>The channel\<close>

record channel =
  ch_open :: bool
  ch_rank :: u32
  ch_world_size :: u32
  ch_max_context :: u32
  ch_handshaken :: bool
  ch_snapshot_budget :: u64
  ch_interrupted :: bool

text \<open>The constructor: a connected socket, before the handshake.\<close>

definition new_channel :: "u32 \<Rightarrow> channel" where
  "new_channel rank =
     \<lparr>ch_open = True, ch_rank = rank, ch_world_size = 1, ch_max_context = 0, ch_handshaken = False,
      ch_snapshot_budget = 0, ch_interrupted = False\<rparr>"

definition interrupt :: "channel \<Rightarrow> channel" where
  "interrupt ch = ch\<lparr>ch_interrupted := True\<rparr>"

definition close_channel :: "channel \<Rightarrow> channel" where
  "close_channel ch = ch\<lparr>ch_interrupted := True, ch_open := False\<rparr>"

section \<open>Frames\<close>

definition frame_bytes :: "u16 \<Rightarrow> u64 \<Rightarrow> u8 list \<Rightarrow> u8 list" where
  "frame_bytes type sequence payload =
     u32_bytes k_magic @ [ucast k_version, ucast (drop_bit 8 k_version), ucast type, ucast (drop_bit 8 type)] @
     u32_bytes (u32_size (length payload)) @ u64_bytes sequence @ payload"

type_synonym send_result = "(send_event list \<times> u8 list \<times> string option) option"
type_synonym 'a recv_result = "(recv_event list \<times> (string + 'a)) option"

definition send_frame ::
  "channel \<Rightarrow> send_event list \<Rightarrow> u16 \<Rightarrow> u64 \<Rightarrow> u8 list \<Rightarrow> send_result" where
  "send_frame ch script type sequence payload =
     (if ch_interrupted ch then Some (script, [], Some ''TP control channel is interrupted'')
      else if \<not> ch_open ch \<or> length payload > k_max_payload_bytes \<or> length payload > 2 ^ 32 - 1
      then Some (script, [], Some ''TP control frame is invalid or too large'')
      else send_all script (frame_bytes type sequence payload))"

text \<open>The header check: magic, version, type, then the length against the bound in force.\<close>

definition read_header :: "nat \<Rightarrow> u16 \<Rightarrow> u8 list \<Rightarrow> string + (u32 \<times> u64)" where
  "read_header bound type header =
     (case read_u32 header of
        None \<Rightarrow> Inl ''TP control frame header is invalid''
      | Some (magic, d) \<Rightarrow>
          if magic \<noteq> k_magic \<or> header ! 4 \<noteq> 22 \<or> header ! 5 \<noteq> 0 \<or>
             header ! 6 \<noteq> ucast type \<or> header ! 7 \<noteq> ucast (drop_bit 8 type)
          then Inl ''TP control frame header is invalid''
          else
            (case (do {
               (bytes, d) \<leftarrow> read_u32 (drop 4 d);
               (if unat bytes > bound then None else Some ());
               (sequence, d) \<leftarrow> read_u64 d;
               Some (bytes, sequence)
             }) of
               None \<Rightarrow> Inl ''TP control frame length is invalid''
             | Some r \<Rightarrow> Inr r))"

definition receive_frame ::
  "channel \<Rightarrow> recv_event list \<Rightarrow> u16 \<Rightarrow> (u64 \<times> u8 list) recv_result" where
  "receive_frame ch script type =
     (if ch_interrupted ch then Some (script, Inl ''TP control channel is interrupted'')
      else if \<not> ch_open ch then Some (script, Inl ''TP control receive state is invalid'')
      else do {
        (script, r) \<leftarrow> recv_all script 20;
        (case r of
           Inl e \<Rightarrow> Some (script, Inl e)
         | Inr header \<Rightarrow>
             (case read_header (if ch_handshaken ch then k_max_payload_bytes else k_max_hello_bytes)
                     type header of
                Inl e \<Rightarrow> Some (script, Inl e)
              | Inr (bytes, sequence) \<Rightarrow> do {
                  (script, r) \<leftarrow> recv_all script (unat bytes);
                  Some (script, map_sum id (\<lambda>payload. (sequence, payload)) r)
                }))
      })"

section \<open>Messages\<close>

definition send_command :: "channel \<Rightarrow> send_event list \<Rightarrow> tp_command \<Rightarrow> send_result" where
  "send_command ch script c =
     (if \<not> ch_handshaken ch \<or> ch_rank ch \<noteq> 0
      then Some (script, [], Some ''TP control command is invalid'')
      else
        (case validate_command c of
           Some e \<Rightarrow> Some (script, [], Some e)
         | None \<Rightarrow>
             if ch_max_context ch = 0 \<or> length (tc_prompt_tokens c) > unat (ch_max_context ch)
             then Some (script, [], Some ''TP control command exceeds the negotiated context'')
             else send_frame ch script k_command (tc_sequence c) (command_payload c)))"

definition receive_command :: "channel \<Rightarrow> recv_event list \<Rightarrow> tp_command recv_result" where
  "receive_command ch script =
     (if \<not> ch_handshaken ch \<or> ch_rank ch \<noteq> 1
      then Some (script, Inl ''TP control command role is invalid'')
      else do {
        (script, r) \<leftarrow> receive_frame ch script k_command;
        Some (script,
              case r of
                Inl e \<Rightarrow> Inl e
              | Inr (sequence, payload) \<Rightarrow> parse_command (ch_max_context ch) sequence payload)
      })"

definition send_response :: "channel \<Rightarrow> send_event list \<Rightarrow> tp_response \<Rightarrow> send_result" where
  "send_response ch script r =
     (if \<not> ch_handshaken ch \<or> ch_rank ch \<noteq> 1
      then Some (script, [], Some ''TP control response is invalid'')
      else
        (case validate_response r of
           Some e \<Rightarrow> Some (script, [], Some e)
         | None \<Rightarrow> send_frame ch script k_response (rs_sequence r) (response_payload r)))"

definition receive_response :: "channel \<Rightarrow> recv_event list \<Rightarrow> tp_response recv_result" where
  "receive_response ch script =
     (if \<not> ch_handshaken ch \<or> ch_rank ch \<noteq> 0
      then Some (script, Inl ''TP control response role is invalid'')
      else do {
        (script, r) \<leftarrow> receive_frame ch script k_response;
        Some (script,
              case r of
                Inl e \<Rightarrow> Inl e
              | Inr (sequence, payload) \<Rightarrow> parse_response sequence payload)
      })"

section \<open>Streams of bytes\<close>

text \<open>What a script delivers, whatever the segments and interruptions it comes in.\<close>

fun arrived :: "recv_event list \<Rightarrow> u8 list" where
  "arrived [] = []"
| "arrived (Arrived bs # s) = bs @ arrived s"
| "arrived (e # s) = arrived s"

fun clean :: "recv_event list \<Rightarrow> bool" where
  "clean [] = True"
| "clean (Arrived bs # s) = (bs \<noteq> [] \<and> clean s)"
| "clean (RecvInterrupted # s) = clean s"
| "clean (RecvFailed e # s) = False"

lemma recv_all_clean:
  assumes "clean script" "n \<le> length (arrived script)"
  obtains script' where "recv_all script n = Some (script', Inr (take n (arrived script)))"
    and "arrived script' = drop n (arrived script)" and "clean script'"
proof -
  have "\<exists>script'. recv_all script n = Some (script', Inr (take n (arrived script))) \<and>
      arrived script' = drop n (arrived script) \<and> clean script'"
    using assms
  proof (induction script n rule: recv_all.induct)
    case (3 bs script n)
    show ?case
    proof (cases "length bs \<le> Suc n")
      case True
      then have "Suc n - length bs \<le> length (arrived script)" "clean script" "bs \<noteq> []"
        using "3.prems" by auto
      with 3 True show ?thesis by fastforce
    next
      case False
      with "3.prems" show ?thesis by auto
    qed
  qed auto
  then show ?thesis using that by blast
qed

lemma recv_all_stream:
  "recv_all script n = Some (script', Inr bs) \<Longrightarrow> arrived script = bs @ arrived script' \<and> length bs = n"
proof (induction script n arbitrary: bs rule: recv_all.induct)
  case (3 chunk script n)
  show ?case
  proof (cases "length chunk \<le> Suc n \<and> chunk \<noteq> []")
    case True
    then obtain r where r: "recv_all script (Suc n - length chunk) = Some (script', r)"
      "map_sum id (\<lambda>more. chunk @ more) r = Inr bs"
      using "3.prems" by auto
    then obtain more where "recv_all script (Suc n - length chunk) = Some (script', Inr more)" "bs = chunk @ more"
      by (cases r) auto
    with 3 True show ?thesis by auto
  next
    case False
    with "3.prems" show ?thesis by (auto split: if_splits)
  qed
qed auto

lemma send_all_done:
  "send_all script data = Some (script', out, None) \<Longrightarrow> out = data"
  by (induction script data arbitrary: out rule: send_all.induct) (auto split: if_splits)

lemma send_all_prefix:
  "send_all script data = Some (script', out, e) \<Longrightarrow> \<exists>rest. data = out @ rest"
proof (induction script data arbitrary: out rule: send_all.induct)
  case (3 n script b bs)
  show ?case
  proof (cases "n = 0")
    case False
    then obtain more where "send_all script (drop n (b # bs)) = Some (script', more, e)"
      and out: "out = take n (b # bs) @ more"
      using "3.prems" by auto
    with 3 False obtain rest where "drop n (b # bs) = more @ rest" by blast
    then have "b # bs = take n (b # bs) @ more @ rest" by (metis append_take_drop_id)
    with out show ?thesis by (metis append_assoc)
  qed (use "3.prems" in auto)
qed auto

end
