(* ===== verification/Tp_Channel_Properties.thy ===== *)
theory Tp_Channel_Properties
  imports Tp_Channel
begin

text \<open>
  What the control channel guarantees: a command or response that one rank sends successfully is
  the one the other rank receives, however the stream is cut into segments, and a rank accepts
  nothing but complete, canonical, valid messages.
\<close>

section \<open>Frames over a stream\<close>

definition header_bytes :: "u16 \<Rightarrow> u64 \<Rightarrow> nat \<Rightarrow> u8 list" where
  "header_bytes type sequence n =
     u32_bytes k_magic @ [ucast k_version, ucast (drop_bit 8 k_version), ucast type, ucast (drop_bit 8 type)] @
     u32_bytes (u32_size n) @ u64_bytes sequence"

lemma frame_header: "frame_bytes type sequence payload = header_bytes type sequence (length payload) @ payload"
  by (simp add: frame_bytes_def header_bytes_def)

lemma length_header [simp]: "length (header_bytes type sequence n) = 20"
  by (simp add: header_bytes_def)

lemma read_header_bytes:
  assumes "n \<le> bound" "bound \<le> k_max_payload_bytes"
  shows "read_header bound type (header_bytes type sequence n) = Inr (u32_size n, sequence)"
proof -
  have "unat (u32_size n) = n"
    using assms by (intro unat_u32_size small_fits32(5)) simp
  moreover have "header_bytes type sequence n ! 4 = ucast k_version" "header_bytes type sequence n ! 5 = ucast (drop_bit 8 k_version)"
    "header_bytes type sequence n ! 6 = ucast type" "header_bytes type sequence n ! 7 = ucast (drop_bit 8 type)"
    by (simp_all add: header_bytes_def nth_append)
  moreover have "read_u32 (header_bytes type sequence n) =
      Some (k_magic, [ucast k_version, ucast (drop_bit 8 k_version), ucast type, ucast (drop_bit 8 type)] @
        u32_bytes (u32_size n) @ u64_bytes sequence)"
    by (simp add: header_bytes_def wire_simps)
  moreover have "read_u64 (u64_bytes sequence) = Some (sequence, [])"
    using u64c.dec_enc[of sequence "[]"] by simp
  ultimately show ?thesis
    using assms by (simp add: read_header_def wire_simps k_version_def not_less)
qed

lemma read_header_inverse:
  assumes "read_header bound type header = Inr (n, sequence)" "length header = 20"
  shows "header = header_bytes type sequence (unat n)" and "unat n \<le> bound"
proof -
  from assms obtain d d' where h: "header = u32_bytes k_magic @ d"
    and c: "header ! 4 = 22" "header ! 5 = 0" "header ! 6 = ucast type" "header ! 7 = ucast (drop_bit 8 type)"
    and d: "drop 4 d = u32_bytes n @ u64_bytes sequence @ d'" and b: "unat n \<le> bound"
    by (auto simp: read_header_def bind_eq_Some_conv split: option.splits if_splits dest!: wire_inverse)
  show "unat n \<le> bound" by (rule b)
  have len: "length d = 16" using assms(2) h by simp
  have "length (drop 4 d) = 12 + length d'" using d by simp
  with len have "d' = []" by simp
  moreover have "d = take 4 d @ drop 4 d" by simp
  moreover have "take 4 d = [d ! 0, d ! 1, d ! 2, d ! 3]" using len by (simp add: take_nth upt_four)
  moreover have "d ! 0 = 22" "d ! 1 = 0" "d ! 2 = ucast type" "d ! 3 = ucast (drop_bit 8 type)"
    using c by (simp_all add: h nth_append)
  ultimately show "header = header_bytes type sequence (unat n)"
    using h d by (simp add: header_bytes_def k_version_def)
qed

lemma receive_frame_bytes:
  assumes ch: "ch_open ch" "\<not> ch_interrupted ch"
    and size: "length payload \<le> (if ch_handshaken ch then k_max_payload_bytes else k_max_hello_bytes)"
    and script: "clean script" "arrived script = frame_bytes type sequence payload @ rest"
  obtains script' where "receive_frame ch script type = Some (script', Inr (sequence, payload))"
    and "arrived script' = rest" and "clean script'"
proof -
  let ?bound = "if ch_handshaken ch then k_max_payload_bytes else k_max_hello_bytes"
  have bound: "?bound \<le> k_max_payload_bytes" by (simp add: k_defs)
  have n: "unat (u32_size (length payload)) = length payload"
    using size bound by (intro unat_u32_size small_fits32(5)) simp
  have a: "arrived script = header_bytes type sequence (length payload) @ payload @ rest"
    using script(2) by (simp add: frame_header)
  have "20 \<le> length (arrived script)" by (simp add: a)
  from recv_all_clean[OF script(1) this] obtain s1 where
    s1: "recv_all script 20 = Some (s1, Inr (header_bytes type sequence (length payload)))"
    "arrived s1 = payload @ rest" "clean s1"
    by (auto simp: a)
  have "length payload \<le> length (arrived s1)" by (simp add: s1)
  from recv_all_clean[OF s1(3) this] obtain s2 where
    s2: "recv_all s1 (length payload) = Some (s2, Inr payload)" "arrived s2 = rest" "clean s2"
    by (auto simp: s1)
  have "receive_frame ch script type = Some (s2, Inr (sequence, payload))"
    using ch s1(1) s2(1) read_header_bytes[OF size bound] by (simp add: receive_frame_def n)
  with s2 that show ?thesis by blast
qed

lemma receive_frame_stream:
  assumes "receive_frame ch script type = Some (script', Inr (sequence, payload))"
  shows "arrived script = frame_bytes type sequence payload @ arrived script'"
    and "ch_open ch" and "\<not> ch_interrupted ch"
    and "length payload \<le> (if ch_handshaken ch then k_max_payload_bytes else k_max_hello_bytes)"
proof -
  let ?bound = "if ch_handshaken ch then k_max_payload_bytes else k_max_hello_bytes"
  have ok: "ch_open ch" "\<not> ch_interrupted ch"
    using assms by (auto simp: receive_frame_def split: if_splits)
  obtain s1 r1 where r1: "recv_all script 20 = Some (s1, r1)"
    using assms ok by (cases "recv_all script 20") (auto simp: receive_frame_def)
  obtain header where h: "recv_all script 20 = Some (s1, Inr header)"
    using assms ok r1 by (cases r1) (auto simp: receive_frame_def)
  obtain n q where rh0: "read_header ?bound type header = Inr (n, q)"
    using assms ok h by (cases "read_header ?bound type header") (auto simp: receive_frame_def)
  obtain r where p0: "recv_all s1 (unat n) = Some (script', r)"
    "map_sum id (\<lambda>payload. (q, payload)) r = Inr (sequence, payload)"
    using assms ok h rh0 by (cases "recv_all s1 (unat n)") (auto simp: receive_frame_def)
  have q: "q = sequence" using p0(2) by (cases r) auto
  note rh = rh0[unfolded q] and p = p0[unfolded q]
  from p(2) have r: "r = Inr payload" by (cases r) auto
  note a1 = recv_all_stream[OF h] and a2 = recv_all_stream[OF p(1)[unfolded r]]
  note rhi = read_header_inverse[OF rh conjunct2[OF a1]]
  show "arrived script = frame_bytes type sequence payload @ arrived script'"
    using a1 a2 rhi(1) by (simp add: frame_header)
  show "length payload \<le> ?bound" using a2 rhi(2) by simp
  show "ch_open ch" "\<not> ch_interrupted ch" by (rule ok)+
qed

section \<open>Commands\<close>

text \<open>C7. A command that rank 0 sends successfully is the one rank 1 receives, whatever segments
  and interruptions the stream arrives in: it is valid, it is the sent command as the wire shows
  it, and the bytes after its frame stay unread.\<close>

theorem command_delivered:
  assumes sent: "send_command ch0 sends c = Some (sends', out, None)"
    and peer: "ch_handshaken ch1" "ch_rank ch1 = 1" "ch_open ch1" "\<not> ch_interrupted ch1"
      "ch_max_context ch1 = ch_max_context ch0"
    and stream: "clean script" "arrived script = out @ rest"
  shows "\<exists>script'. receive_command ch1 script = Some (script', Inr (wire_view c)) \<and>
    arrived script' = rest \<and> validate_command (wire_view c) = None"
proof -
  from sent have v: "validate_command c = None"
    and ctx: "ch_max_context ch0 \<noteq> 0" "length (tc_prompt_tokens c) \<le> unat (ch_max_context ch0)"
    and size: "length (command_payload c) \<le> k_max_payload_bytes"
    and all: "send_all sends (frame_bytes k_command (tc_sequence c) (command_payload c)) = Some (sends', out, None)"
    by (auto simp: send_command_def send_frame_def split: if_splits option.splits)
  from send_all_done[OF all] stream(2) have a: "arrived script = frame_bytes k_command (tc_sequence c) (command_payload c) @ rest"
    by simp
  have "length (command_payload c) \<le> (if ch_handshaken ch1 then k_max_payload_bytes else k_max_hello_bytes)"
    using size peer by simp
  from receive_frame_bytes[OF peer(3,4) this stream(1) a] obtain script' where
    s: "receive_frame ch1 script k_command = Some (script', Inr (tc_sequence c, command_payload c))"
    "arrived script' = rest" by blast
  show ?thesis
    using s peer parse_command_payload[OF v size ctx] validate_wire_view[OF v]
    by (simp add: receive_command_def)
qed

definition demo_channel :: "u32 \<Rightarrow> channel" where
  "demo_channel rank = (new_channel rank)\<lparr>ch_handshaken := True, ch_world_size := 2, ch_max_context := 4096\<rparr>"

lemma demo_channel_fields [simp]:
  "ch_handshaken (demo_channel r)" "ch_rank (demo_channel r) = r" "ch_open (demo_channel r)"
  "\<not> ch_interrupted (demo_channel r)" "ch_max_context (demo_channel r) = 4096"
  by (simp_all add: demo_channel_def new_channel_def)

definition demo_advance :: tp_command where
  "demo_advance = default_command\<lparr>tc_sequence := 7, tc_kind := KInstruction,
     tc_instruction := default_instruction\<lparr>ti_op := OpAdvance, ti_index := 3, ti_state := 1, ti_token := 42\<rparr>\<rparr>"

lemma demo_advance_valid: "validate_command demo_advance = None"
  by (simp add: validate_command_def demo_advance_def has_request_fields_def default_command_def
      is_default_sampling_def default_sampling_def f32_eq_def validate_instruction_def
      default_instruction_def op_arguments_ok_def only_args_def)

lemma demo_advance_sent:
  "send_command (demo_channel 0) [SendInterrupted, Accepted 200] demo_advance =
     Some ([], frame_bytes k_command 7 (command_payload demo_advance), None)"
proof -
  have n: "length (command_payload demo_advance) = 96"
    by (simp add: command_payload_def instruction_bytes_def demo_advance_def default_command_def default_instruction_def)
  then have "length (frame_bytes k_command 7 (command_payload demo_advance)) = 116"
    by (simp add: frame_header)
  then have "send_all [SendInterrupted, Accepted 200] (frame_bytes k_command 7 (command_payload demo_advance)) =
      Some ([], frame_bytes k_command 7 (command_payload demo_advance), None)"
    by (cases "frame_bytes k_command 7 (command_payload demo_advance)") auto
  with n show ?thesis
    by (simp add: send_command_def send_frame_def demo_advance_valid k_defs)
      (simp add: demo_advance_def default_command_def)
qed

theorem command_delivered_witness:
  "\<exists>script'. receive_command (demo_channel 1)
     [Arrived (take 5 (frame_bytes k_command 7 (command_payload demo_advance))), RecvInterrupted,
      Arrived (drop 5 (frame_bytes k_command 7 (command_payload demo_advance)) @ [9])] =
     Some (script', Inr (wire_view demo_advance)) \<and> arrived script' = [9]"
proof -
  let ?f = "frame_bytes k_command 7 (command_payload demo_advance)"
  have st: "clean [Arrived (take 5 ?f), RecvInterrupted, Arrived (drop 5 ?f @ [9])]"
    "arrived [Arrived (take 5 ?f), RecvInterrupted, Arrived (drop 5 ?f @ [9])] = ?f @ [9]"
    by (simp_all add: frame_header header_bytes_def u32_bytes_def)
  from command_delivered[OF demo_advance_sent _ _ _ _ _ st, where ?ch1.0 = "demo_channel 1"]
  show ?thesis by auto
qed

text \<open>C8. Rank 1 accepts only complete, canonical and valid frames: the bytes that a received
  command consumed are exactly the frame that encodes it, the command passes validation, and its
  prompt fits the negotiated context. So no two byte streams give the same command.\<close>

theorem receive_command_canonical:
  assumes "receive_command ch script = Some (script', Inr c)"
  shows "arrived script = frame_bytes k_command (tc_sequence c) (command_payload c) @ arrived script' \<and>
    validate_command c = None \<and> length (tc_prompt_tokens c) \<le> unat (ch_max_context ch) \<and>
    length (command_payload c) \<le> k_max_payload_bytes"
proof -
  have h: "ch_handshaken ch" "ch_rank ch = 1"
    using assms by (auto simp: receive_command_def split: if_splits)
  obtain r where r: "receive_frame ch script k_command = Some (script', r)"
    and p0: "(case r of Inl e \<Rightarrow> Inl e
      | Inr (sequence, payload) \<Rightarrow> parse_command (ch_max_context ch) sequence payload) = Inr c"
    using assms h by (cases "receive_frame ch script k_command") (auto simp: receive_command_def)
  from p0 obtain sequence payload where e: "r = Inr (sequence, payload)"
    and p: "parse_command (ch_max_context ch) sequence payload = Inr c"
    by (cases r) auto
  note f = r[unfolded e]
  from receive_frame_stream[OF f] parse_command_inverse[OF p] h show ?thesis by simp
qed

theorem receive_command_canonical_witness:
  "\<exists>script' c. receive_command (demo_channel 1) [Arrived (frame_bytes k_command 7 (command_payload demo_advance))] =
     Some (script', Inr c) \<and> validate_command c = None \<and>
     frame_bytes k_command 7 (command_payload demo_advance) =
       frame_bytes k_command (tc_sequence c) (command_payload c) @ arrived script'"
proof -
  let ?f = "frame_bytes k_command 7 (command_payload demo_advance)"
  have v: "validate_command demo_advance = None" by (rule demo_advance_valid)
  have n: "length (command_payload demo_advance) = 96"
    by (simp add: command_payload_def instruction_bytes_def demo_advance_def default_command_def default_instruction_def)
  have c: "clean [Arrived ?f]" "arrived [Arrived ?f] = ?f @ []"
    by (simp_all add: frame_header header_bytes_def u32_bytes_def)
  obtain s where s: "receive_frame (demo_channel 1) [Arrived ?f] k_command =
      Some (s, Inr (7, command_payload demo_advance))"
    by (rule receive_frame_bytes[OF demo_channel_fields(3,4) _ c]) (simp_all add: n k_max_payload_bytes_def)
  have seq: "tc_sequence demo_advance = 7" by (simp add: demo_advance_def)
  have "parse_command 4096 7 (command_payload demo_advance) = Inr (wire_view demo_advance)"
    using parse_command_payload[OF v, of 4096] n
    by (simp add: k_defs seq) (simp add: demo_advance_def default_command_def)
  with s have r: "receive_command (demo_channel 1) [Arrived ?f] = Some (s, Inr (wire_view demo_advance))"
    by (simp add: receive_command_def)
  from receive_command_canonical[OF r] r show ?thesis by auto
qed

section \<open>Responses\<close>

text \<open>a response that rank 1 sends successfully is the one rank 0 receives; a cache
  acknowledgement carries its sequence, instruction index and error and nothing else.\<close>

theorem response_delivered:
  assumes sent: "send_response ch1 sends r = Some (sends', out, None)"
    and peer: "ch_handshaken ch0" "ch_rank ch0 = 0" "ch_open ch0" "\<not> ch_interrupted ch0"
    and stream: "clean script" "arrived script = out @ rest"
  shows "\<exists>script'. receive_response ch0 script =
      Some (script', Inr (if rs_kind r = RInstruction
         then default_response\<lparr>rs_sequence := rs_sequence r, rs_kind := RInstruction,
                rs_instruction_index := rs_instruction_index r, rs_error := rs_error r\<rparr>
         else r)) \<and> arrived script' = rest"
proof -
  from sent have v: "validate_response r = None"
    and size: "length (response_payload r) \<le> k_max_payload_bytes"
    and all: "send_all sends (frame_bytes k_response (rs_sequence r) (response_payload r)) = Some (sends', out, None)"
    by (auto simp: send_response_def send_frame_def split: if_splits option.splits)
  from send_all_done[OF all] stream(2) have a: "arrived script = frame_bytes k_response (rs_sequence r) (response_payload r) @ rest"
    by simp
  have "length (response_payload r) \<le> (if ch_handshaken ch0 then k_max_payload_bytes else k_max_hello_bytes)"
    using size peer by simp
  from receive_frame_bytes[OF peer(3,4) this stream(1) a] obtain script' where
    s: "receive_frame ch0 script k_response = Some (script', Inr (rs_sequence r, response_payload r))"
    "arrived script' = rest" by blast
  show ?thesis
    using s peer parse_response_payload[OF v] by (simp add: receive_response_def)
qed

definition demo_result :: tp_response where
  "demo_result = default_response\<lparr>rs_sequence := 7, rs_tokens := [5, 6], rs_draft_tokens := 1\<rparr>"

theorem response_delivered_witness:
  "\<exists>script'. receive_response (demo_channel 0) [Arrived (frame_bytes k_response 7 (response_payload demo_result))] =
     Some (script', Inr demo_result) \<and> arrived script' = []"
proof -
  let ?f = "frame_bytes k_response 7 (response_payload demo_result)"
  have n: "length (response_payload demo_result) = 56"
    by (simp add: response_payload_def demo_result_def default_response_def bytes_of_string_def)
  then have "length ?f = 76" by (simp add: frame_header)
  then have "send_all [Accepted 200] ?f = Some ([], ?f, None)"
    by (cases ?f) auto
  moreover have "validate_response demo_result = None"
    by (simp add: validate_response_def demo_result_def default_response_def k_defs)
  ultimately have s: "send_response (demo_channel 1) [Accepted 200] demo_result = Some ([], ?f, None)"
    using n by (simp add: send_response_def send_frame_def k_defs)
      (simp add: demo_result_def default_response_def)
  have "clean [Arrived ?f]" "arrived [Arrived ?f] = ?f @ []"
    by (simp_all add: frame_header header_bytes_def u32_bytes_def)
  from response_delivered[OF s _ _ _ _ this, where ?ch0.0 = "demo_channel 0"] show ?thesis
    by (auto simp: demo_result_def default_response_def)
qed

end
