(* ===== verification/Tp_Handshake.thy ===== *)
theory Tp_Handshake
  imports Tp_Channel_Properties
begin

text \<open>
  \<open>TpControlChannel::Handshake\<close> and \<open>ControlMac\<close> (\<open>src/cli/serve/tp_control.cpp\<close>): the hello
  frames, the settings both ranks must agree on, and the mutual proof of the control token. The
  library functions are parameters: \<open>hmac key message\<close> is OpenSSL's HMAC-SHA256 (\<open>None\<close> when it
  fails), and \<open>nonce\<close> is what \<open>RAND_bytes\<close> gave (\<open>None\<close> when it failed).
\<close>

section \<open>The token proof\<close>

type_synonym hmac_fun = "u8 list \<Rightarrow> u8 list \<Rightarrow> u8 list option"

definition control_label :: string where
  "control_label = ''gufo tp2 control v20''"

definition control_mac :: "hmac_fun \<Rightarrow> string \<Rightarrow> u32 \<Rightarrow> u8 list \<Rightarrow> u8 list \<Rightarrow> u8 list option" where
  "control_mac hmac token sender nonce0 nonce1 =
     (case hmac (bytes_of_string token)
            (bytes_of_string control_label @ [ucast sender] @ nonce0 @ nonce1) of
        None \<Rightarrow> None
      | Some mac \<Rightarrow> if length mac = k_mac_bytes then Some mac else None)"

section \<open>The hello\<close>

record hello =
  he_rank :: u32
  he_world :: u32
  he_context :: u32
  he_prefill :: u32
  he_draft :: u32
  he_mtp :: u32
  he_sessions :: u32
  he_vision :: u32
  he_disk :: u32
  he_yarn :: u32
  he_budget :: u64

definition hello_of :: "tp_config \<Rightarrow> hello" where
  "hello_of c =
     \<lparr>he_rank = cfg_rank c, he_world = cfg_world_size c, he_context = cfg_max_context c,
      he_prefill = cfg_prefill_chunk c, he_draft = cfg_max_draft_tokens c,
      he_mtp = flag (cfg_use_mtp c) 1, he_sessions = cfg_sessions c,
      he_vision = flag (cfg_vision c) 1, he_disk = flag (cfg_disk_cache c) 1,
      he_yarn = flag (cfg_yarn c) 1, he_budget = cfg_snapshot_budget c\<rparr>"

definition hello_bytes :: "hello \<Rightarrow> u8 list" where
  "hello_bytes h =
     u32_bytes (he_rank h) @ u32_bytes (he_world h) @ u32_bytes (he_context h) @
     u32_bytes (he_prefill h) @ u32_bytes (he_draft h) @ u32_bytes (he_mtp h) @
     u32_bytes (he_sessions h) @ u32_bytes (he_vision h) @ u32_bytes (he_disk h) @
     u32_bytes (he_yarn h) @ u64_bytes (he_budget h)"

definition read_hello :: "u8 list \<Rightarrow> (hello \<times> u8 list) option" where
  "read_hello d = do {
     (rank, d) \<leftarrow> read_u32 d;
     (world, d) \<leftarrow> read_u32 d;
     (ctx, d) \<leftarrow> read_u32 d;
     (prefill_chunk, d) \<leftarrow> read_u32 d;
     (draft, d) \<leftarrow> read_u32 d;
     (mtp, d) \<leftarrow> read_u32 d;
     (sessions, d) \<leftarrow> read_u32 d;
     (vision, d) \<leftarrow> read_u32 d;
     (disk_cache, d) \<leftarrow> read_u32 d;
     (yarn, d) \<leftarrow> read_u32 d;
     (snapshot_budget, d) \<leftarrow> read_u64 d;
     (if length d \<noteq> k_nonce_bytes then None
      else Some (\<lparr>he_rank = rank, he_world = world, he_context = ctx, he_prefill = prefill_chunk,
                  he_draft = draft, he_mtp = mtp, he_sessions = sessions, he_vision = vision,
                  he_disk = disk_cache, he_yarn = yarn, he_budget = snapshot_budget\<rparr>, d))
   }"

section \<open>Disagreements\<close>

definition differs :: "bool \<Rightarrow> string \<Rightarrow> nat \<Rightarrow> nat \<Rightarrow> string list" where
  "differs different what mine peers =
     (if different
      then [what @ '' '' @ digits_of_nat mine @ '' here, '' @ digits_of_nat peers @ '' on the peer'']
      else [])"

definition mismatches :: "tp_config \<Rightarrow> hello \<Rightarrow> string list" where
  "mismatches c p =
     (let own = hello_of c in
      differs (he_rank p \<noteq> 1 - cfg_rank c) ''rank'' (unat (cfg_rank c)) (unat (he_rank p)) @
      differs (he_world p \<noteq> he_world own) ''world size'' (unat (he_world own)) (unat (he_world p)) @
      differs (he_context p \<noteq> he_context own) ''context'' (unat (he_context own)) (unat (he_context p)) @
      differs (he_prefill p \<noteq> he_prefill own) ''prefill chunk'' (unat (he_prefill own)) (unat (he_prefill p)) @
      differs (he_mtp p \<noteq> he_mtp own) ''MTP'' (unat (he_mtp own)) (unat (he_mtp p)) @
      differs (he_draft p \<noteq> he_draft own) ''draft tokens'' (unat (he_draft own)) (unat (he_draft p)) @
      differs (he_sessions p \<noteq> he_sessions own) ''sessions'' (unat (he_sessions own)) (unat (he_sessions p)) @
      differs (he_vision p \<noteq> he_vision own) ''vision (--mmproj)'' (unat (he_vision own)) (unat (he_vision p)) @
      differs (he_disk p \<noteq> he_disk own) ''disk cache (--cache-disk)'' (unat (he_disk own)) (unat (he_disk p)) @
      differs (he_yarn p \<noteq> he_yarn own) ''YaRN (--enable-yarn)'' (unat (he_yarn own)) (unat (he_yarn p)))"

fun join_comma :: "string list \<Rightarrow> string" where
  "join_comma [] = []"
| "join_comma [s] = s"
| "join_comma (s # t # ss) = s @ '', '' @ join_comma (t # ss)"

section \<open>The handshake\<close>

definition config_ok :: "channel \<Rightarrow> tp_config \<Rightarrow> bool" where
  "config_ok ch c \<longleftrightarrow>
     \<not> (cfg_world_size c \<noteq> 2 \<or> cfg_rank c \<noteq> ch_rank ch \<or> cfg_rank c > 1 \<or> cfg_max_context c = 0 \<or>
        cfg_prefill_chunk c = 0 \<or> cfg_sessions c = 0 \<or> cfg_auth_token c = [] \<or>
        length (cfg_auth_token c) > k_max_auth_token_bytes \<or> ch_handshaken ch \<or>
        (cfg_use_mtp c \<and> cfg_max_draft_tokens c = 0))"

text \<open>Rank 1 proves the token first; rank 0 answers with its proof only after checking it.\<close>

definition exchange_proofs ::
  "channel \<Rightarrow> tp_config \<Rightarrow> u8 list \<Rightarrow> u8 list \<Rightarrow> send_event list \<Rightarrow> recv_event list \<Rightarrow>
   (send_event list \<times> recv_event list \<times> u8 list \<times> (string + bool)) option" where
  "exchange_proofs ch c own_mac expected_mac sends recvs =
     (let peer_proves = (\<lambda>mac. length mac = k_mac_bytes \<and> mac = expected_mac) in
      if cfg_rank c = 1 then do {
        (sends, out, e) \<leftarrow> send_frame ch sends k_auth 0 own_mac;
        (case e of
           Some e \<Rightarrow> Some (sends, recvs, out, Inl e)
         | None \<Rightarrow> do {
             (recvs, r) \<leftarrow> receive_frame ch recvs k_auth;
             Some (sends, recvs, out,
                   map_sum id (\<lambda>(sequence, mac). sequence = 0 \<and> peer_proves mac) r)
           })
      } else do {
        (recvs, r) \<leftarrow> receive_frame ch recvs k_auth;
        (case r of
           Inl e \<Rightarrow> Some (sends, recvs, [], Inl e)
         | Inr (sequence, mac) \<Rightarrow>
             (let authenticated = (sequence = 0 \<and> peer_proves mac) in do {
                (sends, out, e) \<leftarrow> send_frame ch sends k_auth 0 (if authenticated then own_mac else []);
                Some (sends, recvs, out,
                      case e of Some e \<Rightarrow> Inl e | None \<Rightarrow> Inr authenticated)
              }))
      })"

type_synonym handshake_result =
  "(channel \<times> send_event list \<times> recv_event list \<times> u8 list \<times> string option) option"

definition finish_handshake ::
  "hmac_fun \<Rightarrow> channel \<Rightarrow> tp_config \<Rightarrow> u8 list \<Rightarrow> hello \<Rightarrow> u8 list \<Rightarrow> u8 list \<Rightarrow>
   send_event list \<Rightarrow> recv_event list \<Rightarrow> handshake_result" where
  "finish_handshake hmac ch c nonce peer peer_nonce out sends recvs =
     (let nonce0 = (if cfg_rank c = 0 then nonce else peer_nonce);
          nonce1 = (if cfg_rank c = 0 then peer_nonce else nonce)
      in case (control_mac hmac (cfg_auth_token c) (cfg_rank c) nonce0 nonce1,
               control_mac hmac (cfg_auth_token c) (1 - cfg_rank c) nonce0 nonce1) of
           (Some own_mac, Some expected_mac) \<Rightarrow> do {
             (sends, recvs, more, r) \<leftarrow> exchange_proofs ch c own_mac expected_mac sends recvs;
             (case r of
                Inl e \<Rightarrow> Some (ch, sends, recvs, out @ more, Some e)
              | Inr authenticated \<Rightarrow>
                  (let mismatch = mismatches c peer @ (if authenticated then [] else [''control token''])
                   in if mismatch \<noteq> []
                      then Some (ch, sends, recvs, out @ more,
                                 Some (''TP control hello configuration mismatch: '' @ join_comma mismatch))
                      else Some (ch\<lparr>ch_snapshot_budget := min (cfg_snapshot_budget c) (he_budget peer),
                                    ch_world_size := cfg_world_size c,
                                    ch_max_context := cfg_max_context c, ch_handshaken := True\<rparr>,
                                 sends, recvs, out @ more, None)))
           }
         | _ \<Rightarrow> Some (ch, sends, recvs, out, Some ''TP control token MAC failed''))"

definition handshake ::
  "hmac_fun \<Rightarrow> channel \<Rightarrow> tp_config \<Rightarrow> u8 list option \<Rightarrow> send_event list \<Rightarrow> recv_event list \<Rightarrow>
   handshake_result" where
  "handshake hmac ch c nonce sends recvs =
     (if \<not> config_ok ch c
      then Some (ch, sends, recvs, [], Some ''TP control configuration is invalid'')
      else
        (case nonce of
           None \<Rightarrow> Some (ch, sends, recvs, [], Some ''TP control nonce generation failed'')
         | Some nonce \<Rightarrow> do {
             (sends, out, e) \<leftarrow> send_frame ch sends k_hello 0 (hello_bytes (hello_of c) @ nonce);
             (case e of
                Some e \<Rightarrow> Some (ch, sends, recvs, out, Some e)
              | None \<Rightarrow> do {
                  (recvs, r) \<leftarrow> receive_frame ch recvs k_hello;
                  (case r of
                     Inl e \<Rightarrow> Some (ch, sends, recvs, out, Some e)
                   | Inr (sequence, peer) \<Rightarrow>
                       if sequence \<noteq> 0
                       then Some (ch, sends, recvs, out, Some ''TP control hello sequence is invalid'')
                       else
                         (case read_hello peer of
                            None \<Rightarrow> Some (ch, sends, recvs, out, Some ''TP control hello payload is invalid'')
                          | Some (peer, peer_nonce) \<Rightarrow>
                              finish_handshake hmac ch c nonce peer peer_nonce out sends recvs))
                })
           }))"

section \<open>Facts\<close>

lemma length_hello_bytes [simp]: "length (hello_bytes h) = 48"
  by (simp add: hello_bytes_def)

lemma read_hello_bytes:
  "length nonce = k_nonce_bytes \<Longrightarrow> read_hello (hello_bytes h @ nonce) = Some (h, nonce)"
  by (simp add: read_hello_def hello_bytes_def wire_simps)

lemma read_hello_inverse:
  "read_hello d = Some (h, nonce) \<Longrightarrow> d = hello_bytes h @ nonce \<and> length nonce = k_nonce_bytes"
  by (auto simp: read_hello_def hello_bytes_def bind_eq_Some_conv split: if_splits dest!: wire_inverse)

lemma mismatches_empty:
  "mismatches c p = [] \<longleftrightarrow> he_rank p = 1 - cfg_rank c \<and>
     p = (hello_of c)\<lparr>he_rank := he_rank p, he_budget := he_budget p\<rparr>"
  by (cases p) (auto simp: mismatches_def Let_def differs_def hello_of_def)

lemma control_mac_length: "control_mac hmac token s n0 n1 = Some mac \<Longrightarrow> length mac = k_mac_bytes"
  by (auto simp: control_mac_def split: option.splits if_splits)

lemma send_frame_accepted:
  assumes "ch_open ch" "\<not> ch_interrupted ch" "length payload \<le> 100"
  shows "send_frame ch (Accepted 1000 # script) type sequence payload =
    Some (script, frame_bytes type sequence payload, None)"
proof -
  have "length (frame_bytes type sequence payload) \<le> 120" "frame_bytes type sequence payload \<noteq> []"
    using assms(3) by (simp_all add: frame_header header_bytes_def)
  then have "send_all (Accepted 1000 # script) (frame_bytes type sequence payload) =
      Some (script, frame_bytes type sequence payload, None)"
    by (cases "frame_bytes type sequence payload") auto
  with assms show ?thesis by (simp add: send_frame_def k_defs)
qed

text \<open>What the peer sends in a handshake that succeeds.\<close>

definition peer_stream :: "hello \<Rightarrow> u8 list \<Rightarrow> u8 list \<Rightarrow> u8 list" where
  "peer_stream h nonce mac = frame_bytes k_hello 0 (hello_bytes h @ nonce) @ frame_bytes k_auth 0 mac"

lemma exchange_proofs_succeeds:
  assumes ch: "ch_open ch" "\<not> ch_interrupted ch"
    and macs: "length own_mac = k_mac_bytes" "length peer_mac = k_mac_bytes"
    and recvs: "clean recvs" "arrived recvs = frame_bytes k_auth 0 peer_mac @ rest"
  shows "\<exists>recvs'. exchange_proofs ch c own_mac expected (Accepted 1000 # sends) recvs =
    Some (sends, recvs', frame_bytes k_auth 0
        (if cfg_rank c = 1 \<or> peer_mac = expected then own_mac else []), Inr (peer_mac = expected)) \<and>
    arrived recvs' = rest"
proof -
  have "length peer_mac \<le> (if ch_handshaken ch then k_max_payload_bytes else k_max_hello_bytes)"
    using macs by (simp add: k_defs)
  from receive_frame_bytes[OF ch this recvs] obtain recvs' where
    r: "receive_frame ch recvs k_auth = Some (recvs', Inr (0, peer_mac))" "arrived recvs' = rest" by blast
  have s: "send_frame ch (Accepted 1000 # sends) k_auth 0 m = Some (sends, frame_bytes k_auth 0 m, None)"
    if "length m \<le> 100" for m
    by (rule send_frame_accepted[OF ch that])
  have "length own_mac \<le> 100" using macs by (simp add: k_defs)
  with r macs s show ?thesis
    by (auto simp: exchange_proofs_def Let_def)
qed

end
