(* ===== verification/Tp_Handshake_Properties.thy ===== *)
theory Tp_Handshake_Properties
  imports Tp_Handshake
begin

text \<open>
  The handshake as a protocol between the two ranks: compatible ranks with the same token pair, a
  rank that accepts was shown the settings and the proof it expects, and rank 0 sends its own
  proof only to a peer that proved the token.
\<close>

section \<open>One rank\<close>

definition nonces :: "tp_config \<Rightarrow> u8 list \<Rightarrow> u8 list \<Rightarrow> u8 list \<times> u8 list" where
  "nonces c own peer = (if cfg_rank c = 0 then (own, peer) else (peer, own))"

definition mac_of :: "hmac_fun \<Rightarrow> tp_config \<Rightarrow> u32 \<Rightarrow> u8 list \<Rightarrow> u8 list \<Rightarrow> u8 list option" where
  "mac_of hmac c sender own peer =
     control_mac hmac (cfg_auth_token c) sender (fst (nonces c own peer)) (snd (nonces c own peer))"

definition paired :: "channel \<Rightarrow> tp_config \<Rightarrow> hello \<Rightarrow> channel" where
  "paired ch c peer = ch\<lparr>ch_snapshot_budget := min (cfg_snapshot_budget c) (he_budget peer),
     ch_world_size := cfg_world_size c, ch_max_context := cfg_max_context c, ch_handshaken := True\<rparr>"

lemma handshake_run:
  assumes cfg: "config_ok ch c" and ch: "ch_open ch" "\<not> ch_interrupted ch"
    and n: "length own = k_nonce_bytes" "length pn = k_nonce_bytes"
    and macs: "mac_of hmac c (cfg_rank c) own pn = Some own_mac"
      "mac_of hmac c (1 - cfg_rank c) own pn = Some expected"
    and pm: "length peer_mac = k_mac_bytes"
    and recvs: "clean recvs" "arrived recvs = peer_stream h pn peer_mac @ rest"
  shows "\<exists>recvs' e. handshake hmac ch c (Some own) [Accepted 1000, Accepted 1000] recvs =
    Some (if mismatches c h = [] \<and> peer_mac = expected then paired ch c h else ch, [], recvs',
      peer_stream (hello_of c) own (if cfg_rank c = 1 \<or> peer_mac = expected then own_mac else []), e) \<and>
    (e = None \<longleftrightarrow> mismatches c h = [] \<and> peer_mac = expected)"
proof -
  have nh: "\<not> ch_handshaken ch" using cfg by (simp add: config_ok_def)
  have len: "length (hello_bytes (hello_of c) @ own) \<le> 100" using n by (simp add: k_defs)
  note s1 = send_frame_accepted[OF ch len, of "[Accepted 1000]" k_hello 0]
  have "length (hello_bytes h @ pn) \<le> (if ch_handshaken ch then k_max_payload_bytes else k_max_hello_bytes)"
    using n nh by (simp add: k_defs)
  moreover have "arrived recvs = frame_bytes k_hello 0 (hello_bytes h @ pn) @ frame_bytes k_auth 0 peer_mac @ rest"
    using recvs(2) by (simp add: peer_stream_def)
  ultimately obtain r1 where r1: "receive_frame ch recvs k_hello = Some (r1, Inr (0, hello_bytes h @ pn))"
    "arrived r1 = frame_bytes k_auth 0 peer_mac @ rest" "clean r1"
    using receive_frame_bytes[OF ch _ recvs(1)] by metis
  have m1: "length own_mac = k_mac_bytes" using macs(1) control_mac_length by (simp add: mac_of_def)
  from exchange_proofs_succeeds[OF ch m1 pm r1(3,2), of c expected "[]"] obtain r2 where
    ex: "exchange_proofs ch c own_mac expected [Accepted 1000] r1 = Some ([], r2,
      frame_bytes k_auth 0 (if cfg_rank c = 1 \<or> peer_mac = expected then own_mac else []),
      Inr (peer_mac = expected))" by blast
  have cm: "control_mac hmac (cfg_auth_token c) (cfg_rank c) (if cfg_rank c = 0 then own else pn)
      (if cfg_rank c = 0 then pn else own) = Some own_mac"
    "control_mac hmac (cfg_auth_token c) (1 - cfg_rank c) (if cfg_rank c = 0 then own else pn)
      (if cfg_rank c = 0 then pn else own) = Some expected"
    using macs by (simp_all add: mac_of_def nonces_def split: if_splits)
  show ?thesis
    using cfg s1 r1(1) read_hello_bytes[OF n(2)] ex
    by (simp add: handshake_def finish_handshake_def cm Let_def peer_stream_def paired_def)
qed

section \<open>Two ranks\<close>

definition compatible :: "tp_config \<Rightarrow> tp_config \<Rightarrow> bool" where
  "compatible c0 c1 \<longleftrightarrow> cfg_rank c0 = 0 \<and> cfg_rank c1 = 1 \<and>
     hello_of c1 = (hello_of c0)\<lparr>he_rank := 1, he_budget := cfg_snapshot_budget c1\<rparr> \<and>
     cfg_auth_token c1 = cfg_auth_token c0"

text \<open>C9. Two ranks whose settings agree and which hold the same token pair: each, fed with what the
  other sends (in any segments), completes the handshake, sends exactly the stream the other
  expects, and both settle on the same context and the smaller snapshot budget.\<close>

theorem handshake_pairs:
  assumes ok: "config_ok ch0 c0" "config_ok ch1 c1" and agree: "compatible c0 c1"
    and ch: "ch_open ch0" "\<not> ch_interrupted ch0" "ch_open ch1" "\<not> ch_interrupted ch1"
    and n: "length n0 = k_nonce_bytes" "length n1 = k_nonce_bytes"
    and macs: "control_mac hmac (cfg_auth_token c0) 0 n0 n1 = Some m0"
      "control_mac hmac (cfg_auth_token c0) 1 n0 n1 = Some m1"
    and r0: "clean recvs0" "arrived recvs0 = peer_stream (hello_of c1) n1 m1 @ rest0"
    and r1: "clean recvs1" "arrived recvs1 = peer_stream (hello_of c0) n0 m0 @ rest1"
  shows "(\<exists>recvs'. handshake hmac ch0 c0 (Some n0) [Accepted 1000, Accepted 1000] recvs0 =
      Some (paired ch0 c0 (hello_of c1), [], recvs', peer_stream (hello_of c0) n0 m0, None)) \<and>
    (\<exists>recvs'. handshake hmac ch1 c1 (Some n1) [Accepted 1000, Accepted 1000] recvs1 =
      Some (paired ch1 c1 (hello_of c0), [], recvs', peer_stream (hello_of c1) n1 m1, None)) \<and>
    ch_snapshot_budget (paired ch0 c0 (hello_of c1)) = ch_snapshot_budget (paired ch1 c1 (hello_of c0)) \<and>
    ch_max_context (paired ch0 c0 (hello_of c1)) = ch_max_context (paired ch1 c1 (hello_of c0))"
proof -
  have rank: "cfg_rank c0 = 0" "cfg_rank c1 = 1" and tok: "cfg_auth_token c1 = cfg_auth_token c0"
    and h: "hello_of c1 = (hello_of c0)\<lparr>he_rank := 1, he_budget := cfg_snapshot_budget c1\<rparr>"
    using agree by (simp_all add: compatible_def)
  have f: "he_rank (hello_of c0) = 0" "he_rank (hello_of c1) = 1"
    "he_budget (hello_of c0) = cfg_snapshot_budget c0" "he_budget (hello_of c1) = cfg_snapshot_budget c1"
    "he_context (hello_of c0) = cfg_max_context c0" "he_context (hello_of c1) = cfg_max_context c1"
    using rank by (simp_all add: hello_of_def)
  have none: "mismatches c0 (hello_of c1) = []" "mismatches c1 (hello_of c0) = []"
    unfolding mismatches_empty using rank f h by (simp_all add: h)
  have ctx: "cfg_max_context c1 = cfg_max_context c0"
    using f(5,6) h by simp
  have m: "length m0 = k_mac_bytes" "length m1 = k_mac_bytes"
    using macs by (auto dest: control_mac_length)
  have a: "mac_of hmac c0 (cfg_rank c0) n0 n1 = Some m0" "mac_of hmac c0 (1 - cfg_rank c0) n0 n1 = Some m1"
    and b: "mac_of hmac c1 (cfg_rank c1) n1 n0 = Some m1" "mac_of hmac c1 (1 - cfg_rank c1) n1 n0 = Some m0"
    using macs rank tok by (simp_all add: mac_of_def nonces_def)
  show ?thesis
    using handshake_run[OF ok(1) ch(1,2) n a m(2) r0] handshake_run[OF ok(2) ch(3,4) n(2,1) b m(1) r1]
      none rank f ctx by (auto simp: paired_def min.commute)
qed

text \<open>A token MAC for examples: a pad of the key and message lengths.\<close>

definition demo_hmac :: hmac_fun where
  "demo_hmac key message = Some (replicate 31 7 @ [message ! 20])"

definition demo_config :: "u32 \<Rightarrow> tp_config" where
  "demo_config r = \<lparr>cfg_snapshot_budget = 100 + ucast r, cfg_rank = r, cfg_world_size = 2,
     cfg_max_context = 4096, cfg_max_draft_tokens = 7, cfg_use_mtp = True, cfg_auth_token = ''secret'',
     cfg_prefill_chunk = 512, cfg_sessions = 1, cfg_vision = False, cfg_disk_cache = True, cfg_yarn = False\<rparr>"

abbreviation "demo_nonce b \<equiv> replicate 32 b"

lemma demo_handshake_facts:
  "config_ok (new_channel 0) (demo_config 0)" "config_ok (new_channel 1) (demo_config 1)"
  "compatible (demo_config 0) (demo_config 1)"
  "control_mac demo_hmac (cfg_auth_token (demo_config 0)) 0 n0 n1 = Some (replicate 31 7 @ [0])"
  "control_mac demo_hmac (cfg_auth_token (demo_config 0)) 1 n0 n1 = Some (replicate 31 7 @ [1])"
  by (simp_all add: config_ok_def new_channel_def demo_config_def compatible_def hello_of_def flag_def
      control_mac_def demo_hmac_def k_defs control_label_def nth_append bytes_of_string_def)

theorem handshake_pairs_witness:
  "\<exists>recvs'. handshake demo_hmac (new_channel 0) (demo_config 0) (Some (demo_nonce 4)) [Accepted 1000, Accepted 1000]
     [Arrived (peer_stream (hello_of (demo_config 1)) (demo_nonce 9) (replicate 31 7 @ [1]))] =
     Some (paired (new_channel 0) (demo_config 0) (hello_of (demo_config 1)), [], recvs',
       peer_stream (hello_of (demo_config 0)) (demo_nonce 4) (replicate 31 7 @ [0]), None)"
proof -
  have c: "clean [Arrived (peer_stream h n m)]" "arrived [Arrived (peer_stream h n m)] = peer_stream h n m @ []" for h n m
    by (simp_all add: peer_stream_def frame_header header_bytes_def u32_bytes_def)
  note facts = demo_handshake_facts
  show ?thesis
    using handshake_pairs[OF facts(1-3) _ _ _ _ _ _ facts(4,5) c c, of "demo_nonce 4" "demo_nonce 9"]
    by (simp add: new_channel_def k_defs)
qed

section \<open>What acceptance means\<close>

lemma exchange_proofs_stream:
  assumes "exchange_proofs ch c own_mac expected sends recvs = Some (sends', recvs', out, Inr ok)"
  shows "\<exists>sequence mac. arrived recvs = frame_bytes k_auth sequence mac @ arrived recvs' \<and>
    (ok \<longleftrightarrow> sequence = 0 \<and> mac = expected \<and> length mac = k_mac_bytes) \<and>
    (cfg_rank c \<noteq> 1 \<longrightarrow> out = frame_bytes k_auth 0 (if ok then own_mac else []))"
proof (cases "cfg_rank c = 1")
  case True
  obtain s1 o1 e where s: "send_frame ch sends k_auth 0 own_mac = Some (s1, o1, e)"
    using assms True by (cases "send_frame ch sends k_auth 0 own_mac") (auto simp: exchange_proofs_def Let_def)
  with assms True have e: "e = None" by (cases e) (auto simp: exchange_proofs_def Let_def)
  obtain r1 r where r: "receive_frame ch recvs k_auth = Some (r1, r)"
    using assms True s e by (cases "receive_frame ch recvs k_auth") (auto simp: exchange_proofs_def Let_def)
  obtain q mac where qm: "r = Inr (q, mac)"
    using assms True s e r by (cases r) (auto simp: exchange_proofs_def Let_def)
  with assms True s e r have "r1 = recvs'" "ok \<longleftrightarrow> q = 0 \<and> length mac = k_mac_bytes \<and> mac = expected"
    by (auto simp: exchange_proofs_def Let_def)
  with receive_frame_stream(1)[OF r[unfolded qm]] True show ?thesis by blast
next
  case False
  obtain r1 r where r: "receive_frame ch recvs k_auth = Some (r1, r)"
    using assms False by (cases "receive_frame ch recvs k_auth") (auto simp: exchange_proofs_def Let_def)
  obtain q mac where qm: "r = Inr (q, mac)"
    using assms False r by (cases r) (auto simp: exchange_proofs_def Let_def)
  let ?ok = "q = 0 \<and> length mac = k_mac_bytes \<and> mac = expected"
  obtain s1 o1 e where s: "send_frame ch sends k_auth 0 (if ?ok then own_mac else []) = Some (s1, o1, e)"
    using assms False r qm
    by (cases "send_frame ch sends k_auth 0 (if ?ok then own_mac else [])") (auto simp: exchange_proofs_def Let_def)
  with assms False r qm have e: "e = None" by (cases e) (auto simp: exchange_proofs_def Let_def)
  from assms False r qm s e have res: "r1 = recvs'" "ok \<longleftrightarrow> ?ok" "out = o1"
    by (auto simp: exchange_proofs_def Let_def)
  have "o1 = frame_bytes k_auth 0 (if ?ok then own_mac else [])"
    using s e send_all_done by (fastforce simp: send_frame_def split: if_splits)
  with receive_frame_stream(1)[OF r[unfolded qm]] res show ?thesis by blast
qed

lemma finish_handshake_none:
  assumes "finish_handshake hmac ch c own h pn o1 sends recvs = Some (ch', sends', recvs', out, None)"
  shows "\<exists>mac. mac_of hmac c (1 - cfg_rank c) own pn = Some mac \<and> mismatches c h = [] \<and>
    arrived recvs = frame_bytes k_auth 0 mac @ arrived recvs' \<and> ch' = paired ch c h"
proof -
  let ?n0 = "if cfg_rank c = 0 then own else pn" and ?n1 = "if cfg_rank c = 0 then pn else own"
  obtain own_mac where o: "control_mac hmac (cfg_auth_token c) (cfg_rank c) ?n0 ?n1 = Some own_mac"
    using assms by (cases "control_mac hmac (cfg_auth_token c) (cfg_rank c) ?n0 ?n1")
      (auto simp: finish_handshake_def Let_def)
  obtain mac where m: "control_mac hmac (cfg_auth_token c) (1 - cfg_rank c) ?n0 ?n1 = Some mac"
    using assms o by (cases "control_mac hmac (cfg_auth_token c) (1 - cfg_rank c) ?n0 ?n1")
      (auto simp: finish_handshake_def Let_def)
  obtain s1 r1 more r where ex: "exchange_proofs ch c own_mac mac sends recvs = Some (s1, r1, more, r)"
    using assms o m by (cases "exchange_proofs ch c own_mac mac sends recvs")
      (auto simp: finish_handshake_def Let_def)
  with assms o m obtain ok where ok: "r = Inr ok"
    by (cases r) (auto simp: finish_handshake_def Let_def)
  with assms o m ex have res: "ok" "mismatches c h = []" "ch' = paired ch c h" "r1 = recvs'"
    by (auto simp: finish_handshake_def Let_def paired_def split: if_splits)
  have mo: "mac_of hmac c (1 - cfg_rank c) own pn = Some mac"
    using m by (simp add: mac_of_def nonces_def split: if_splits)
  from exchange_proofs_stream[OF ex[unfolded ok]] res mo show ?thesis by auto
qed

lemma handshake_none:
  assumes "handshake hmac ch c nonce sends recvs = Some (ch', sends', recvs', out, None)"
  shows "\<exists>own h pn mac. nonce = Some own \<and> config_ok ch c \<and>
    arrived recvs = peer_stream h pn mac @ arrived recvs' \<and> length pn = k_nonce_bytes \<and>
    mac_of hmac c (1 - cfg_rank c) own pn = Some mac \<and> mismatches c h = [] \<and> ch' = paired ch c h"
proof -
  have ok: "config_ok ch c" using assms by (auto simp: handshake_def split: if_splits)
  obtain own where n: "nonce = Some own" using assms ok by (cases nonce) (auto simp: handshake_def)
  let ?hello = "hello_bytes (hello_of c) @ own"
  obtain s1 o1 e where s: "send_frame ch sends k_hello 0 ?hello = Some (s1, o1, e)"
    using assms ok n by (cases "send_frame ch sends k_hello 0 ?hello") (auto simp: handshake_def)
  have e: "e = None" using assms ok n s by (cases e) (auto simp: handshake_def)
  obtain r1 r where r: "receive_frame ch recvs k_hello = Some (r1, r)"
    using assms ok n s e by (cases "receive_frame ch recvs k_hello") (auto simp: handshake_def)
  obtain q peer where qp: "r = Inr (q, peer)"
    using assms ok n s e r by (cases r) (auto simp: handshake_def)
  have q: "q = 0" using assms ok n s e r qp by (auto simp: handshake_def split: if_splits)
  obtain h pn where h: "read_hello peer = Some (h, pn)"
    using assms ok n s e r qp q by (cases "read_hello peer") (auto simp: handshake_def)
  have "finish_handshake hmac ch c own h pn o1 s1 r1 = Some (ch', sends', recvs', out, None)"
    using assms ok n s e r qp q h by (auto simp: handshake_def)
  from finish_handshake_none[OF this] obtain mac where
    mac: "mac_of hmac c (1 - cfg_rank c) own pn = Some mac" "mismatches c h = []"
      "arrived r1 = frame_bytes k_auth 0 mac @ arrived recvs'" "ch' = paired ch c h" by blast
  have "arrived recvs = peer_stream h pn mac @ arrived recvs'"
    using receive_frame_stream(1)[OF r[unfolded qp]] mac(3) read_hello_inverse[OF h] q
    by (simp add: peer_stream_def)
  with n ok mac read_hello_inverse[OF h] show ?thesis by blast
qed

text \<open>C10. A rank that completes the handshake was shown, in full, a hello of the other rank whose
  settings are its own (but for rank and snapshot budget) and the proof of the token over both
  nonces that only the other rank's side of this connection yields.\<close>

theorem handshake_accepts_only_peer:
  assumes "handshake hmac ch c nonce sends recvs = Some (ch', sends', recvs', out, None)"
  shows "\<exists>own h pn mac. nonce = Some own \<and> config_ok ch c \<and>
    arrived recvs = peer_stream h pn mac @ arrived recvs' \<and>
    he_rank h = 1 - cfg_rank c \<and> h = (hello_of c)\<lparr>he_rank := he_rank h, he_budget := he_budget h\<rparr> \<and>
    mac_of hmac c (1 - cfg_rank c) own pn = Some mac \<and> ch_handshaken ch' \<and>
    ch_snapshot_budget ch' \<le> cfg_snapshot_budget c"
proof -
  from handshake_none[OF assms] obtain own h pn mac where
    "nonce = Some own" "config_ok ch c" "arrived recvs = peer_stream h pn mac @ arrived recvs'"
    "mac_of hmac c (1 - cfg_rank c) own pn = Some mac" and m: "mismatches c h = []" and "ch' = paired ch c h"
    by blast
  moreover have "he_rank h = 1 - cfg_rank c" "h = (hello_of c)\<lparr>he_rank := he_rank h, he_budget := he_budget h\<rparr>"
    using m unfolding mismatches_empty by auto
  moreover have "ch_handshaken (paired ch c h)" "ch_snapshot_budget (paired ch c h) \<le> cfg_snapshot_budget c"
    by (simp_all add: paired_def)
  ultimately show ?thesis by blast
qed

lemma demo_handshake:
  "\<exists>recvs' ch'. handshake demo_hmac (new_channel 0) (demo_config 0) (Some (demo_nonce 4)) [Accepted 1000, Accepted 1000]
     [Arrived (peer_stream (hello_of (demo_config 1)) (demo_nonce 9) (replicate 31 7 @ [1]))] =
     Some (ch', [], recvs', peer_stream (hello_of (demo_config 0)) (demo_nonce 4) (replicate 31 7 @ [0]), None)"
proof -
  let ?s = "peer_stream (hello_of (demo_config 1)) (demo_nonce 9) (replicate 31 7 @ [1])"
  have st: "clean [Arrived ?s]" "arrived [Arrived ?s] = ?s @ []"
    by (simp_all add: peer_stream_def frame_header header_bytes_def u32_bytes_def)
  have macs: "mac_of demo_hmac (demo_config 0) (cfg_rank (demo_config 0)) (demo_nonce 4) (demo_nonce 9) = Some (replicate 31 7 @ [0])"
    "mac_of demo_hmac (demo_config 0) (1 - cfg_rank (demo_config 0)) (demo_nonce 4) (demo_nonce 9) = Some (replicate 31 7 @ [1])"
    using demo_handshake_facts(4,5) by (simp_all add: mac_of_def nonces_def demo_config_def)
  have mm: "mismatches (demo_config 0) (hello_of (demo_config 1)) = []"
    by (simp add: mismatches_def Let_def differs_def hello_of_def demo_config_def)
  show ?thesis
    using handshake_run[OF demo_handshake_facts(1) _ _ _ _ macs _ st] mm
    by (auto simp: new_channel_def k_defs)
qed

theorem handshake_accepts_only_peer_witness:
  "\<exists>h pn mac rest. peer_stream (hello_of (demo_config 1)) (demo_nonce 9) (replicate 31 7 @ [1]) =
      peer_stream h pn mac @ rest \<and> he_rank h = 1 \<and> he_context h = 4096"
proof -
  obtain recvs' ch' where "handshake demo_hmac (new_channel 0) (demo_config 0) (Some (demo_nonce 4)) [Accepted 1000, Accepted 1000]
     [Arrived (peer_stream (hello_of (demo_config 1)) (demo_nonce 9) (replicate 31 7 @ [1]))] =
     Some (ch', [], recvs', peer_stream (hello_of (demo_config 0)) (demo_nonce 4) (replicate 31 7 @ [0]), None)"
    using demo_handshake by blast
  from handshake_accepts_only_peer[OF this] obtain h pn mac where
    h: "peer_stream (hello_of (demo_config 1)) (demo_nonce 9) (replicate 31 7 @ [1]) = peer_stream h pn mac @ arrived recvs'"
    "he_rank h = 1" "h = (hello_of (demo_config 0))\<lparr>he_rank := he_rank h, he_budget := he_budget h\<rparr>"
    by (auto simp: demo_config_def)
  have "he_context h = 4096" by (subst h(3)) (simp add: hello_of_def demo_config_def)
  with h show ?thesis by blast
qed



end
