(* ===== verification/Tp_Broker.thy ===== *)
theory Tp_Broker
  imports Tp_Handshake
begin

text \<open>
  \<open>TpResponseBroker\<close> (\<open>src/cli/serve/tp_control.cpp\<close>): rank 0's owner of the responses. Every method
  holds the mutex, so a method is one atomic step, except the two waits, which let it go while
  they sleep: each is a step that enters the wait and a step that leaves it, \<open>None\<close> while its
  condition does not hold. One turn of the reader thread's loop is the step \<open>on_receive\<close>. The
  \<open>Pending\<close> objects are shared pointers, so they live in a list and the map names their positions.
\<close>

section \<open>State\<close>

record pending_response =
  pd_response :: tp_response
  pd_ready :: bool
  pd_delivered :: bool

record broker =
  br_capacity :: nat
  br_objects :: "pending_response list"
  br_pending :: "u64 \<rightharpoonup> nat"
  br_ack_expected :: bool
  br_ack_ready :: bool
  br_ack_sequence :: u64
  br_ack_index :: u64
  br_ack_error :: string
  br_stopping :: bool
  br_poisoned :: bool
  br_failure :: string
  br_interrupted :: bool
  br_reading :: bool

definition new_pending :: pending_response where
  "new_pending = \<lparr>pd_response = default_response, pd_ready = False, pd_delivered = False\<rparr>"

text \<open>The constructor: it needs a rank-zero channel and a capacity.\<close>

definition new_broker :: "channel option \<Rightarrow> nat \<Rightarrow> string + broker" where
  "new_broker control capacity =
     (if (case control of None \<Rightarrow> True | Some ch \<Rightarrow> ch_rank ch \<noteq> 0) \<or> capacity = 0
      then Inl ''TP response broker requires a rank-zero channel and capacity''
      else Inr \<lparr>br_capacity = capacity, br_objects = [], br_pending = Map.empty,
                br_ack_expected = False, br_ack_ready = False, br_ack_sequence = 0,
                br_ack_index = 0, br_ack_error = [], br_stopping = False, br_poisoned = False,
                br_failure = [], br_interrupted = False, br_reading = True\<rparr>)"

text \<open>\<open>pending.size()\<close>.\<close>

definition pending_count :: "broker \<Rightarrow> nat" where
  "pending_count b = card (dom (br_pending b))"

section \<open>The reader\<close>

definition poison :: "string \<Rightarrow> broker \<Rightarrow> broker" where
  "poison reason b = b\<lparr>br_stopping := True, br_poisoned := True, br_failure := reason\<rparr>"

definition set_object :: "nat \<Rightarrow> pending_response \<Rightarrow> broker \<Rightarrow> broker" where
  "set_object i p b = b\<lparr>br_objects := (br_objects b)[i := p]\<rparr>"

text \<open>One turn of \<open>ReadLoop\<close> on the result of \<open>ReceiveResponse\<close>; leaving the loop clears
  \<open>br_reading\<close>.\<close>

definition leave_loop :: "broker \<Rightarrow> broker" where
  "leave_loop b = b\<lparr>br_reading := False\<rparr>"

definition on_receive :: "broker \<Rightarrow> string + tp_response \<Rightarrow> broker" where
  "on_receive b received =
     (case received of
        Inl e \<Rightarrow>
          leave_loop (if \<not> br_stopping b
                      then poison (''TP worker response receive failed: '' @ e) b else b)
      | Inr r \<Rightarrow>
          if br_stopping b then leave_loop b
          else if rs_kind r = RInstruction then
            (if \<not> br_ack_expected b \<or> br_ack_ready b \<or> br_ack_sequence b \<noteq> rs_sequence r \<or>
                br_ack_index b \<noteq> rs_instruction_index r
             then leave_loop ((poison ''TP cache acknowledgement is unknown or duplicate'' b)
                    \<lparr>br_interrupted := True\<rparr>)
             else b\<lparr>br_ack_error := rs_error r, br_ack_ready := True\<rparr>)
          else if br_ack_expected b \<and> br_ack_sequence b = rs_sequence r then
            leave_loop ((poison (''TP final response arrived before cache acknowledgement was '' @ ''consumed'') b)
              \<lparr>br_interrupted := True\<rparr>)
          else
            (let bad = leave_loop ((poison (''TP response sequence is unknown or duplicate: '' @
                         digits_of_nat (unat (rs_sequence r))) b)\<lparr>br_interrupted := True\<rparr>)
             in case br_pending b (rs_sequence r) of
                  None \<Rightarrow> bad
                | Some i \<Rightarrow>
                    if pd_ready (br_objects b ! i) then bad
                    else set_object i ((br_objects b ! i)\<lparr>pd_response := r, pd_ready := True\<rparr>) b))"

text \<open>\<open>Stop\<close>, the destructor and \<open>FailAll\<close>: the join waits for the reader, which the interrupted
  channel ends.\<close>

definition stop :: "broker \<Rightarrow> string \<Rightarrow> broker" where
  "stop b reason =
     (let b1 = (if br_stopping b then b else poison reason b)
      in leave_loop (b1\<lparr>br_interrupted := True\<rparr>))"

section \<open>Cache acknowledgements\<close>

definition register_instruction :: "broker \<Rightarrow> u64 \<Rightarrow> u64 \<Rightarrow> broker \<times> string option" where
  "register_instruction b sequence index =
     (if br_stopping b \<or> br_poisoned b \<or> br_ack_expected b \<or> br_pending b sequence = None
      then (b, Some (''TP cache acknowledgement cannot be registered: '' @ br_failure b))
      else (b\<lparr>br_ack_sequence := sequence, br_ack_index := index, br_ack_expected := True,
              br_ack_ready := False, br_ack_error := []\<rparr>, None))"

definition enter_instruction_wait :: "broker \<Rightarrow> string option" where
  "enter_instruction_wait b =
     (if br_ack_expected b then None else Some ''TP cache acknowledgement is not registered'')"

text \<open>The error string of the acknowledgement is the caller's result; empty means success.\<close>

definition leave_instruction_wait :: "broker \<Rightarrow> (broker \<times> bool \<times> string) option" where
  "leave_instruction_wait b =
     (if br_ack_ready b \<or> br_stopping b \<or> br_poisoned b
      then (let b1 = b\<lparr>br_ack_expected := False\<rparr>
            in if br_stopping b \<or> br_poisoned b then Some (b1, False, br_failure b)
               else Some (b1, br_ack_error b = [], br_ack_error b))
      else None)"

section \<open>Responses\<close>

definition stopped_reason :: "broker \<Rightarrow> string" where
  "stopped_reason b = (if br_failure b = [] then ''TP response broker is stopped'' else br_failure b)"

definition register_pending :: "broker \<Rightarrow> u64 \<Rightarrow> broker \<times> string option" where
  "register_pending b sequence =
     (if br_stopping b \<or> br_poisoned b then (b, Some (stopped_reason b))
      else if pending_count b \<ge> br_capacity b
      then (b, Some ''TP response broker capacity is exhausted'')
      else if br_pending b sequence \<noteq> None
      then (b, Some ''TP response sequence is already registered'')
      else (b\<lparr>br_objects := br_objects b @ [new_pending],
              br_pending := (br_pending b)(sequence \<mapsto> length (br_objects b))\<rparr>, None))"

definition cancel_unsent :: "broker \<Rightarrow> u64 \<Rightarrow> broker \<times> string option" where
  "cancel_unsent b sequence =
     (case br_pending b sequence of
        None \<Rightarrow> (b, Some ''TP response sequence is not registered'')
      | Some i \<Rightarrow>
          if pd_ready (br_objects b ! i)
          then (let reason = ''TP response arrived before command send completed: '' @
                             digits_of_nat (unat sequence)
                in ((poison reason b)\<lparr>br_interrupted := True\<rparr>, Some reason))
          else (b\<lparr>br_pending := (br_pending b)(sequence := None)\<rparr>, None))"

text \<open>Entering the wait gives the \<open>Pending\<close> object the caller keeps.\<close>

definition enter_wait :: "broker \<Rightarrow> u64 \<Rightarrow> string + nat" where
  "enter_wait b sequence =
     (case br_pending b sequence of
        None \<Rightarrow> Inl ''TP response sequence is not registered''
      | Some i \<Rightarrow> Inr i)"

definition leave_wait :: "broker \<Rightarrow> u64 \<Rightarrow> nat \<Rightarrow> (broker \<times> (string + tp_response)) option" where
  "leave_wait b sequence i =
     (let p = br_objects b ! i
      in if \<not> (pd_ready p \<or> br_poisoned b \<or> br_stopping b) then None
         else if pd_delivered p then Some (b, Inl ''TP response sequence was already consumed'')
         else if br_poisoned b \<or> br_stopping b then Some (b, Inl (stopped_reason b))
         else if pd_ready p
         then Some ((set_object i (p\<lparr>pd_delivered := True\<rparr>) b)
                      \<lparr>br_pending := (br_pending b)(sequence := None)\<rparr>, Inr (pd_response p))
         else Some (b, Inl (stopped_reason b)))"

definition failure :: "broker \<Rightarrow> string" where
  "failure b = (if \<not> br_poisoned b \<and> \<not> br_stopping b then [] else stopped_reason b)"

end
