(* ===== verification/Tp_Broker_Properties.thy ===== *)
theory Tp_Broker_Properties
  imports Tp_Broker
begin

text \<open>
  The response broker as a transition system: its methods, the reader's turns and the two waits
  interleave in any order. \<open>ws\<close> are the threads inside \<open>WaitForResponse\<close>, each with the sequence it
  waits for and the object it holds.
\<close>

section \<open>Transitions\<close>

type_synonym broker_system = "broker \<times> (u64 \<times> nat) list"

inductive broker_step :: "broker_system \<Rightarrow> broker_system \<Rightarrow> bool" where
  Receive: "br_reading b \<Longrightarrow> broker_step (b, ws) (on_receive b received, ws)"
| Stop: "broker_step (b, ws) (stop b reason, ws)"
| RegisterInstruction: "broker_step (b, ws) (fst (register_instruction b sequence index), ws)"
| LeaveInstruction: "leave_instruction_wait b = Some (b', ok, e) \<Longrightarrow> broker_step (b, ws) (b', ws)"
| Register: "broker_step (b, ws) (fst (register_pending b sequence), ws)"
| Cancel: "broker_step (b, ws) (fst (cancel_unsent b sequence), ws)"
| EnterWait: "enter_wait b sequence = Inr i \<Longrightarrow> broker_step (b, ws) (b, (sequence, i) # ws)"
| LeaveWait: "(sequence, i) \<in> set ws \<Longrightarrow> leave_wait b sequence i = Some (b', r) \<Longrightarrow>
    broker_step (b, ws) (b', remove1 (sequence, i) ws)"

inductive broker_reachable :: "nat \<Rightarrow> broker_system \<Rightarrow> bool" for capacity where
  Start: "new_broker (Some ch) capacity = Inr b \<Longrightarrow> broker_reachable capacity (b, [])"
| Step: "broker_reachable capacity s \<Longrightarrow> broker_step s s' \<Longrightarrow> broker_reachable capacity s'"

section \<open>The invariant\<close>

definition object_ok :: "u64 \<Rightarrow> pending_response \<Rightarrow> bool" where
  "object_ok s p \<longleftrightarrow> \<not> pd_delivered p \<and>
     (pd_ready p \<longrightarrow> rs_sequence (pd_response p) = s \<and> rs_kind (pd_response p) \<noteq> RInstruction)"

definition objects_ok :: "pending_response list \<Rightarrow> (u64 \<rightharpoonup> nat) \<Rightarrow> bool" where
  "objects_ok objs m \<longleftrightarrow>
     (\<forall>s i. m s = Some i \<longrightarrow> i < length objs \<and> object_ok s (objs ! i)) \<and>
     (\<forall>s s' i. m s = Some i \<longrightarrow> m s' = Some i \<longrightarrow> s = s')"

definition waiter_ok :: "pending_response list \<Rightarrow> (u64 \<rightharpoonup> nat) \<Rightarrow> u64 \<Rightarrow> nat \<Rightarrow> bool" where
  "waiter_ok objs m s i \<longleftrightarrow> i < length objs \<and> (\<forall>s'. m s' = Some i \<longrightarrow> s' = s) \<and>
     (pd_ready (objs ! i) \<longrightarrow> \<not> pd_delivered (objs ! i) \<longrightarrow> m s = Some i)"

definition broker_ok :: "nat \<Rightarrow> broker_system \<Rightarrow> bool" where
  "broker_ok capacity s \<longleftrightarrow> (case s of (b, ws) \<Rightarrow>
     objects_ok (br_objects b) (br_pending b) \<and>
     (\<forall>(s, i) \<in> set ws. waiter_ok (br_objects b) (br_pending b) s i) \<and>
     finite (dom (br_pending b)) \<and> card (dom (br_pending b)) \<le> capacity \<and>
     br_capacity b = capacity \<and> br_poisoned b = br_stopping b)"

lemma objects_okD:
  assumes "objects_ok objs m" "m s = Some i"
  shows "i < length objs" "object_ok s (objs ! i)" "m s' = Some i \<Longrightarrow> s' = s"
  using assms unfolding objects_ok_def by blast+

section \<open>The four changes of the objects\<close>

lemma objects_register:
  assumes "objects_ok objs m"
  shows "objects_ok (objs @ [new_pending]) (m(s \<mapsto> length objs))"
proof -
  have old: "i < length objs" if "m t = Some i" for t i using objects_okD(1)[OF assms that] .
  have "object_ok s new_pending" by (simp add: object_ok_def new_pending_def)
  moreover have fresh: "m t \<noteq> Some (length objs)" for t using old by blast
  ultimately have "i < length (objs @ [new_pending]) \<and> object_ok t ((objs @ [new_pending]) ! i)"
    if "(m(s \<mapsto> length objs)) t = Some i" for t i
    using that objects_okD(1,2)[OF assms, of t i] by (cases "t = s") (auto simp: nth_append)
  moreover have "t = t'"
    if "(m(s \<mapsto> length objs)) t = Some i" "(m(s \<mapsto> length objs)) t' = Some i" for t t' i
    using that fresh objects_okD(3)[OF assms] by (metis fun_upd_apply option.inject)
  ultimately show ?thesis unfolding objects_ok_def by blast
qed

lemma waiter_okI:
  assumes "j < length objs" "\<And>t'. m t' = Some j \<Longrightarrow> t' = t"
    and "pd_ready (objs ! j) \<Longrightarrow> \<not> pd_delivered (objs ! j) \<Longrightarrow> m t = Some j"
  shows "waiter_ok objs m t j"
  using assms unfolding waiter_ok_def by blast

lemma waiter_okD:
  assumes "waiter_ok objs m t j"
  shows "j < length objs" "m t' = Some j \<Longrightarrow> t' = t"
    "pd_ready (objs ! j) \<Longrightarrow> \<not> pd_delivered (objs ! j) \<Longrightarrow> m t = Some j"
  using assms unfolding waiter_ok_def by blast+

lemma waiter_register:
  assumes "waiter_ok objs m t j" "m s = None"
  shows "waiter_ok (objs @ [new_pending]) (m(s \<mapsto> length objs)) t j"
proof (rule waiter_okI)
  show "j < length (objs @ [new_pending])" using waiter_okD(1)[OF assms(1)] by simp
  show "t' = t" if "(m(s \<mapsto> length objs)) t' = Some j" for t'
    using that waiter_okD(1,2)[OF assms(1)] by (metis fun_upd_apply nat_neq_iff option.inject)
  show "(m(s \<mapsto> length objs)) t = Some j"
    if "pd_ready ((objs @ [new_pending]) ! j)" "\<not> pd_delivered ((objs @ [new_pending]) ! j)"
    using that waiter_okD(1,3)[OF assms(1)] assms(2)
    by (metis fun_upd_apply nth_append option.distinct(1))
qed

lemma objects_remove: "objects_ok objs m \<Longrightarrow> objects_ok objs (m(s := None))"
  by (simp add: objects_ok_def)

lemma waiter_remove:
  assumes "waiter_ok objs m t j" "m s = Some i" "\<not> pd_ready (objs ! i)"
  shows "waiter_ok objs (m(s := None)) t j"
  using waiter_okD[OF assms(1)] assms(2,3)
  by (intro waiter_okI) (metis fun_upd_apply option.distinct(1) option.inject)+

lemma objects_set:
  assumes "objects_ok objs m" "m s = Some i" "object_ok s p"
  shows "objects_ok (objs[i := p]) m"
proof -
  have "j < length (objs[i := p]) \<and> object_ok t (objs[i := p] ! j)" if "m t = Some j" for t j
  proof (cases "j = i")
    case True
    have "t = s" using objects_okD(3)[OF assms(1,2)] that True by blast
    with True assms(3) objects_okD(1)[OF assms(1,2)] show ?thesis by simp
  next
    case False
    then show ?thesis using objects_okD(1,2)[OF assms(1) that] by simp
  qed
  moreover have "t = t'" if "m t = Some j" "m t' = Some j" for t t' j
    by (rule objects_okD(3)[OF assms(1) that(2,1)])
  ultimately show ?thesis unfolding objects_ok_def by blast
qed

lemma waiter_set:
  assumes "waiter_ok objs m t j" "m s = Some i"
  shows "waiter_ok (objs[i := p]) m t j"
proof (rule waiter_okI)
  show "j < length (objs[i := p])" using waiter_okD(1)[OF assms(1)] by simp
  show "t' = t" if "m t' = Some j" for t' using that waiter_okD(2)[OF assms(1)] by blast
  show "m t = Some j" if "pd_ready (objs[i := p] ! j)" "\<not> pd_delivered (objs[i := p] ! j)"
    using that waiter_okD(2,3)[OF assms(1)] assms(2) by (metis nth_list_update_neq)
qed

lemma objects_deliver:
  assumes "objects_ok objs m" "m s = Some i"
  shows "objects_ok (objs[i := p]) (m(s := None))"
proof -
  have "j \<noteq> i" if "m t = Some j" "t \<noteq> s" for t j
    using objects_okD(3)[OF assms, of t] that by auto
  then have "j < length (objs[i := p]) \<and> object_ok t (objs[i := p] ! j)"
    if "(m(s := None)) t = Some j" for t j
    using that objects_okD(1,2)[OF assms(1), of t j]
    by (metis fun_upd_apply length_list_update nth_list_update_neq option.distinct(1))
  moreover have "t = t'" if "(m(s := None)) t = Some j" "(m(s := None)) t' = Some j" for t t' j
    using that objects_okD(3)[OF assms(1)] by (metis fun_upd_apply option.distinct(1))
  ultimately show ?thesis unfolding objects_ok_def by blast
qed

lemma waiter_deliver:
  assumes "waiter_ok objs m t j" "m s = Some i" "pd_delivered p"
  shows "waiter_ok (objs[i := p]) (m(s := None)) t j"
proof (rule waiter_okI)
  show "j < length (objs[i := p])" using waiter_okD(1)[OF assms(1)] by simp
  show "t' = t" if "(m(s := None)) t' = Some j" for t'
    using that waiter_okD(2)[OF assms(1)] by (metis fun_upd_apply option.distinct(1))
  show "(m(s := None)) t = Some j"
    if "pd_ready (objs[i := p] ! j)" "\<not> pd_delivered (objs[i := p] ! j)"
  proof -
    have "j \<noteq> i" using that(2) assms(3) waiter_okD(1)[OF assms(1)] by auto
    then show ?thesis using that waiter_okD(3)[OF assms(1)] assms(2) by auto
  qed
qed

lemma card_remove:
  "finite (dom m) \<Longrightarrow> card (dom m) \<le> n \<Longrightarrow> card (dom m - {s}) \<le> n"
  by (meson card_Diff1_le le_trans)

section \<open>Each step keeps the invariant\<close>

text \<open>Steps that leave the objects and the map alone.\<close>

lemma broker_ok_same:
  assumes "broker_ok capacity (b, ws)" "br_objects b' = br_objects b" "br_pending b' = br_pending b"
    and "br_capacity b' = br_capacity b" "br_poisoned b' = br_stopping b'"
  shows "broker_ok capacity (b', ws)"
  using assms by (simp add: broker_ok_def)

lemma poison_fields [simp]:
  "br_objects (poison r b) = br_objects b" "br_pending (poison r b) = br_pending b"
  "br_capacity (poison r b) = br_capacity b" "br_poisoned (poison r b)" "br_stopping (poison r b)"
  by (simp_all add: poison_def)

lemma leave_loop_fields [simp]:
  "br_objects (leave_loop b) = br_objects b" "br_pending (leave_loop b) = br_pending b"
  "br_capacity (leave_loop b) = br_capacity b" "br_poisoned (leave_loop b) = br_poisoned b"
  "br_stopping (leave_loop b) = br_stopping b"
  by (simp_all add: leave_loop_def)

lemma set_object_fields [simp]:
  "br_objects (set_object i p b) = (br_objects b)[i := p]" "br_pending (set_object i p b) = br_pending b"
  "br_capacity (set_object i p b) = br_capacity b" "br_poisoned (set_object i p b) = br_poisoned b"
  "br_stopping (set_object i p b) = br_stopping b"
  by (simp_all add: set_object_def)

text \<open>A turn of the reader either fills the object registered under the sequence or leaves all
  objects alone.\<close>

lemma on_receive_cases:
  obtains (fill) r i where "received = Inr r" "br_pending b (rs_sequence r) = Some i" "rs_kind r \<noteq> RInstruction"
      "on_receive b received = set_object i ((br_objects b ! i)\<lparr>pd_response := r, pd_ready := True\<rparr>) b"
      "\<not> pd_ready (br_objects b ! i)" "\<not> br_stopping b"
  | (other) "br_objects (on_receive b received) = br_objects b" "br_pending (on_receive b received) = br_pending b"
      "br_capacity (on_receive b received) = br_capacity b"
      "br_poisoned b = br_stopping b \<longrightarrow> br_poisoned (on_receive b received) = br_stopping (on_receive b received)"
proof (cases received)
  case (Inl e)
  then show ?thesis by (intro other) (simp_all add: on_receive_def)
next
  case (Inr r)
  let ?ack = "br_ack_expected b \<and> br_ack_sequence b = rs_sequence r"
  consider (1) "br_stopping b \<or> rs_kind r = RInstruction \<or> ?ack \<or> br_pending b (rs_sequence r) = None"
    | (2) i where "\<not> (br_stopping b \<or> rs_kind r = RInstruction \<or> ?ack)" "br_pending b (rs_sequence r) = Some i"
      "pd_ready (br_objects b ! i)"
    | (3) i where "\<not> (br_stopping b \<or> rs_kind r = RInstruction \<or> ?ack)" "br_pending b (rs_sequence r) = Some i"
      "\<not> pd_ready (br_objects b ! i)"
    by (cases "br_pending b (rs_sequence r)") blast+
  then show ?thesis
  proof cases
    case 1
    then show ?thesis by (intro other) (auto simp: on_receive_def Inr Let_def)
  next
    case (2 i)
    then show ?thesis by (intro other) (simp_all add: on_receive_def Inr Let_def)
  next
    case (3 i)
    then have "on_receive b received = set_object i ((br_objects b ! i)\<lparr>pd_response := r, pd_ready := True\<rparr>) b"
      using Inr by (auto simp: on_receive_def Let_def)
    with 3 Inr show ?thesis by (intro fill[of r i]) simp_all
  qed
qed

lemma broker_ok_receive:
  assumes ok: "broker_ok capacity (b, ws)"
  shows "broker_ok capacity (on_receive b received, ws)"
proof (cases rule: on_receive_cases[of received b])
  case (fill r i)
  have o: "objects_ok (br_objects b) (br_pending b)" using ok by (simp add: broker_ok_def)
  from objects_okD(2)[OF this fill(2)] fill(3)
  have "object_ok (rs_sequence r) ((br_objects b ! i)\<lparr>pd_response := r, pd_ready := True\<rparr>)"
    by (simp add: object_ok_def)
  with fill objects_set[OF o fill(2)] ok show ?thesis
    by (auto simp: broker_ok_def waiter_set)
next
  case other
  then show ?thesis using ok by (intro broker_ok_same[OF ok]) (auto simp: broker_ok_def)
qed

lemma broker_ok_register:
  assumes ok: "broker_ok capacity (b, ws)"
  shows "broker_ok capacity (fst (register_pending b sequence), ws)"
proof (cases "snd (register_pending b sequence) = None")
  case True
  then have "br_pending b sequence = None" "card (dom (br_pending b)) < br_capacity b"
    "fst (register_pending b sequence) = b\<lparr>br_objects := br_objects b @ [new_pending],
              br_pending := (br_pending b)(sequence \<mapsto> length (br_objects b))\<rparr>"
    by (auto simp: register_pending_def pending_count_def split: if_splits)
  with ok show ?thesis
    by (auto simp: broker_ok_def objects_register waiter_register card_insert_if domIff)
next
  case False
  then have "fst (register_pending b sequence) = b" by (auto simp: register_pending_def)
  with ok show ?thesis by simp
qed

lemma broker_ok_cancel:
  assumes ok: "broker_ok capacity (b, ws)"
  shows "broker_ok capacity (fst (cancel_unsent b sequence), ws)"
proof (cases "br_pending b sequence")
  case None
  with ok show ?thesis by (simp add: cancel_unsent_def)
next
  case (Some i)
  with ok show ?thesis
    by (auto simp: broker_ok_def cancel_unsent_def Let_def objects_remove card_remove intro: waiter_remove)
qed

lemma broker_ok_leave:
  assumes ok: "broker_ok capacity (b, ws)" and w: "(sequence, i) \<in> set ws"
    and l: "leave_wait b sequence i = Some (b', r)"
  shows "broker_ok capacity (b', ws)"
proof (cases r)
  case (Inl e)
  with l have "b' = b" by (auto simp: leave_wait_def Let_def split: if_splits)
  with ok show ?thesis by simp
next
  case (Inr resp)
  let ?p = "br_objects b ! i"
  have d: "pd_ready ?p" "\<not> pd_delivered ?p"
    and b': "b' = (set_object i (?p\<lparr>pd_delivered := True\<rparr>) b)\<lparr>br_pending := (br_pending b)(sequence := None)\<rparr>"
    using l Inr by (auto simp: leave_wait_def Let_def split: if_splits)
  have "waiter_ok (br_objects b) (br_pending b) sequence i" using ok w by (auto simp: broker_ok_def)
  with d have p: "br_pending b sequence = Some i" by (simp add: waiter_ok_def)
  with ok show ?thesis
    unfolding b' by (auto simp: broker_ok_def objects_deliver card_remove intro: waiter_deliver)
qed

lemma broker_ok_step: "broker_step s s' \<Longrightarrow> broker_ok capacity s \<Longrightarrow> broker_ok capacity s'"
proof (induction rule: broker_step.induct)
  case (Receive b ws received)
  then show ?case by (simp add: broker_ok_receive)
next
  case (Stop b ws reason)
  then show ?case by (intro broker_ok_same[OF Stop]) (auto simp: stop_def Let_def broker_ok_def)
next
  case (RegisterInstruction b ws sequence index)
  then show ?case
    by (intro broker_ok_same[OF RegisterInstruction]) (auto simp: register_instruction_def broker_ok_def)
next
  case (LeaveInstruction b b' ok e ws)
  then show ?case
    by (intro broker_ok_same[OF LeaveInstruction(2)])
      (auto simp: leave_instruction_wait_def Let_def broker_ok_def split: if_splits)
next
  case (Register b ws sequence)
  then show ?case by (simp add: broker_ok_register)
next
  case (Cancel b ws sequence)
  then show ?case by (simp add: broker_ok_cancel)
next
  case (EnterWait b sequence i ws)
  then have p: "br_pending b sequence = Some i" by (simp add: enter_wait_def split: option.splits)
  have o: "objects_ok (br_objects b) (br_pending b)" using EnterWait by (simp add: broker_ok_def)
  have "waiter_ok (br_objects b) (br_pending b) sequence i"
    using objects_okD(1,3)[OF o p] p by (intro waiter_okI) blast+
  with EnterWait show ?case by (simp add: broker_ok_def)
next
  case (LeaveWait sequence i ws b b' r)
  from broker_ok_leave[OF LeaveWait(3,1,2)] show ?case
    by (auto simp: broker_ok_def dest: notin_set_remove1)
qed

lemma broker_reachable_ok: "broker_reachable capacity s \<Longrightarrow> broker_ok capacity s"
proof (induction rule: broker_reachable.induct)
  case (Start ch b)
  then show ?case
    by (auto simp: new_broker_def broker_ok_def objects_ok_def split: if_splits)
qed (rule broker_ok_step)

section \<open>What persists\<close>

text \<open>An object that was handed over stays so, and a stopped broker stays stopped.\<close>

lemma delivered_step:
  assumes "broker_step (b, ws) (b', ws')" "broker_ok capacity (b, ws)"
    and "i < length (br_objects b)" "pd_delivered (br_objects b ! i)"
  shows "i < length (br_objects b') \<and> pd_delivered (br_objects b' ! i)"
  using assms
proof (cases rule: broker_step.cases)
  case (Receive received)
  show ?thesis
  proof (cases rule: on_receive_cases[of received b])
    case (fill r j)
    then show ?thesis using Receive assms(3,4) by (cases "j = i") auto
  next
    case other
    then show ?thesis using Receive assms(3,4) by simp
  qed
next
  case (LeaveInstruction ok e)
  then show ?thesis using assms(3,4) by (auto simp: leave_instruction_wait_def Let_def split: if_splits)
next
  case (LeaveWait sequence j r)
  then show ?thesis
    using assms(3,4) by (cases "j = i") (auto simp: leave_wait_def Let_def split: if_splits)
qed (auto simp: stop_def Let_def register_instruction_def register_pending_def cancel_unsent_def nth_append
      split: option.splits)

lemma stopping_step:
  assumes "broker_step (b, ws) (b', ws')" "br_stopping b"
  shows "br_stopping b'"
  using assms
proof (cases rule: broker_step.cases)
  case (Receive received)
  then show ?thesis using assms(2) by (auto simp: on_receive_def split: sum.splits)
next
  case (LeaveInstruction ok e)
  then show ?thesis using assms(2) by (auto simp: leave_instruction_wait_def Let_def split: if_splits)
next
  case (LeaveWait sequence j r)
  then show ?thesis using assms(2) by (auto simp: leave_wait_def Let_def split: if_splits)
qed (auto simp: stop_def Let_def register_instruction_def register_pending_def cancel_unsent_def
      split: option.splits)

lemma broker_steps_ok: "broker_step\<^sup>*\<^sup>* s s' \<Longrightarrow> broker_ok capacity s \<Longrightarrow> broker_ok capacity s'"
  by (induction rule: rtranclp_induct) (auto intro: broker_ok_step)

lemma delivered_steps:
  "broker_step\<^sup>*\<^sup>* s s' \<Longrightarrow> broker_ok capacity s \<Longrightarrow> i < length (br_objects (fst s)) \<Longrightarrow>
   pd_delivered (br_objects (fst s) ! i) \<Longrightarrow>
   i < length (br_objects (fst s')) \<and> pd_delivered (br_objects (fst s') ! i)"
proof (induction rule: rtranclp_induct)
  case (step y z)
  obtain b ws b' ws' where "y = (b, ws)" "z = (b', ws')" by (cases y, cases z) auto
  with step delivered_step[of b ws b' ws' capacity i] broker_steps_ok[OF step(1), of capacity]
  show ?case by simp
qed simp

lemma stopping_steps:
  "broker_step\<^sup>*\<^sup>* s s' \<Longrightarrow> br_stopping (fst s) \<Longrightarrow> br_stopping (fst s')"
proof (induction rule: rtranclp_induct)
  case (step y z)
  obtain b ws b' ws' where "y = (b, ws)" "z = (b', ws')" by (cases y, cases z) auto
  with step stopping_step[of b ws b' ws'] show ?case by simp
qed simp

lemma leave_wait_delivered:
  assumes "pd_delivered (br_objects b ! i)" shows "leave_wait b sequence i \<noteq> Some (b', Inr r)"
  using assms by (auto simp: leave_wait_def Let_def)

lemma leave_wait_stopped:
  assumes "br_stopping b" shows "\<exists>e. leave_wait b sequence i = Some (b, Inl e)"
  using assms by (auto simp: leave_wait_def Let_def)

section \<open>Properties\<close>



text \<open>C14. After \<open>Stop\<close> the broker stays stopped whatever happens next: every thread inside
  \<open>WaitForResponse\<close> is let go with an error, the acknowledgement wait fails, and nothing can be
  registered any more.\<close>

theorem broker_stop_is_final:
  assumes "broker_step\<^sup>*\<^sup>* (stop b reason, ws) (b', ws')"
  shows "br_stopping b' \<and> (\<exists>e. leave_wait b' sequence i = Some (b', Inl e)) \<and>
    (\<exists>b2 e. leave_instruction_wait b' = Some (b2, False, e)) \<and>
    register_pending b' sequence = (b', Some (stopped_reason b')) \<and> fst (register_instruction b' sequence index) = b'"
proof -
  have "br_stopping (fst (stop b reason, ws))" by (simp add: stop_def Let_def)
  from stopping_steps[OF assms this] have "br_stopping b'" by simp
  with leave_wait_stopped show ?thesis
    by (simp add: leave_instruction_wait_def register_pending_def register_instruction_def)
qed

section \<open>Witnesses\<close>

text \<open>One exchange: a request registers sequence 7, enters the wait, the reader gets its response.\<close>

definition demo_broker :: broker where
  "demo_broker = \<lparr>br_capacity = 2, br_objects = [], br_pending = Map.empty,
     br_ack_expected = False, br_ack_ready = False, br_ack_sequence = 0,
     br_ack_index = 0, br_ack_error = [], br_stopping = False, br_poisoned = False,
     br_failure = [], br_interrupted = False, br_reading = True\<rparr>"

definition demo_answer :: tp_response where
  "demo_answer = default_response\<lparr>rs_sequence := 7\<rparr>"

definition demo_waiting :: broker where
  "demo_waiting = fst (register_pending demo_broker 7)"

definition demo_answered :: broker where
  "demo_answered = on_receive demo_waiting (Inr demo_answer)"

lemmas demo_broker_defs = demo_answered_def demo_waiting_def demo_broker_def demo_answer_def
  register_pending_def on_receive_def pending_count_def new_pending_def set_object_def default_response_def

lemma demo_start: "broker_reachable 2 (demo_broker, [])"
  by (rule broker_reachable.Start[of "new_channel 0"])
    (simp add: new_broker_def new_channel_def demo_broker_def)

lemma demo_answered_reachable: "broker_reachable 2 (demo_answered, [(7, 0)])"
proof -
  have "broker_reachable 2 (demo_waiting, [])"
    unfolding demo_waiting_def by (rule broker_reachable.Step[OF demo_start broker_step.Register])
  moreover have "enter_wait demo_waiting 7 = Inr 0" by (simp add: enter_wait_def demo_broker_defs)
  ultimately have "broker_reachable 2 (demo_waiting, [(7, 0)])"
    by (rule broker_reachable.Step[OF _ broker_step.EnterWait])
  moreover have "br_reading demo_waiting" by (simp add: demo_broker_defs)
  ultimately show ?thesis
    unfolding demo_answered_def by (rule broker_reachable.Step[OF _ broker_step.Receive])
qed

lemma demo_leave: "\<exists>b'. leave_wait demo_answered 7 0 = Some (b', Inr demo_answer)"
proof -
  have "br_objects demo_answered = [\<lparr>pd_response = demo_answer, pd_ready = True, pd_delivered = False\<rparr>]"
    by (simp add: demo_broker_defs)
  moreover have "\<not> br_stopping demo_answered" "\<not> br_poisoned demo_answered" by (simp_all add: demo_broker_defs)
  ultimately show ?thesis by (auto simp: leave_wait_def Let_def)
qed



theorem broker_stop_is_final_witness: "br_stopping (stop demo_answered ''shutdown'')"
  using broker_stop_is_final[of demo_answered "''shutdown''" "[(7, 0)]" "stop demo_answered ''shutdown''"
      "[(7, 0)]"] by simp

end
