(* ===== verification/Prompt_Heads.thy ===== *)
theory Prompt_Heads
  imports Gufo_Prelude "HOL-Library.Monad_Syntax"
begin

unbundle bit_operations_syntax

text \<open>
  \<open>PromptLookup::Heads\<close> (\<open>src/core/speculative/prompt_lookup.hpp\<close>): the open-addressing hash table
  from a packed token triple to the end of its most recent occurrence. The vectors are lists, the
  probing loops are partial functions whose result \<open>None\<close> stands for a loop that never ends. The
  lemmas show that every operation ends and that the table is a finite map; the locale
  \<open>head_table\<close> is the interface the lookup uses.
\<close>

section \<open>The table\<close>

definition k_empty :: u64 where "k_empty = - 1"
definition k_none :: u32 where "k_none = - 1"

record heads =
  hd_keys :: "u64 list"
  hd_values :: "u32 list"
  hd_size :: nat
  hd_shift :: nat

definition no_heads :: heads where
  "no_heads = \<lparr>hd_keys = [], hd_values = [], hd_size = 0, hd_shift = 64\<rparr>"

text \<open>Fibonacci hashing: the top bits of the product.\<close>

definition slot :: "heads \<Rightarrow> u64 \<Rightarrow> nat" where
  "slot h key = unat (drop_bit (hd_shift h) (key * 0x9E3779B97F4A7C15))"

definition next_slot :: "u64 list \<Rightarrow> nat \<Rightarrow> nat" where
  "next_slot keys i = (i + 1) AND (length keys - 1)"

text \<open>The probing loop of \<open>Exchange\<close> and \<open>Find\<close>: it stops at the key or at an empty slot. The loop
  of \<open>Grow\<close>, which stops at an empty slot only, is the same loop for the key \<open>kEmpty\<close>.\<close>

partial_function (option) probe :: "u64 list \<Rightarrow> u64 \<Rightarrow> nat \<Rightarrow> nat option" where
  "probe keys key i =
     (if keys ! i \<noteq> k_empty \<and> keys ! i \<noteq> key then probe keys key (next_slot keys i) else Some i)"

definition fill_slot :: "nat \<Rightarrow> u64 \<Rightarrow> u32 \<Rightarrow> heads \<Rightarrow> heads" where
  "fill_slot i key v h =
     h\<lparr>hd_keys := (hd_keys h)[i := key], hd_values := (hd_values h)[i := v], hd_size := hd_size h + 1\<rparr>"

fun shift_of :: "nat \<Rightarrow> nat \<Rightarrow> nat" where
  "shift_of c s = (if c > 1 then shift_of (c div 2) (s - 1) else s)"

declare shift_of.simps [simp del]

fun reinsert :: "heads \<Rightarrow> (u64 \<times> u32) list \<Rightarrow> heads option" where
  "reinsert h [] = Some h"
| "reinsert h ((key, v) # rest) =
     (if key \<noteq> k_empty
      then do {
        j \<leftarrow> probe (hd_keys h) k_empty (slot h key);
        reinsert (fill_slot j key v h) rest
      }
      else reinsert h rest)"

definition fresh_heads :: "nat \<Rightarrow> heads" where
  "fresh_heads capacity =
     \<lparr>hd_keys = replicate capacity k_empty, hd_values = replicate capacity 0, hd_size = 0,
      hd_shift = shift_of capacity 64\<rparr>"

definition grow :: "heads \<Rightarrow> heads option" where
  "grow h =
     (let capacity = (if hd_keys h = [] then 1024 else 2 * length (hd_keys h))
      in reinsert (fresh_heads capacity) (zip (hd_keys h) (hd_values h)))"

definition exchange :: "heads \<Rightarrow> u64 \<Rightarrow> u32 \<Rightarrow> (heads \<times> u32) option" where
  "exchange h key v = do {
     h \<leftarrow> (if 2 * (hd_size h + 1) > length (hd_keys h) then grow h else Some h);
     i \<leftarrow> probe (hd_keys h) key (slot h key);
     (if hd_keys h ! i = k_empty then Some (fill_slot i key v h, k_none)
      else Some (h\<lparr>hd_values := (hd_values h)[i := v]\<rparr>, hd_values h ! i))
   }"

definition find_head :: "heads \<Rightarrow> u64 \<Rightarrow> u32 option" where
  "find_head h key =
     (if hd_size h = 0 then Some k_none
      else do {
        i \<leftarrow> probe (hd_keys h) key (slot h key);
        Some (if hd_keys h ! i = key then hd_values h ! i else k_none)
      })"

definition clear_heads :: "heads \<Rightarrow> heads" where
  "clear_heads h =
     (if hd_size h \<noteq> 0
      then h\<lparr>hd_keys := replicate (length (hd_keys h)) k_empty, hd_size := 0\<rparr> else h)"

section \<open>What the table means\<close>

definition heads_map :: "heads \<Rightarrow> u64 \<rightharpoonup> u32" where
  "heads_map h key = (if key = k_empty then None else map_of (zip (hd_keys h) (hd_values h)) key)"

text \<open>Slot \<open>j\<close> is reached by probing from \<open>i\<close> over occupied slots.\<close>

definition chain :: "u64 list \<Rightarrow> nat \<Rightarrow> nat \<Rightarrow> bool" where
  "chain keys i j \<longleftrightarrow>
     (\<exists>d. j = (i + d) mod length keys \<and> (\<forall>e<d. keys ! ((i + e) mod length keys) \<noteq> k_empty))"

definition unique_keys :: "u64 list \<Rightarrow> bool" where
  "unique_keys keys \<longleftrightarrow>
     (\<forall>i<length keys. \<forall>j<length keys. keys ! i = keys ! j \<longrightarrow> keys ! i \<noteq> k_empty \<longrightarrow> i = j)"

definition table_ok :: "heads \<Rightarrow> bool" where
  "table_ok h \<longleftrightarrow>
     (\<exists>b. length (hd_keys h) = 2 ^ b \<and> hd_shift h = 64 - b) \<and>
     length (hd_values h) = length (hd_keys h) \<and>
     hd_size h = length (filter (\<lambda>k. k \<noteq> k_empty) (hd_keys h)) \<and>
     2 * hd_size h \<le> length (hd_keys h) \<and> unique_keys (hd_keys h) \<and>
     (\<forall>i<length (hd_keys h). hd_keys h ! i \<noteq> k_empty \<longrightarrow> chain (hd_keys h) (slot h (hd_keys h ! i)) i)"

definition heads_ok :: "heads \<Rightarrow> bool" where
  "heads_ok h \<longleftrightarrow> table_ok h \<or> (hd_keys h = [] \<and> hd_values h = [] \<and> hd_size h = 0)"

lemma unique_keysD:
  assumes "unique_keys keys" "i < length keys" "j < length keys" "keys ! i = keys ! j" "keys ! i \<noteq> k_empty"
  shows "i = j"
  using assms unfolding unique_keys_def by blast

section \<open>Probing\<close>

lemma next_slot_mod:
  assumes "length keys = 2 ^ b" shows "next_slot keys i = Suc i mod length keys"
proof -
  have "next_slot keys i = Suc i AND mask b" using assms by (simp add: next_slot_def mask_eq_exp_minus_1)
  also have "\<dots> = take_bit b (Suc i)" by (simp only: take_bit_eq_mask)
  also have "\<dots> = Suc i mod length keys" using assms by (simp add: take_bit_eq_mod)
  finally show ?thesis .
qed

lemma slot_less:
  assumes "table_ok h" shows "slot h key < length (hd_keys h)"
proof -
  from assms obtain b where b: "length (hd_keys h) = 2 ^ b" "hd_shift h = 64 - b"
    by (auto simp: table_ok_def)
  have "unat (drop_bit (64 - b) w) < 2 ^ b" for w :: u64
  proof -
    have "unat (drop_bit (64 - b) w) = unat w div 2 ^ (64 - b)" by (metis unat_drop_bit_eq drop_bit_eq_div)
    also have "\<dots> < 2 ^ b"
    proof (rule less_mult_imp_div_less)
      have "unat w < 2 ^ 64" using unsigned_less[of w] by simp
      also have "\<dots> \<le> 2 ^ (b + (64 - b))" by (rule power_increasing) auto
      finally show "unat w < 2 ^ b * 2 ^ (64 - b)" by (simp add: power_add)
    qed
    finally show ?thesis .
  qed
  with b show ?thesis by (simp add: slot_def)
qed

text \<open>The first stopping slot at a circular distance \<open>d\<close> is the loop's result.\<close>

lemma probe_distance:
  assumes "length keys = 2 ^ b" "i < length keys"
    and "\<forall>e<d. keys ! ((i + e) mod length keys) \<notin> {k_empty, key}"
    and "keys ! ((i + d) mod length keys) \<in> {k_empty, key}"
  shows "probe keys key i = Some ((i + d) mod length keys)"
  using assms(2-)
proof (induction d arbitrary: i)
  case 0
  then show ?case by (subst probe.simps) auto
next
  case (Suc d)
  let ?i = "Suc i mod length keys"
  have shift: "(?i + e) mod length keys = (i + Suc e) mod length keys" for e by (simp add: mod_add_left_eq)
  have "probe keys key ?i = Some ((?i + d) mod length keys)"
  proof (rule Suc.IH)
    show "?i < length keys" using Suc.prems(1) by (intro mod_less_divisor) auto
    show "\<forall>e<d. keys ! ((?i + e) mod length keys) \<notin> {k_empty, key}"
      using Suc.prems(2) unfolding shift by blast
    show "keys ! ((?i + d) mod length keys) \<in> {k_empty, key}"
      using Suc.prems(3) unfolding shift .
  qed
  moreover have "keys ! i \<notin> {k_empty, key}" using Suc.prems(1,2) by (metis add_0_right mod_less zero_less_Suc)
  ultimately show ?case
    unfolding shift by (subst probe.simps) (auto simp: next_slot_mod[OF assms(1)])
qed

lemma first_stop:
  assumes "\<exists>d. P (d::nat)" obtains d where "P d" "\<forall>e<d. \<not> P e"
  using assms by (metis exists_least_iff)

lemma occupied_length:
  assumes "length (filter (\<lambda>k. k \<noteq> k_empty) keys) < length keys"
  obtains j where "j < length keys" "keys ! j = k_empty"
  using assms by (metis (mono_tags, lifting) filter_True in_set_conv_nth less_irrefl)

text \<open>While a slot is empty the loop ends, at the key or at an empty slot.\<close>

lemma probe_ends:
  assumes "length keys = 2 ^ b" "i < length keys" "j < length keys" "keys ! j = k_empty"
  obtains r where "probe keys key i = Some r" "r < length keys" "keys ! r \<in> {k_empty, key}" "chain keys i r"
proof -
  let ?at = "\<lambda>d. keys ! ((i + d) mod length keys)"
  have "(i + (length keys - i + j)) mod length keys = j" using assms(2,3) by simp
  then have "?at (length keys - i + j) \<in> {k_empty, key}" using assms(4) by simp
  then obtain d where d: "?at d \<in> {k_empty, key}" "\<forall>e<d. ?at e \<notin> {k_empty, key}"
    using first_stop[of "\<lambda>d. ?at d \<in> {k_empty, key}"] by blast
  show thesis
  proof (rule that)
    show "probe keys key i = Some ((i + d) mod length keys)" by (rule probe_distance[OF assms(1,2) d(2,1)])
    show "(i + d) mod length keys < length keys" using assms(2) by (intro mod_less_divisor) auto
    show "chain keys i ((i + d) mod length keys)" unfolding chain_def using d(2) by blast
  qed (rule d(1))
qed

text \<open>A stored key is found where it is stored.\<close>

lemma probe_hit:
  assumes "length keys = 2 ^ b" "i < length keys" "chain keys i j" "j < length keys" "keys ! j = key"
    and "key \<noteq> k_empty" "unique_keys keys"
  shows "probe keys key i = Some j"
proof -
  let ?at = "\<lambda>d. keys ! ((i + d) mod length keys)"
  from assms(3) obtain c where c: "j = (i + c) mod length keys" "\<forall>e<c. ?at e \<noteq> k_empty"
    unfolding chain_def by blast
  then have "?at c \<in> {k_empty, key}" using assms(5) by simp
  then obtain d where d: "?at d \<in> {k_empty, key}" "\<forall>e<d. ?at e \<notin> {k_empty, key}"
    using first_stop[of "\<lambda>d. ?at d \<in> {k_empty, key}"] by blast
  have "d \<le> c" using d(2) c(1) assms(5) by (metis insertI1 insertI2 linorder_not_le)
  then have "?at d = key" using d(1) c assms(5,6) by (cases "d = c") auto
  moreover have "(i + d) mod length keys < length keys" using assms(2) by (intro mod_less_divisor) auto
  ultimately have "(i + d) mod length keys = j"
    using assms(5,6) by (intro unique_keysD[OF assms(7) _ assms(4)]) simp_all
  with probe_distance[OF assms(1,2) d(2,1)] show ?thesis by simp
qed

section \<open>The table as a map\<close>

lemma map_of_zip_first:
  assumes "i < length ks" "length vs = length ks" "ks ! i = k" "\<And>j. j < i \<Longrightarrow> ks ! j \<noteq> k"
  shows "map_of (zip ks vs) k = Some (vs ! i)"
  using assms
proof (induction ks arbitrary: i vs)
  case (Cons a ks)
  then obtain v vs' where vs: "vs = v # vs'" by (cases vs) auto
  show ?case
  proof (cases i)
    case 0
    then show ?thesis using Cons.prems vs by simp
  next
    case (Suc m)
    then have "a \<noteq> k" using Cons.prems(4)[of 0] by simp
    moreover have "map_of (zip ks vs') k = Some (vs' ! m)"
    proof (rule Cons.IH)
      show "ks ! j \<noteq> k" if "j < m" for j using Cons.prems(4)[of "Suc j"] that Suc by simp
    qed (use Cons.prems vs Suc in simp_all)
    ultimately show ?thesis using vs Suc by simp
  qed
qed simp

lemma heads_map_at:
  assumes "unique_keys (hd_keys h)" "length (hd_values h) = length (hd_keys h)"
    and "i < length (hd_keys h)" "hd_keys h ! i = k" "k \<noteq> k_empty"
  shows "heads_map h k = Some (hd_values h ! i)"
proof -
  have "hd_keys h ! j \<noteq> k" if "j < i" for j
    using assms that unfolding unique_keys_def by (metis less_trans less_irrefl)
  with assms show ?thesis by (simp add: heads_map_def map_of_zip_first)
qed

lemma heads_map_none:
  assumes "length (hd_values h) = length (hd_keys h)" "k \<notin> set (hd_keys h)"
  shows "heads_map h k = None"
  using assms by (simp add: heads_map_def map_of_zip_is_None)

section \<open>Writing a slot\<close>

lemma filter_update_fresh:
  assumes "j < length ks" "\<not> P (ks ! j)" "P x"
  shows "length (filter P (ks[j := x])) = Suc (length (filter P ks))"
  using assms
proof (induction ks arbitrary: j)
  case (Cons a ks)
  then show ?case by (cases j) auto
qed simp

lemma chain_fill:
  assumes "chain keys i j" "keys ! m = k_empty" "key \<noteq> k_empty"
  shows "chain (keys[m := key]) i j"
proof -
  have "keys[m := key] ! n \<noteq> k_empty" if "keys ! n \<noteq> k_empty" for n
    using that assms(2,3) by (cases "n = m"; cases "m < length keys") auto
  with assms(1) show ?thesis unfolding chain_def by auto
qed

lemma slot_fields [simp]:
  "slot (h\<lparr>hd_keys := ks\<rparr>) key = slot h key" "slot (h\<lparr>hd_values := vs\<rparr>) key = slot h key"
  "slot (h\<lparr>hd_size := n\<rparr>) key = slot h key"
  by (simp_all add: slot_def)

lemma fill_slot_fields [simp]:
  "hd_keys (fill_slot j key v h) = (hd_keys h)[j := key]" "hd_values (fill_slot j key v h) = (hd_values h)[j := v]"
  "hd_size (fill_slot j key v h) = Suc (hd_size h)" "hd_shift (fill_slot j key v h) = hd_shift h"
  "slot (fill_slot j key v h) k = slot h k"
  by (simp_all add: fill_slot_def slot_def)

lemma unique_fill:
  assumes "unique_keys ks" "key \<notin> set ks"
  shows "unique_keys (ks[j := key])"
  unfolding unique_keys_def
proof (intro allI impI)
  fix a b assume ab: "a < length (ks[j := key])" "b < length (ks[j := key])" "ks[j := key] ! a = ks[j := key] ! b"
    "ks[j := key] ! a \<noteq> k_empty"
  have out: "ks ! n \<noteq> key" if "n < length ks" for n using assms(2) that nth_mem by blast
  show "a = b"
  proof (cases "a = j \<or> b = j")
    case True
    then show ?thesis using ab out[of a] out[of b] by (cases "a = j"; cases "b = j") auto
  next
    case False
    then show ?thesis using ab assms(1) unfolding unique_keys_def by simp
  qed
qed

lemma fill_slot_ok:
  assumes ok: "table_ok h" and new: "key \<notin> set (hd_keys h)" "key \<noteq> k_empty"
    and j: "j < length (hd_keys h)" "hd_keys h ! j = k_empty" "chain (hd_keys h) (slot h key) j"
    and room: "2 * (hd_size h + 1) \<le> length (hd_keys h)"
  shows "table_ok (fill_slot j key v h)" "heads_map (fill_slot j key v h) = (heads_map h)(key \<mapsto> v)"
proof -
  let ?h = "fill_slot j key v h"
  have u: "unique_keys (hd_keys ?h)" using ok new by (simp add: table_ok_def unique_fill)
  have "chain (hd_keys ?h) (slot ?h (hd_keys ?h ! i)) i" if "i < length (hd_keys ?h)" "hd_keys ?h ! i \<noteq> k_empty" for i
  proof (cases "i = j")
    case True
    then show ?thesis using j new by (simp add: chain_fill)
  next
    case False
    then show ?thesis using that ok j(2) new(2) by (simp add: table_ok_def chain_fill)
  qed
  then show ok': "table_ok ?h"
    using ok u room filter_update_fresh[of j "hd_keys h" "\<lambda>k. k \<noteq> k_empty" key] j new
    unfolding table_ok_def by simp
  have len: "length (hd_values h) = length (hd_keys h)" using ok by (simp add: table_ok_def)
  show "heads_map ?h = (heads_map h)(key \<mapsto> v)"
  proof
    fix k
    consider "k = k_empty" | "k = key" | i where "k \<noteq> k_empty" "k \<noteq> key" "i < length (hd_keys h)" "hd_keys h ! i = k"
      | "k \<noteq> k_empty" "k \<noteq> key" "k \<notin> set (hd_keys h)" by (metis in_set_conv_nth)
    then show "heads_map ?h k = ((heads_map h)(key \<mapsto> v)) k"
    proof cases
      case 1
      then show ?thesis using new(2) by (simp add: heads_map_def)
    next
      case 2
      then show ?thesis using heads_map_at[OF u, of j key] len j(1) new(2) by simp
    next
      case (3 i)
      then have "i \<noteq> j" using j(2) by auto
      with 3 show ?thesis
        using heads_map_at[OF u, of i k] heads_map_at[of h i k] ok by (simp add: table_ok_def)
    next
      case 4
      then have "k \<notin> set (hd_keys ?h)" by (metis fill_slot_fields(1) insertE set_update_subset_insert subsetD)
      with 4 show ?thesis using heads_map_none[of ?h k] heads_map_none[of h k] len by simp
    qed
  qed
qed

lemma set_value_ok:
  assumes ok: "table_ok h" and i: "i < length (hd_keys h)" "hd_keys h ! i = key" "key \<noteq> k_empty"
  shows "table_ok (h\<lparr>hd_values := (hd_values h)[i := v]\<rparr>)"
    "heads_map (h\<lparr>hd_values := (hd_values h)[i := v]\<rparr>) = (heads_map h)(key \<mapsto> v)"
proof -
  let ?h = "h\<lparr>hd_values := (hd_values h)[i := v]\<rparr>"
  show ok': "table_ok ?h" using ok by (simp add: table_ok_def)
  have u: "unique_keys (hd_keys ?h)" "unique_keys (hd_keys h)" using ok by (simp_all add: table_ok_def)
  have len: "length (hd_values h) = length (hd_keys h)" using ok by (simp add: table_ok_def)
  show "heads_map ?h = (heads_map h)(key \<mapsto> v)"
  proof
    fix k
    consider "k = k_empty" | j where "k \<noteq> k_empty" "j < length (hd_keys h)" "hd_keys h ! j = k"
      | "k \<noteq> k_empty" "k \<notin> set (hd_keys h)" by (metis in_set_conv_nth)
    then show "heads_map ?h k = ((heads_map h)(key \<mapsto> v)) k"
    proof cases
      case 1
      then show ?thesis using i(3) by (simp add: heads_map_def)
    next
      case (2 j)
      then have "j = i \<longleftrightarrow> k = key" using i u(2) unfolding unique_keys_def by metis
      with 2 show ?thesis
        using heads_map_at[OF u(1), of j k] heads_map_at[OF u(2), of j k] len i by (cases "j = i") simp_all
    next
      case 3
      then have "k \<noteq> key" using i nth_mem by blast
      with 3 show ?thesis using heads_map_none[of ?h k] heads_map_none[of h k] len by simp
    qed
  qed
qed

section \<open>Growing\<close>

lemma shift_of_power: "shift_of (2 ^ b) s = s - b"
proof (induction b arbitrary: s)
  case 0
  then show ?case by (subst shift_of.simps) simp
next
  case (Suc b)
  have "(1::nat) < 2 ^ Suc b" by (rule one_less_power) simp_all
  then have "shift_of (2 ^ Suc b) s = shift_of (2 ^ b) (s - 1)" by (subst shift_of.simps) simp
  with Suc show ?case by simp
qed

lemma fresh_ok: "table_ok (fresh_heads (2 ^ b))" "heads_map (fresh_heads (2 ^ b)) = Map.empty"
proof -
  show "table_ok (fresh_heads (2 ^ b))"
    by (auto simp: table_ok_def fresh_heads_def shift_of_power unique_keys_def)
  show "heads_map (fresh_heads (2 ^ b)) = Map.empty"
  proof
    fix k show "heads_map (fresh_heads (2 ^ b)) k = None"
    proof (cases "k = k_empty")
      case False
      then show ?thesis by (intro heads_map_none) (simp_all add: fresh_heads_def)
    qed (simp add: heads_map_def)
  qed
qed

abbreviation occupied :: "(u64 \<times> u32) list \<Rightarrow> (u64 \<times> u32) list" where
  "occupied kvs \<equiv> filter (\<lambda>p. fst p \<noteq> k_empty) kvs"

lemma reinsert_ok:
  assumes "table_ok h" "2 * (hd_size h + length (occupied kvs)) \<le> length (hd_keys h)"
    and "distinct (map fst (occupied kvs))" "fst ` set (occupied kvs) \<inter> set (hd_keys h) = {}"
  shows "\<exists>h'. reinsert h kvs = Some h' \<and> table_ok h' \<and> length (hd_keys h') = length (hd_keys h) \<and>
    hd_size h' = hd_size h + length (occupied kvs) \<and> heads_map h' = heads_map h ++ map_of (occupied kvs)"
  using assms
proof (induction kvs arbitrary: h)
  case (Cons p kvs)
  obtain key v where p: "p = (key, v)" by (cases p) auto
  show ?case
  proof (cases "key = k_empty")
    case True
    then show ?thesis using Cons p by simp
  next
    case False
    from Cons.prems(1) obtain b where b: "length (hd_keys h) = 2 ^ b" by (auto simp: table_ok_def)
    have room: "2 * (hd_size h + 1) \<le> length (hd_keys h)" using Cons.prems(2) p False by simp
    then have "length (filter (\<lambda>k. k \<noteq> k_empty) (hd_keys h)) < length (hd_keys h)"
      using Cons.prems(1) by (simp add: table_ok_def)
    then obtain m where m: "m < length (hd_keys h)" "hd_keys h ! m = k_empty" by (rule occupied_length)
    from probe_ends[OF b slot_less[OF Cons.prems(1)] m, of k_empty key]
    obtain j where j: "probe (hd_keys h) k_empty (slot h key) = Some j" "j < length (hd_keys h)"
      "hd_keys h ! j = k_empty" "chain (hd_keys h) (slot h key) j" by auto
    let ?h = "fill_slot j key v h"
    have new: "key \<notin> set (hd_keys h)" using Cons.prems(4) p False by auto
    note ok = fill_slot_ok[OF Cons.prems(1) new False j(2-4) room, of v]
    have "key \<notin> fst ` set (occupied kvs)" "fst ` set (occupied kvs) \<inter> set (hd_keys h) = {}"
      using Cons.prems(3,4) p False by simp_all
    then have disjoint: "fst ` set (occupied kvs) \<inter> set (hd_keys ?h) = {}"
      using set_update_subset_insert[of "hd_keys h" j key] unfolding fill_slot_fields by blast
    have rest: "2 * (hd_size ?h + length (occupied kvs)) \<le> length (hd_keys ?h)" "distinct (map fst (occupied kvs))"
      using Cons.prems(2,3) p False by simp_all
    from Cons.IH[OF ok(1) rest disjoint]
    obtain h' where h': "reinsert ?h kvs = Some h'" "table_ok h'" "length (hd_keys h') = length (hd_keys h)"
      "hd_size h' = Suc (hd_size h) + length (occupied kvs)"
      "heads_map h' = (heads_map h)(key \<mapsto> v) ++ map_of (occupied kvs)"
      unfolding ok(2) fill_slot_fields length_list_update by blast
    have "key \<notin> dom (map_of (occupied kvs))" using Cons.prems(3) p False by (simp add: dom_map_of_conv_image_fst)
    then have "heads_map h' = heads_map h ++ map_of (occupied (p # kvs))"
      using h'(5) p False by (simp add: map_add_upd_left)
    moreover have "reinsert h (p # kvs) = Some h'" using h'(1) p False j(1) by simp
    moreover have "hd_size h' = hd_size h + length (occupied (p # kvs))" using h'(4) p False by simp
    ultimately show ?thesis using h'(2,3) by blast
  qed
qed simp

lemma map_of_occupied: "map_of (occupied kvs) k = (if k = k_empty then None else map_of kvs k)"
  by (induction kvs) auto

lemma map_fst_occupied:
  "length ks = length vs \<Longrightarrow> map fst (occupied (zip ks vs)) = filter (\<lambda>k. k \<noteq> k_empty) ks"
  by (induction ks vs rule: list_induct2) auto

lemma distinct_occupied: "unique_keys ks \<Longrightarrow> distinct (filter (\<lambda>k. k \<noteq> k_empty) ks)"
proof (induction ks)
  case (Cons a ks)
  have "unique_keys ks" unfolding unique_keys_def
  proof (intro allI impI)
    fix i j assume "i < length ks" "j < length ks" "ks ! i = ks ! j" "ks ! i \<noteq> k_empty"
    then show "i = j" using unique_keysD[OF Cons.prems, of "Suc i" "Suc j"] by simp
  qed
  moreover have "a \<notin> set ks" if "a \<noteq> k_empty"
  proof
    assume "a \<in> set ks"
    then obtain i where "i < length ks" "ks ! i = a" by (metis in_set_conv_nth)
    then show False using unique_keysD[OF Cons.prems, of 0 "Suc i"] that by simp
  qed
  ultimately show ?case using Cons.IH by simp
qed simp

lemma grow_ok:
  assumes "heads_ok h"
  shows "\<exists>h'. grow h = Some h' \<and> table_ok h' \<and> hd_size h' = hd_size h \<and>
    2 * (hd_size h' + 1) \<le> length (hd_keys h') \<and> heads_map h' = heads_map h"
proof (cases "hd_keys h = []")
  case True
  then have "hd_size h = 0" using assms by (auto simp: heads_ok_def table_ok_def)
  moreover have "grow h = Some (fresh_heads (2 ^ 10))" using True by (simp add: grow_def)
  moreover have "heads_map h = Map.empty" using True by (auto simp: heads_map_def)
  ultimately show ?thesis using fresh_ok[of 10] by (simp add: fresh_heads_def)
next
  case False
  then have ok: "table_ok h" using assms by (simp add: heads_ok_def)
  then obtain b where b: "length (hd_keys h) = 2 ^ b" "length (hd_keys h) = length (hd_values h)"
    by (auto simp: table_ok_def)
  let ?kvs = "zip (hd_keys h) (hd_values h)" and ?f = "fresh_heads (2 ^ Suc b)"
  have kvs: "map fst (occupied ?kvs) = filter (\<lambda>k. k \<noteq> k_empty) (hd_keys h)" by (rule map_fst_occupied[OF b(2)])
  have "length (occupied ?kvs) = length (map fst (occupied ?kvs))" by simp
  also have "\<dots> = hd_size h" unfolding kvs using ok by (simp add: table_ok_def)
  finally have size: "length (occupied ?kvs) = hd_size h" .
  have f: "hd_size ?f = 0" "length (hd_keys ?f) = 2 * length (hd_keys h)" "set (hd_keys ?f) = {k_empty}"
    using b(1) by (simp_all add: fresh_heads_def)
  have half: "2 * hd_size h \<le> length (hd_keys h)" using ok by (simp add: table_ok_def)
  have "2 * (hd_size ?f + length (occupied ?kvs)) \<le> length (hd_keys ?f)"
    unfolding size f using half by simp
  moreover have "distinct (map fst (occupied ?kvs))" using ok unfolding kvs by (simp add: distinct_occupied table_ok_def)
  moreover have "fst ` set (occupied ?kvs) \<inter> set (hd_keys ?f) = {}" unfolding f by auto
  ultimately obtain h' where h': "reinsert ?f ?kvs = Some h'" "table_ok h'" "length (hd_keys h') = 2 * length (hd_keys h)"
    "hd_size h' = hd_size h" "heads_map h' = map_of (occupied ?kvs)"
    using reinsert_ok[OF fresh_ok(1)[of "Suc b"], of ?kvs] fresh_ok(2)[of "Suc b"] f(1,2) size by auto
  have "grow h = Some h'" using h'(1) b(1) False by (simp add: grow_def)
  moreover have "heads_map h' = heads_map h" unfolding h'(5) by (rule ext) (simp add: map_of_occupied heads_map_def)
  moreover have "2 * (hd_size h' + 1) \<le> length (hd_keys h')"
    using half b(1) h'(3,4) False by (cases "hd_size h") auto
  ultimately show ?thesis using h' by blast
qed

section \<open>The operations\<close>

definition or_none :: "u32 option \<Rightarrow> u32" where
  "or_none v = (case v of None \<Rightarrow> k_none | Some x \<Rightarrow> x)"

text \<open>The probe of a table with room: a stored key is hit, an unknown one meets an empty slot.\<close>

lemma probe_cases:
  assumes "table_ok h" "2 * (hd_size h + 1) \<le> length (hd_keys h) \<or> hd_size h \<noteq> 0" "key \<noteq> k_empty"
  obtains (hit) i where "probe (hd_keys h) key (slot h key) = Some i" "i < length (hd_keys h)"
      "hd_keys h ! i = key" "heads_map h key = Some (hd_values h ! i)"
  | (miss) i where "probe (hd_keys h) key (slot h key) = Some i" "i < length (hd_keys h)"
      "hd_keys h ! i = k_empty" "heads_map h key = None" "key \<notin> set (hd_keys h)" "chain (hd_keys h) (slot h key) i"
proof -
  from assms(1) obtain b where b: "length (hd_keys h) = 2 ^ b" by (auto simp: table_ok_def)
  have len: "length (hd_values h) = length (hd_keys h)" and u: "unique_keys (hd_keys h)"
    using assms(1) by (simp_all add: table_ok_def)
  show thesis
  proof (cases "key \<in> set (hd_keys h)")
    case True
    then obtain i where i: "i < length (hd_keys h)" "hd_keys h ! i = key" by (metis in_set_conv_nth)
    then have "chain (hd_keys h) (slot h key) i" using assms(1,3) unfolding table_ok_def by blast
    from probe_hit[OF b slot_less[OF assms(1)] this i assms(3) u] heads_map_at[OF u len i assms(3)] i
    show thesis by (intro hit)
  next
    case False
    have "length (filter (\<lambda>k. k \<noteq> k_empty) (hd_keys h)) < length (hd_keys h)"
      using assms(1,2) b unfolding table_ok_def by (cases "hd_size h") auto
    then obtain m where m: "m < length (hd_keys h)" "hd_keys h ! m = k_empty" by (rule occupied_length)
    from probe_ends[OF b slot_less[OF assms(1)] m, of key key]
    obtain i where i: "probe (hd_keys h) key (slot h key) = Some i" "i < length (hd_keys h)"
      "hd_keys h ! i \<in> {k_empty, key}" "chain (hd_keys h) (slot h key) i" by blast
    then have "hd_keys h ! i = k_empty" using False nth_mem by blast
    with i False heads_map_none[OF len False] show thesis by (intro miss)
  qed
qed

lemma exchange_ok:
  assumes "heads_ok h" "key \<noteq> k_empty"
  shows "\<exists>h'. exchange h key v = Some (h', or_none (heads_map h key)) \<and> heads_ok h' \<and>
    heads_map h' = (heads_map h)(key \<mapsto> v)"
proof -
  obtain g where g: "(if 2 * (hd_size h + 1) > length (hd_keys h) then grow h else Some h) = Some g"
    "table_ok g" "2 * (hd_size g + 1) \<le> length (hd_keys g)" "heads_map g = heads_map h"
  proof (cases "2 * (hd_size h + 1) > length (hd_keys h)")
    case True
    with grow_ok[OF assms(1)] that show thesis by auto
  next
    case False
    then have "table_ok h" using assms(1) by (auto simp: heads_ok_def)
    with False that show thesis by simp
  qed
  from g(2) disjI1[OF g(3)] assms(2) show ?thesis
  proof (cases rule: probe_cases)
    case (hit i)
    then show ?thesis
      using g assms(2) set_value_ok[OF g(2) hit(2,3) assms(2), of v]
      by (simp add: exchange_def heads_ok_def or_none_def)
  next
    case (miss i)
    then show ?thesis
      using g fill_slot_ok[OF g(2) miss(5) assms(2) miss(2,3,6) g(3), of v]
      by (simp add: exchange_def heads_ok_def or_none_def)
  qed
qed

lemma find_head_ok:
  assumes "heads_ok h" "key \<noteq> k_empty"
  shows "find_head h key = Some (or_none (heads_map h key))"
proof (cases "hd_size h = 0")
  case True
  have "heads_map h key = None"
  proof (cases "hd_keys h = []")
    case False
    then have "table_ok h" using assms(1) by (simp add: heads_ok_def)
    with True have "\<forall>k\<in>set (hd_keys h). k = k_empty" "length (hd_values h) = length (hd_keys h)"
      by (simp_all add: table_ok_def filter_empty_conv)
    then show ?thesis using assms(2) by (intro heads_map_none) auto
  qed (simp add: heads_map_def)
  with True show ?thesis by (simp add: find_head_def or_none_def)
next
  case False
  then have t: "table_ok h" using assms(1) by (auto simp: heads_ok_def)
  from t disjI2[OF False] assms(2) show ?thesis
    by (cases rule: probe_cases) (use False assms(2) in \<open>simp_all add: find_head_def or_none_def\<close>)
qed

lemma clear_heads_ok:
  assumes "heads_ok h" shows "heads_ok (clear_heads h)" "heads_map (clear_heads h) = Map.empty"
proof -
  have ok: "heads_ok (clear_heads h)" "hd_size (clear_heads h) = 0"
    using assms by (auto simp: clear_heads_def heads_ok_def table_ok_def unique_keys_def)
  show "heads_ok (clear_heads h)" by (rule ok)
  show "heads_map (clear_heads h) = Map.empty"
  proof
    fix k show "heads_map (clear_heads h) k = None"
    proof (cases "k = k_empty \<or> hd_keys (clear_heads h) = []")
      case False
      with ok have "table_ok (clear_heads h)" by (simp add: heads_ok_def)
      with ok(2) have "\<forall>k\<in>set (hd_keys (clear_heads h)). k = k_empty"
        "length (hd_values (clear_heads h)) = length (hd_keys (clear_heads h))"
        by (simp_all add: table_ok_def filter_empty_conv)
      then show ?thesis using False by (intro heads_map_none) auto
    qed (auto simp: heads_map_def)
  qed
qed

lemma no_heads_ok: "heads_ok no_heads" "heads_map no_heads = Map.empty"
  by (auto simp: heads_ok_def no_heads_def heads_map_def)

section \<open>The interface\<close>

text \<open>What the lookup relies on: storing and finding end, a found value is the last one stored under
  the key, and a store returns the value it replaces.\<close>

locale head_table =
  fixes ok :: "'t \<Rightarrow> bool"
    and put :: "'t \<Rightarrow> u64 \<Rightarrow> u32 \<Rightarrow> ('t \<times> u32) option"
    and get :: "'t \<Rightarrow> u64 \<Rightarrow> u32 option"
    and wipe :: "'t \<Rightarrow> 't"
  assumes put_ends: "ok h \<Longrightarrow> key \<noteq> k_empty \<Longrightarrow> \<exists>h' p. put h key v = Some (h', p)"
    and put_ok: "ok h \<Longrightarrow> key \<noteq> k_empty \<Longrightarrow> put h key v = Some (h', p) \<Longrightarrow> ok h'"
    and put_returns: "ok h \<Longrightarrow> key \<noteq> k_empty \<Longrightarrow> put h key v = Some (h', p) \<Longrightarrow> get h key = Some p"
    and get_put: "ok h \<Longrightarrow> key \<noteq> k_empty \<Longrightarrow> put h key v = Some (h', p) \<Longrightarrow> key' \<noteq> k_empty \<Longrightarrow>
      get h' key' = (if key' = key then Some v else get h key')"
    and wipe_ok: "ok h \<Longrightarrow> ok (wipe h)"
    and get_wipe: "ok h \<Longrightarrow> key \<noteq> k_empty \<Longrightarrow> get (wipe h) key = Some k_none"
begin

text \<open>A table that answers \<open>f\<close> still answers a function after a store: \<open>f\<close> updated there.\<close>

lemma put_answers:
  assumes "ok h" "\<And>key. key \<noteq> k_empty \<Longrightarrow> get h key = Some (f key)" "key \<noteq> k_empty"
  shows "\<exists>h'. put h key v = Some (h', f key) \<and> ok h' \<and>
    (\<forall>key'. key' \<noteq> k_empty \<longrightarrow> get h' key' = Some ((f(key := v)) key'))"
proof -
  obtain h' p where p: "put h key v = Some (h', p)" using put_ends[OF assms(1,3)] by blast
  have "p = f key" using put_returns[OF assms(1,3) p] assms(2,3) by simp
  moreover have "get h' key' = Some ((f(key := v)) key')" if "key' \<noteq> k_empty" for key'
    using get_put[OF assms(1,3) p that] assms(2)[OF that] by simp
  ultimately show ?thesis using p put_ok[OF assms(1,3) p] by blast
qed

lemma wipe_answers:
  assumes "ok h"
  shows "ok (wipe h) \<and> (\<forall>key. key \<noteq> k_empty \<longrightarrow> get (wipe h) key = Some ((\<lambda>_. k_none) key))"
  using wipe_ok[OF assms] get_wipe[OF assms] by simp

end

interpretation ht: head_table heads_ok exchange find_head clear_heads
proof
  show "\<exists>h' p. exchange h key v = Some (h', p)" if "heads_ok h" "key \<noteq> k_empty" for h key v
    using exchange_ok[OF that] by blast
  show "heads_ok h'" if "heads_ok h" "key \<noteq> k_empty" "exchange h key v = Some (h', p)" for h key v h' p
    using exchange_ok[OF that(1,2), of v] that(3) by auto
  show "find_head h key = Some p" if "heads_ok h" "key \<noteq> k_empty" "exchange h key v = Some (h', p)" for h key v h' p
    using exchange_ok[OF that(1,2), of v] find_head_ok[OF that(1,2)] that(3) by auto
  show "find_head h' key' = (if key' = key then Some v else find_head h key')"
    if "heads_ok h" "key \<noteq> k_empty" "exchange h key v = Some (h', p)" "key' \<noteq> k_empty" for h key v h' p key'
    using exchange_ok[OF that(1,2), of v] find_head_ok[OF that(1,4)] find_head_ok[of h' key'] that(3,4)
    by (auto simp: or_none_def)
  show "heads_ok (clear_heads h)" if "heads_ok h" for h by (rule clear_heads_ok(1)[OF that])
  show "find_head (clear_heads h) key = Some k_none" if "heads_ok h" "key \<noteq> k_empty" for h key
    using find_head_ok[OF clear_heads_ok(1)[OF that(1)] that(2)] clear_heads_ok(2)[OF that(1)]
    by (simp add: or_none_def)
qed

section \<open>Property\<close>

text \<open>Any sequence of the table's operations, with the values they return, beside the same sequence
  on a finite map.\<close>

datatype head_op = Put u64 u32 | Get u64 | Wipe

fun op_key :: "head_op \<Rightarrow> u64 option" where
  "op_key (Put key v) = Some key"
| "op_key (Get key) = Some key"
| "op_key Wipe = None"

fun run_heads :: "heads \<Rightarrow> head_op list \<Rightarrow> u32 list option" where
  "run_heads h [] = Some []"
| "run_heads h (Put key v # ops) = do {
     (h, r) \<leftarrow> exchange h key v;
     rs \<leftarrow> run_heads h ops;
     Some (r # rs)
   }"
| "run_heads h (Get key # ops) = do {
     r \<leftarrow> find_head h key;
     rs \<leftarrow> run_heads h ops;
     Some (r # rs)
   }"
| "run_heads h (Wipe # ops) = run_heads (clear_heads h) ops"

fun run_map :: "(u64 \<rightharpoonup> u32) \<Rightarrow> head_op list \<Rightarrow> u32 list" where
  "run_map m [] = []"
| "run_map m (Put key v # ops) = or_none (m key) # run_map (m(key \<mapsto> v)) ops"
| "run_map m (Get key # ops) = or_none (m key) # run_map m ops"
| "run_map m (Wipe # ops) = run_map Map.empty ops"

lemma run_heads_map:
  assumes "heads_ok h" "\<And>op. op \<in> set ops \<Longrightarrow> op_key op \<noteq> Some k_empty"
  shows "run_heads h ops = Some (run_map (heads_map h) ops)"
  using assms
proof (induction ops arbitrary: h)
  case (Cons op ops)
  then have rest: "\<And>op. op \<in> set ops \<Longrightarrow> op_key op \<noteq> Some k_empty" and now: "op_key op \<noteq> Some k_empty"
    by simp_all
  show ?case
  proof (cases op)
    case (Put key v)
    then obtain h' where h': "exchange h key v = Some (h', or_none (heads_map h key))" "heads_ok h'"
      "heads_map h' = (heads_map h)(key \<mapsto> v)"
      using exchange_ok[OF Cons.prems(1), of key v] now by auto
    show ?thesis using Put h'(1) Cons.IH[OF h'(2) rest, unfolded h'(3)] by (simp del: fun_upd_apply)
  next
    case (Get key)
    then show ?thesis using find_head_ok[OF Cons.prems(1), of key] now Cons.IH[OF Cons.prems(1) rest] by simp
  next
    case Wipe
    then show ?thesis
      using clear_heads_ok[OF Cons.prems(1)] Cons.IH[OF clear_heads_ok(1)[OF Cons.prems(1)] rest] by simp
  qed
qed simp

text \<open>C15. From an empty table every sequence of \<open>Exchange\<close>, \<open>Find\<close> and \<open>Clear\<close> ends, growing and
  rehashing as it goes, and returns exactly what a finite map returns; the only key excluded is the
  one that marks an empty slot.\<close>

theorem heads_behave_as_map:
  assumes "\<And>op. op \<in> set ops \<Longrightarrow> op_key op \<noteq> Some k_empty"
  shows "run_heads no_heads ops = Some (run_map Map.empty ops)"
  using run_heads_map[OF no_heads_ok(1) assms] no_heads_ok(2) by simp

theorem heads_behave_as_map_witness:
  "run_heads no_heads [Put 5 3, Put 5 9, Get 5, Get 6, Wipe, Get 5] = Some [k_none, 3, 9, k_none, k_none]"
proof -
  have "run_heads no_heads [Put 5 3, Put 5 9, Get 5, Get 6, Wipe, Get 5] =
      Some (run_map Map.empty [Put 5 3, Put 5 9, Get 5, Get 6, Wipe, Get 5])"
    by (rule heads_behave_as_map) (auto simp: k_empty_def)
  then show ?thesis by (simp add: or_none_def)
qed

end
