(* ===== verification/Prompt_Lookup.thy ===== *)
theory Prompt_Lookup
  imports Prompt_Heads
begin

text \<open>
  \<open>PromptLookup\<close> (\<open>src/core/speculative/prompt_lookup.hpp\<close>): draft tokens copied from the session's
  own history. Token ids are their 32-bit patterns, positions that are vector indices are \<open>nat\<close>,
  the two sentinel-valued members are \<open>std::size_t\<close> words. \<open>vec_at\<close> is the unchecked \<open>operator[]\<close>:
  reading out of range has no defined result and is \<open>None\<close>, as is a loop that does not end.
\<close>

section \<open>State\<close>

definition k_key_tokens :: nat where "k_key_tokens = 3"
definition k_min_match :: nat where "k_min_match = 12"
definition k_sampled_min_match :: nat where "k_sampled_min_match = 24"
definition k_max_match :: nat where "k_max_match = 64"
definition k_max_candidates :: nat where "k_max_candidates = 16"
definition k_resume_min_match :: nat where "k_resume_min_match = 5"
definition k_resume_window :: u64 where "k_resume_window = 512"
definition k_resume_back :: u64 where "k_resume_back = 8"
definition k_no_state :: u32 where "k_no_state = - 1"
definition k_no_resume :: u64 where "k_no_resume = - 1"

record lookup_match =
  mt_start :: nat
  mt_length :: nat

record lookup_state =
  ls_resume :: u32
  ls_request_start :: u32

record lookup =
  pl_head :: heads
  pl_prev :: "u32 list"
  pl_last :: u32
  pl_resume :: u64
  pl_request_start :: u64

definition no_match :: lookup_match where "no_match = \<lparr>mt_start = 0, mt_length = 0\<rparr>"

definition new_lookup :: lookup where
  "new_lookup = \<lparr>pl_head = no_heads, pl_prev = [], pl_last = 0, pl_resume = k_no_resume,
     pl_request_start = k_no_resume\<rparr>"

section \<open>Requests\<close>

definition clear_index :: "lookup \<Rightarrow> lookup" where
  "clear_index p = p\<lparr>pl_head := clear_heads (pl_head p), pl_prev := [], pl_resume := k_no_resume\<rparr>"

definition clear_lookup :: "lookup \<Rightarrow> lookup" where
  "clear_lookup p = (clear_index p)\<lparr>pl_request_start := k_no_resume\<rparr>"

definition begin_request :: "lookup \<Rightarrow> lookup" where
  "begin_request p = p\<lparr>pl_resume := k_no_resume, pl_request_start := k_no_resume\<rparr>"

definition step :: "lookup \<Rightarrow> u64 \<Rightarrow> lookup \<times> bool" where
  "step p position =
     (if pl_request_start p \<noteq> k_no_resume then (p, True)
      else (p\<lparr>pl_request_start := position\<rparr>, False))"

definition save :: "lookup \<Rightarrow> lookup_state" where
  "save p = \<lparr>ls_resume = (if pl_resume p = k_no_resume then k_no_state else ucast (pl_resume p)),
     ls_request_start = (if pl_request_start p = k_no_resume then k_no_state else ucast (pl_request_start p))\<rparr>"

definition valid_state :: "lookup_state \<Rightarrow> nat \<Rightarrow> bool" where
  "valid_state st tokens \<longleftrightarrow>
     (ls_request_start st = k_no_state \<or> unat (ls_request_start st) \<le> tokens) \<and>
     (ls_resume st = k_no_state \<or> unat (ls_resume st) \<le> tokens)"

definition restore :: "lookup \<Rightarrow> lookup_state \<Rightarrow> lookup" where
  "restore p st = (clear_lookup p)
     \<lparr>pl_resume := (if ls_resume st = k_no_state then k_no_resume else ucast (ls_resume st)),
      pl_request_start := (if ls_request_start st = k_no_state then k_no_resume else ucast (ls_request_start st))\<rparr>"

definition observe :: "lookup \<Rightarrow> u64 \<Rightarrow> u64 \<Rightarrow> u64 \<Rightarrow> lookup" where
  "observe p start proposed accepted =
     p\<lparr>pl_resume := (if 2 * accepted < proposed then k_no_resume else start + accepted)\<rparr>"

section \<open>Indexing\<close>

definition key_of_tokens :: "u32 list \<Rightarrow> u64" where
  "key_of_tokens tokens = foldl (\<lambda>key t. push_bit 21 key OR (ucast t AND 0x1FFFFF)) 0 tokens"

text \<open>The key that ends just before \<open>end\<close>.\<close>

definition key_at :: "u32 list \<Rightarrow> nat \<Rightarrow> u64" where
  "key_at committed e = key_of_tokens (take k_key_tokens (drop (e - k_key_tokens) committed))"

function extend_loop :: "u32 list \<Rightarrow> heads \<Rightarrow> u32 list \<Rightarrow> (heads \<times> u32 list) option" where
  "extend_loop committed h prev =
     (if length prev < length committed
      then do {
        (h, previous) \<leftarrow> (if length prev \<ge> k_key_tokens
                         then exchange h (key_at committed (length prev)) (word_of_nat (length prev))
                         else Some (h, k_none));
        extend_loop committed h (prev @ [previous])
      }
      else Some (h, prev))"
  by pat_completeness auto
termination by (relation "measure (\<lambda>(committed, _, prev). length committed - length prev)") auto

declare extend_loop.simps [simp del]

definition source_tokens :: "lookup \<Rightarrow> u32 list \<Rightarrow> bool \<Rightarrow> u32 list" where
  "source_tokens p committed prompt_only =
     (if prompt_only \<and> pl_request_start p \<noteq> k_no_resume
      then take (min (length committed) (unat (pl_request_start p))) committed else committed)"

definition extend :: "lookup \<Rightarrow> u32 list \<Rightarrow> bool \<Rightarrow> lookup option" where
  "extend p all_committed prompt_only =
     (let committed = source_tokens p all_committed prompt_only;
          p = (if length committed < length (pl_prev p) \<or>
                  (pl_prev p \<noteq> [] \<and> committed ! (length (pl_prev p) - 1) \<noteq> pl_last p)
               then clear_index p else p)
      in do {
        (h, prev) \<leftarrow> extend_loop committed (pl_head p) (pl_prev p);
        Some (p\<lparr>pl_head := h, pl_prev := prev,
                pl_last := (if prev \<noteq> [] then committed ! (length prev - 1) else pl_last p)\<rparr>)
      })"

definition indexed_tokens :: "lookup \<Rightarrow> nat" where
  "indexed_tokens p = length (pl_prev p)"

section \<open>Finding a copy\<close>

definition vec_at :: "'a list \<Rightarrow> nat \<Rightarrow> 'a option" where
  "vec_at xs i = (if i < length xs then Some (xs ! i) else None)"

definition context_at :: "u32 list \<Rightarrow> u32 list \<Rightarrow> nat \<Rightarrow> u32 option" where
  "context_at committed tail i =
     (if i < length committed then vec_at committed i else vec_at tail (i - length committed))"

definition context_size :: "u32 list \<Rightarrow> u32 list \<Rightarrow> nat" where
  "context_size committed tail = length committed + length tail"

function match_length :: "u32 list \<Rightarrow> u32 list \<Rightarrow> nat \<Rightarrow> nat \<Rightarrow> nat \<Rightarrow> nat option" where
  "match_length committed tail max_match e len =
     (if len < max_match \<and> e > len
      then do {
        a \<leftarrow> vec_at committed (e - len - 1);
        b \<leftarrow> context_at committed tail (context_size committed tail - len - 1);
        (if a = b then match_length committed tail max_match e (len + 1) else Some len)
      }
      else Some len)"
  by pat_completeness auto
termination by (relation "measure (\<lambda>(_, _, m, _, l). m - l)") auto

declare match_length.simps [simp del]

definition resumes :: "lookup \<Rightarrow> u32 \<Rightarrow> bool" where
  "resumes p e \<longleftrightarrow> pl_resume p \<noteq> k_no_resume \<and> ucast e + k_resume_back \<ge> pl_resume p \<and>
     ucast e \<le> pl_resume p + k_resume_window"

definition allowed :: "lookup \<Rightarrow> nat \<Rightarrow> bool \<Rightarrow> u32 \<Rightarrow> nat \<Rightarrow> bool" where
  "allowed p minimum require_resume e len \<longleftrightarrow>
     (if require_resume then resumes p e \<and> len \<ge> minimum
      else len \<ge> minimum \<or> (resumes p e \<and> len \<ge> k_resume_min_match))"

fun find_loop ::
  "lookup \<Rightarrow> u32 list \<Rightarrow> u32 list \<Rightarrow> nat \<Rightarrow> (nat \<Rightarrow> bool) \<Rightarrow> bool \<Rightarrow> nat \<Rightarrow> nat \<Rightarrow> u32 \<Rightarrow>
   lookup_match \<Rightarrow> lookup_match option" where
  "find_loop p committed tail minimum accept require_resume max_match 0 e best = Some best"
| "find_loop p committed tail minimum accept require_resume max_match (Suc n) e best =
     (if e = k_none then Some best
      else do {
        len \<leftarrow> match_length committed tail max_match (unat e) k_key_tokens;
        next_end \<leftarrow> vec_at (pl_prev p) (unat e);
        find_loop p committed tail minimum accept require_resume max_match n next_end
          (if unat e < length (pl_prev p) \<and> len > mt_length best \<and>
              allowed p minimum require_resume e len \<and> accept (unat e)
           then \<lparr>mt_start = unat e, mt_length = len\<rparr> else best)
      })"

definition available :: "lookup \<Rightarrow> u32 list \<Rightarrow> u32 list \<Rightarrow> nat" where
  "available p committed tail =
     (let context_tokens = context_size committed tail
      in if pl_request_start p = k_no_resume then context_tokens
         else context_tokens - min context_tokens (unat (pl_request_start p)))"

definition max_match_of :: "lookup \<Rightarrow> u32 list \<Rightarrow> u32 list \<Rightarrow> nat" where
  "max_match_of p committed tail = min k_max_match (available p committed tail)"

definition find_copy ::
  "lookup \<Rightarrow> u32 list \<Rightarrow> u32 list \<Rightarrow> nat \<Rightarrow> (nat \<Rightarrow> bool) \<Rightarrow> bool \<Rightarrow> lookup_match option" where
  "find_copy p committed tail minimum accept require_resume =
     (let max_match = max_match_of p committed tail;
          c = context_size committed tail
      in if max_match < k_key_tokens \<or>
            (require_resume \<and> (pl_resume p = k_no_resume \<or> max_match < minimum))
         then Some no_match
         else do {
           a \<leftarrow> context_at committed tail (c - 3);
           b \<leftarrow> context_at committed tail (c - 3 + 1);
           d \<leftarrow> context_at committed tail (c - 3 + 2);
           e \<leftarrow> find_head (pl_head p) (key_of_tokens [a, b, d]);
           find_loop p committed tail minimum accept require_resume max_match k_max_candidates e no_match
         })"

text \<open>The overload without a callback accepts every source.\<close>

definition find_any :: "lookup \<Rightarrow> u32 list \<Rightarrow> u32 list \<Rightarrow> nat \<Rightarrow> bool \<Rightarrow> lookup_match option" where
  "find_any p committed tail minimum require_resume =
     find_copy p committed tail minimum (\<lambda>_. True) require_resume"

end
