(* ===== verification/Prompt_Lookup_Properties.thy ===== *)
theory Prompt_Lookup_Properties
  imports Prompt_Lookup
begin

text \<open>
  Correctness of the prompt lookup: the index is exactly the chains of earlier occurrences of each
  token triple, a copy that is proposed really continues a match of the context, and among the
  occurrences examined it is the longest allowed one. The hash table enters only through the
  interpretation \<open>ht\<close> of its interface.
\<close>

section \<open>Keys\<close>

definition token_ok :: "u32 \<Rightarrow> bool" where
  "token_ok t \<longleftrightarrow> unat t < 2 ^ 21"

lemma bit_key3:
  "bit (key_of_tokens [a, b, c]) i \<longleftrightarrow>
     (i < 21 \<and> bit c i) \<or> (21 \<le> i \<and> i < 42 \<and> bit b (i - 21)) \<or> (42 \<le> i \<and> i < 63 \<and> bit a (i - 42))"
proof -
  have mask: "(0x1FFFFF :: u64) = mask 21" by (simp add: mask_eq_exp_minus_1)
  show ?thesis
    unfolding key_of_tokens_def mask
    by (auto simp: bit_simps diff_diff_left)
qed

lemma key3_not_empty: "key_of_tokens [a, b, c] \<noteq> k_empty"
proof
  assume "key_of_tokens [a, b, c] = k_empty"
  then have "bit (key_of_tokens [a, b, c]) 63 = bit k_empty 63" by simp
  then show False by (simp add: bit_key3 k_empty_def)
qed

lemma bit_token_ok:
  assumes "token_ok t" "bit t i" shows "i < 21"
proof -
  have "bit (unat t) i" using assms(2) by (simp add: bit_unsigned_iff)
  then have "unat t div 2 ^ i \<noteq> 0" by (metis bit_iff_odd even_zero)
  then have "2 ^ i \<le> unat t" by (metis div_less linorder_not_le)
  also have "\<dots> < 2 ^ 21" using assms(1) by (simp add: token_ok_def)
  finally show ?thesis by (simp add: power_strict_increasing_iff del: power_numeral)
qed

lemma key3_inject:
  assumes "key_of_tokens [a, b, c] = key_of_tokens [a', b', c']"
    and "token_ok a" "token_ok b" "token_ok c" "token_ok a'" "token_ok b'" "token_ok c'"
  shows "a = a' \<and> b = b' \<and> c = c'"
proof -
  note same = arg_cong[OF assms(1), of "\<lambda>k. bit k i" for i, unfolded bit_key3]
  have "bit c i = bit c' i" for i
    using same[of i] bit_token_ok[OF assms(4), of i] bit_token_ok[OF assms(7), of i] by (cases "i < 21") auto
  moreover have "bit b i = bit b' i" for i
    using same[of "i + 21"] bit_token_ok[OF assms(3), of i] bit_token_ok[OF assms(6), of i]
    by (cases "i < 21") auto
  moreover have "bit a i = bit a' i" for i
    using same[of "i + 42"] bit_token_ok[OF assms(2), of i] bit_token_ok[OF assms(5), of i]
    by (cases "i < 21") auto
  ultimately show ?thesis by (simp add: bit_eq_iff)
qed

lemma take3_drop:
  assumes "n + 3 \<le> length xs" shows "take 3 (drop n xs) = [xs ! n, xs ! (n + 1), xs ! (n + 2)]"
  using assms by (intro nth_equalityI) (auto simp: less_Suc_eq numeral_3_eq_3)

lemma key_at_eq:
  assumes "3 \<le> e" "e \<le> length toks"
  shows "key_at toks e = key_of_tokens [toks ! (e - 3), toks ! (e - 2), toks ! (e - 1)]"
proof -
  have "e - 3 + 1 = e - 2" "e - 3 + 2 = e - 1" using assms(1) by simp_all
  with take3_drop[of "e - 3" toks] assms show ?thesis by (simp add: key_at_def k_key_tokens_def)
qed

lemma key_at_not_empty: "3 \<le> e \<Longrightarrow> e \<le> length toks \<Longrightarrow> key_at toks e \<noteq> k_empty"
  by (simp add: key_at_eq key3_not_empty)

section \<open>The index\<close>

text \<open>The most recent end before \<open>n\<close> of an occurrence of the key.\<close>

fun last_end :: "u32 list \<Rightarrow> nat \<Rightarrow> u64 \<Rightarrow> u32" where
  "last_end toks 0 key = k_none"
| "last_end toks (Suc n) key = (if 3 \<le> n \<and> key_at toks n = key then word_of_nat n else last_end toks n key)"

definition answers :: "u32 list \<Rightarrow> nat \<Rightarrow> heads \<Rightarrow> bool" where
  "answers toks n h \<longleftrightarrow> heads_ok h \<and> (\<forall>key. key \<noteq> k_empty \<longrightarrow> find_head h key = Some (last_end toks n key))"

definition chained :: "u32 list \<Rightarrow> u32 list \<Rightarrow> bool" where
  "chained toks prev \<longleftrightarrow>
     (\<forall>e<length prev. prev ! e = (if 3 \<le> e then last_end toks e (key_at toks e) else k_none))"

definition index_ok :: "u32 list \<Rightarrow> lookup \<Rightarrow> bool" where
  "index_ok toks p \<longleftrightarrow> length (pl_prev p) \<le> length toks \<and> answers toks (length (pl_prev p)) (pl_head p) \<and>
     chained toks (pl_prev p) \<and> (pl_prev p \<noteq> [] \<longrightarrow> pl_last p = toks ! (length (pl_prev p) - 1))"

lemma key_at_prefix:
  assumes "take n toks = take n toks'" "3 \<le> e" "e \<le> n" shows "key_at toks e = key_at toks' e"
proof -
  have "take 3 (drop (e - 3) ts) = take 3 (drop (e - 3) (take n ts))" for ts :: "u32 list"
  proof -
    have "3 \<le> n - (e - 3)" using assms(2,3) by simp
    then show ?thesis by (simp only: drop_take take_take min_absorb1)
  qed
  from this[of toks] this[of toks'] show ?thesis using assms(1) by (simp add: key_at_def k_key_tokens_def)
qed

lemma last_end_prefix:
  "take n toks = take n toks' \<Longrightarrow> m \<le> Suc n \<Longrightarrow> last_end toks m key = last_end toks' m key"
proof (induction m)
  case (Suc m)
  then show ?case using key_at_prefix[of n toks toks' m] by (cases "3 \<le> m") simp_all
qed simp

lemma index_ok_prefix:
  assumes "index_ok toks p" "take (length (pl_prev p)) toks = take (length (pl_prev p)) toks'"
    and "length (pl_prev p) \<le> length toks'"
  shows "index_ok toks' p"
proof -
  let ?n = "length (pl_prev p)"
  have "last_end toks' e key = last_end toks e key" if "e \<le> ?n" for e key
    using last_end_prefix[OF assms(2), of e key] that by simp
  moreover have "key_at toks' e = key_at toks e" if "3 \<le> e" "e < ?n" for e
    using key_at_prefix[OF assms(2), of e] that by simp
  moreover have "toks' ! (?n - 1) = toks ! (?n - 1)" if "pl_prev p \<noteq> []"
    using assms(2) that by (metis diff_less length_greater_0_conv less_numeral_extra(1) nth_take)
  ultimately show ?thesis using assms(1,3) unfolding index_ok_def answers_def chained_def by simp
qed

lemma index_ok_cleared:
  assumes "heads_ok (pl_head p)" shows "index_ok toks (clear_index p)"
  using ht.wipe_answers[OF assms] by (simp add: index_ok_def clear_index_def answers_def chained_def)

lemma chained_snoc:
  assumes "chained toks prev" "x = (if 3 \<le> length prev then last_end toks (length prev) (key_at toks (length prev)) else k_none)"
  shows "chained toks (prev @ [x])"
  using assms unfolding chained_def by (auto simp: nth_append less_Suc_eq)

lemma extend_loop_ok:
  assumes "answers toks (length prev) h" "chained toks prev" "length prev \<le> length toks"
  shows "\<exists>h' prev'. extend_loop toks h prev = Some (h', prev') \<and> answers toks (length prev') h' \<and>
    chained toks prev' \<and> length prev' = length toks"
  using assms
proof (induction "length toks - length prev" arbitrary: h prev)
  case 0
  then show ?case by (subst extend_loop.simps) simp
next
  case (Suc n)
  let ?e = "length prev"
  have less: "?e < length toks" using Suc.hyps(2) by simp
  show ?case
  proof (cases "3 \<le> ?e")
    case True
    let ?key = "key_at toks ?e"
    have ne: "?key \<noteq> k_empty" using key_at_not_empty True less by simp
    have "heads_ok h" "\<And>key. key \<noteq> k_empty \<Longrightarrow> find_head h key = Some (last_end toks ?e key)"
      using Suc.prems(1) unfolding answers_def by blast+
    from ht.put_answers[OF this ne, of "word_of_nat ?e"]
    obtain h' where h': "exchange h ?key (word_of_nat ?e) = Some (h', last_end toks ?e ?key)" "heads_ok h'"
      "\<forall>key. key \<noteq> k_empty \<longrightarrow> find_head h' key = Some (((last_end toks ?e)(?key := word_of_nat ?e)) key)"
      by blast
    have "answers toks (length (prev @ [last_end toks ?e ?key])) h'"
      using h'(2,3) True unfolding answers_def by auto
    moreover have "chained toks (prev @ [last_end toks ?e ?key])"
      using Suc.prems(2) True by (simp add: chained_snoc)
    moreover have "n = length toks - length (prev @ [last_end toks ?e ?key])" using Suc.hyps(2) by simp
    ultimately show ?thesis
      using Suc.hyps(1)[of "prev @ [last_end toks ?e ?key]" h'] less h'(1) True
      by (subst extend_loop.simps) (simp add: k_key_tokens_def)
  next
    case False
    have "answers toks (length (prev @ [k_none])) h" using Suc.prems(1) False by (simp add: answers_def)
    moreover have "chained toks (prev @ [k_none])" using Suc.prems(2) False by (simp add: chained_snoc)
    moreover have "n = length toks - length (prev @ [k_none])" using Suc.hyps(2) by simp
    ultimately show ?thesis
      using Suc.hyps(1)[of "prev @ [k_none]" h] less False
      by (subst extend_loop.simps) (simp add: k_key_tokens_def)
  qed
qed

lemma extend_ok:
  assumes "index_ok old p" and "committed = source_tokens p all_committed prompt_only"
    and "length (pl_prev p) \<le> length committed \<Longrightarrow> pl_prev p \<noteq> [] \<Longrightarrow>
      committed ! (length (pl_prev p) - 1) = pl_last p \<Longrightarrow>
      take (length (pl_prev p)) committed = take (length (pl_prev p)) old"
  shows "\<exists>p'. extend p all_committed prompt_only = Some p' \<and> index_ok committed p' \<and>
    indexed_tokens p' = length committed \<and> pl_request_start p' = pl_request_start p"
proof -
  let ?restart = "length committed < length (pl_prev p) \<or>
      (pl_prev p \<noteq> [] \<and> committed ! (length (pl_prev p) - 1) \<noteq> pl_last p)"
  let ?p = "if ?restart then clear_index p else p"
  have heads: "heads_ok (pl_head p)" using assms(1) by (simp add: index_ok_def answers_def)
  have "index_ok committed ?p"
  proof (cases ?restart)
    case True
    then show ?thesis using index_ok_cleared[OF heads] by simp
  next
    case False
    then have "take (length (pl_prev p)) old = take (length (pl_prev p)) committed"
      using assms(3) by (cases "pl_prev p = []") auto
    with index_ok_prefix[OF assms(1) this] False have "index_ok committed p" by simp
    with False show ?thesis by (simp only: if_False)
  qed
  then have "answers committed (length (pl_prev ?p)) (pl_head ?p)" "chained committed (pl_prev ?p)"
    "length (pl_prev ?p) \<le> length committed" unfolding index_ok_def by blast+
  from extend_loop_ok[OF this] obtain h' prev' where e: "extend_loop committed (pl_head ?p) (pl_prev ?p) = Some (h', prev')"
    "answers committed (length prev') h'" "chained committed prev'" "length prev' = length committed" by blast
  have "pl_request_start ?p = pl_request_start p" by (simp add: clear_index_def)
  with e show ?thesis
    unfolding extend_def by (simp add: Let_def assms(2)[symmetric] index_ok_def indexed_tokens_def)
qed

section \<open>Occurrences\<close>

text \<open>The ends of the key's occurrences before \<open>n\<close>, the most recent first.\<close>

definition occurrences :: "u32 list \<Rightarrow> nat \<Rightarrow> u64 \<Rightarrow> nat list" where
  "occurrences toks n key = filter (\<lambda>e. 3 \<le> e \<and> key_at toks e = key) (rev [0..<n])"

lemma occurrences_Suc:
  "occurrences toks (Suc n) key =
     (if 3 \<le> n \<and> key_at toks n = key then n # occurrences toks n key else occurrences toks n key)"
  by (simp add: occurrences_def)

lemma occurrences_0 [simp]: "occurrences toks 0 key = []"
  by (simp add: occurrences_def)

lemma last_end_occurrences:
  "last_end toks n key = (case occurrences toks n key of [] \<Rightarrow> k_none | e # es \<Rightarrow> word_of_nat e)"
  by (induction n) (auto simp: occurrences_Suc)

lemma occurrences_tail:
  assumes "occurrences toks n key = e # es"
  shows "es = occurrences toks e key" "e < n" "3 \<le> e" "key_at toks e = key"
  using assms by (induction n) (auto simp: occurrences_Suc split: if_splits)

lemma set_occurrences: "set (occurrences toks n key) = {e. 3 \<le> e \<and> e < n \<and> key_at toks e = key}"
  by (auto simp: occurrences_def)

lemma occurrences_prefix:
  assumes "take n toks = take n toks'" shows "occurrences toks n key = occurrences toks' n key"
  unfolding occurrences_def using key_at_prefix[OF assms] by (intro filter_cong) auto

section \<open>Matching backwards\<close>

text \<open>The \<open>l\<close> tokens before position \<open>e\<close> are the last \<open>l\<close> tokens of the context.\<close>

definition matches :: "u32 list \<Rightarrow> u32 list \<Rightarrow> nat \<Rightarrow> nat \<Rightarrow> bool" where
  "matches committed tail e l \<longleftrightarrow> l \<le> e \<and> e \<le> length committed \<and>
     (\<forall>j<l. committed ! (e - j - 1) = (committed @ tail) ! (context_size committed tail - j - 1))"

lemma context_at_nth:
  "i < context_size committed tail \<Longrightarrow> context_at committed tail i = Some ((committed @ tail) ! i)"
  by (auto simp: context_at_def context_size_def vec_at_def nth_append)

lemma matches_mono: "matches committed tail e k \<Longrightarrow> l \<le> k \<Longrightarrow> matches committed tail e l"
  by (simp add: matches_def)

lemma match_length_ok:
  assumes "matches committed tail e l" "l \<le> mm" "mm \<le> context_size committed tail"
  shows "\<exists>m. match_length committed tail mm e l = Some m \<and> l \<le> m \<and> m \<le> mm \<and>
    matches committed tail e m \<and> (\<forall>k\<le>mm. matches committed tail e k \<longrightarrow> k \<le> m)"
  using assms
proof (induction "mm - l" arbitrary: l)
  case 0
  then show ?case by (subst match_length.simps) simp
next
  case (Suc n)
  let ?c = "context_size committed tail"
  have less: "l < mm" using Suc.hyps(2) by simp
  show ?case
  proof (cases "e > l")
    case False
    then have "\<forall>k\<le>mm. matches committed tail e k \<longrightarrow> k \<le> l" by (simp add: matches_def)
    with False Suc.prems show ?thesis by (subst match_length.simps) simp
  next
    case True
    have "e \<le> length committed" using Suc.prems(1) by (simp add: matches_def)
    then have a: "vec_at committed (e - l - 1) = Some (committed ! (e - l - 1))" using True by (simp add: vec_at_def)
    have b: "context_at committed tail (?c - l - 1) = Some ((committed @ tail) ! (?c - l - 1))"
      using less Suc.prems(3) by (intro context_at_nth) simp
    show ?thesis
    proof (cases "committed ! (e - l - 1) = (committed @ tail) ! (?c - l - 1)")
      case same: True
      have "matches committed tail e (l + 1)"
        using Suc.prems(1) same True by (auto simp: matches_def less_Suc_eq)
      moreover have "n = mm - (l + 1)" "l + 1 \<le> mm" using Suc.hyps(2) by simp_all
      ultimately obtain m where m: "match_length committed tail mm e (l + 1) = Some m" "l + 1 \<le> m" "m \<le> mm"
        "matches committed tail e m" "\<forall>k\<le>mm. matches committed tail e k \<longrightarrow> k \<le> m"
        using Suc.hyps(1)[of "l + 1"] Suc.prems(3) by blast
      have "match_length committed tail mm e l = Some m"
        using less True a b same m(1) by (subst match_length.simps) simp
      with m show ?thesis by (meson add_leE)
    next
      case differ: False
      have "k \<le> l" if "matches committed tail e k" for k
        using that differ unfolding matches_def by (meson linorder_not_le)
      moreover have "match_length committed tail mm e l = Some l"
        using less True a b differ by (subst match_length.simps) simp
      ultimately show ?thesis using Suc.prems by blast
    qed
  qed
qed

section \<open>The candidate loop\<close>

text \<open>The loop is a fold over the occurrences, most recent first.\<close>

definition longest :: "u32 list \<Rightarrow> u32 list \<Rightarrow> nat \<Rightarrow> nat \<Rightarrow> nat" where
  "longest committed tail mm e = the (match_length committed tail mm e 3)"

definition pick ::
  "lookup \<Rightarrow> u32 list \<Rightarrow> u32 list \<Rightarrow> nat \<Rightarrow> (nat \<Rightarrow> bool) \<Rightarrow> bool \<Rightarrow> nat \<Rightarrow> lookup_match \<Rightarrow> nat \<Rightarrow> lookup_match" where
  "pick p committed tail minimum accept rr mm best e =
     (if longest committed tail mm e > mt_length best \<and>
         allowed p minimum rr (word_of_nat e) (longest committed tail mm e) \<and> accept e
      then \<lparr>mt_start = e, mt_length = longest committed tail mm e\<rparr> else best)"

lemma longest_ok:
  assumes "matches committed tail e 3" "3 \<le> mm" "mm \<le> context_size committed tail"
  shows "match_length committed tail mm e 3 = Some (longest committed tail mm e)"
    "3 \<le> longest committed tail mm e" "longest committed tail mm e \<le> mm"
    "matches committed tail e (longest committed tail mm e)"
    "k \<le> mm \<Longrightarrow> matches committed tail e k \<Longrightarrow> k \<le> longest committed tail mm e"
  using match_length_ok[OF assms] by (auto simp: longest_def)

lemma token_word:
  assumes "e < 2 ^ 32 - 1" shows "unat (word_of_nat e :: u32) = e" "(word_of_nat e :: u32) \<noteq> k_none"
proof -
  show u: "unat (word_of_nat e :: u32) = e" using assms by (simp add: unat_of_nat)
  have "unat k_none = 2 ^ 32 - 1" by (simp add: k_none_def unsigned_minus_1_eq_mask mask_eq_exp_minus_1)
  with u assms show "(word_of_nat e :: u32) \<noteq> k_none" by (metis less_irrefl)
qed

lemma find_loop_ok:
  assumes "index_ok committed p" "length committed < 2 ^ 32 - 1" "N \<le> length (pl_prev p)"
    and "3 \<le> mm" "mm \<le> context_size committed tail"
    and "\<And>e. 3 \<le> e \<Longrightarrow> e < N \<Longrightarrow> key_at committed e = key \<Longrightarrow> matches committed tail e 3"
  shows "find_loop p committed tail minimum accept rr mm n (last_end committed N key) best =
    Some (foldl (pick p committed tail minimum accept rr mm) best (take n (occurrences committed N key)))"
  using assms(3,6)
proof (induction n arbitrary: N best)
  case (Suc n)
  show ?case
  proof (cases "occurrences committed N key")
    case Nil
    then show ?thesis by (simp add: last_end_occurrences)
  next
    case (Cons e es)
    note t = occurrences_tail[OF Cons]
    have bounds: "e < length (pl_prev p)" "e < 2 ^ 32 - 1"
      using t(2) Suc.prems(1) assms(1,2) by (auto simp: index_ok_def)
    note w = token_word[OF bounds(2)]
    have last: "last_end committed N key = word_of_nat e" by (simp add: last_end_occurrences Cons)
    note l = longest_ok[OF Suc.prems(2)[OF t(3,2,4)] assms(4,5)]
    have "pl_prev p ! e = last_end committed e key"
      using assms(1) bounds(1) t(3,4) by (simp add: index_ok_def chained_def)
    then have v: "vec_at (pl_prev p) e = Some (last_end committed e key)" using bounds(1) by (simp add: vec_at_def)
    have "find_loop p committed tail minimum accept rr mm n (last_end committed e key) best' =
        Some (foldl (pick p committed tail minimum accept rr mm) best' (take n es))" for best'
      unfolding t(1) using Suc.prems(2) t(2) bounds(1) by (intro Suc.IH) auto
    moreover have "(if unat (word_of_nat e :: u32) < length (pl_prev p) \<and> longest committed tail mm e > mt_length best \<and>
          allowed p minimum rr (word_of_nat e) (longest committed tail mm e) \<and> accept (unat (word_of_nat e :: u32))
        then \<lparr>mt_start = unat (word_of_nat e :: u32), mt_length = longest committed tail mm e\<rparr> else best) =
        pick p committed tail minimum accept rr mm best e"
      using w(1) bounds(1) by (simp add: pick_def)
    ultimately show ?thesis
      using w l(1) v by (simp add: last Cons k_key_tokens_def)
  qed
qed simp

lemma foldl_pick:
  assumes "r = foldl (pick p committed tail minimum accept rr mm) no_match es"
  shows "r = no_match \<or> (mt_start r \<in> set es \<and> mt_length r = longest committed tail mm (mt_start r) \<and>
      allowed p minimum rr (word_of_nat (mt_start r)) (mt_length r) \<and> accept (mt_start r))"
    and "e \<in> set es \<Longrightarrow> allowed p minimum rr (word_of_nat e) (longest committed tail mm e) \<Longrightarrow> accept e \<Longrightarrow>
      longest committed tail mm e \<le> mt_length r"
proof -
  let ?p = "pick p committed tail minimum accept rr mm"
  have "(foldl ?p no_match es = no_match \<or>
      (mt_start (foldl ?p no_match es) \<in> set es \<and>
       mt_length (foldl ?p no_match es) = longest committed tail mm (mt_start (foldl ?p no_match es)) \<and>
       allowed p minimum rr (word_of_nat (mt_start (foldl ?p no_match es))) (mt_length (foldl ?p no_match es)) \<and>
       accept (mt_start (foldl ?p no_match es)))) \<and>
    (\<forall>e\<in>set es. allowed p minimum rr (word_of_nat e) (longest committed tail mm e) \<longrightarrow> accept e \<longrightarrow>
      longest committed tail mm e \<le> mt_length (foldl ?p no_match es))"
  proof (induction es rule: rev_induct)
    case (snoc x xs)
    define b where "b = foldl ?p no_match xs"
    have step: "foldl ?p no_match (xs @ [x]) = ?p b x" by (simp add: b_def)
    show ?case
    proof (cases "?p b x = b")
      case True
      then have "\<not> (longest committed tail mm x > mt_length b \<and>
          allowed p minimum rr (word_of_nat x) (longest committed tail mm x) \<and> accept x)"
        by (auto simp: pick_def split: if_splits)
      then show ?thesis using snoc unfolding step True b_def[symmetric] by auto
    next
      case False
      then have x: "longest committed tail mm x > mt_length b"
        "allowed p minimum rr (word_of_nat x) (longest committed tail mm x)" "accept x"
        "?p b x = \<lparr>mt_start = x, mt_length = longest committed tail mm x\<rparr>"
        by (auto simp: pick_def split: if_splits)
      have "longest committed tail mm e \<le> longest committed tail mm x"
        if "e \<in> set xs" "allowed p minimum rr (word_of_nat e) (longest committed tail mm e)" "accept e" for e
        using snoc that x(1) unfolding b_def[symmetric] by (meson less_imp_le le_trans)
      then show ?thesis unfolding step x(4) using x(2,3) by auto
    qed
  qed simp
  with assms show "r = no_match \<or> (mt_start r \<in> set es \<and> mt_length r = longest committed tail mm (mt_start r) \<and>
      allowed p minimum rr (word_of_nat (mt_start r)) (mt_length r) \<and> accept (mt_start r))"
    "e \<in> set es \<Longrightarrow> allowed p minimum rr (word_of_nat e) (longest committed tail mm e) \<Longrightarrow> accept e \<Longrightarrow>
      longest committed tail mm e \<le> mt_length r"
    by simp_all
qed

section \<open>Reachable lookups\<close>

text \<open>Every history of calls; the first component is the token source indexed so far. A caller of
  \<open>Extend\<close> keeps the documented contract: what it passes extends what was indexed, or differs
  visibly (it is shorter, or its last indexed token changed).\<close>

definition extends_source :: "u32 list \<Rightarrow> lookup \<Rightarrow> u32 list \<Rightarrow> bool" where
  "extends_source src p committed \<longleftrightarrow>
     (length (pl_prev p) \<le> length committed \<longrightarrow> pl_prev p \<noteq> [] \<longrightarrow>
      committed ! (length (pl_prev p) - 1) = pl_last p \<longrightarrow> take (length (pl_prev p)) committed = src)"

inductive lookup_reachable :: "u32 list \<Rightarrow> lookup \<Rightarrow> bool" where
  Start: "lookup_reachable [] new_lookup"
| Clear: "lookup_reachable src p \<Longrightarrow> lookup_reachable [] (clear_lookup p)"
| Begin: "lookup_reachable src p \<Longrightarrow> lookup_reachable src (begin_request p)"
| Step: "lookup_reachable src p \<Longrightarrow> lookup_reachable src (fst (step p position))"
| Observe: "lookup_reachable src p \<Longrightarrow> lookup_reachable src (observe p start proposed accepted)"
| Restore: "lookup_reachable src p \<Longrightarrow> lookup_reachable [] (restore p st)"
| Extend: "lookup_reachable src p \<Longrightarrow> extends_source src p (source_tokens p committed prompt_only) \<Longrightarrow>
    extend p committed prompt_only = Some p' \<Longrightarrow> lookup_reachable (source_tokens p committed prompt_only) p'"

lemma index_ok_fields:
  assumes "index_ok src p" "pl_head p' = pl_head p" "pl_prev p' = pl_prev p" "pl_last p' = pl_last p"
  shows "index_ok src p'"
  using assms by (simp add: index_ok_def)

lemma extend_source_ok:
  assumes "index_ok src p" "indexed_tokens p = length src" "extends_source src p (source_tokens p committed prompt_only)"
  shows "\<exists>p'. extend p committed prompt_only = Some p' \<and> index_ok (source_tokens p committed prompt_only) p' \<and>
    indexed_tokens p' = length (source_tokens p committed prompt_only)"
proof -
  have "take (length (pl_prev p)) src = src" using assms(2) by (simp add: indexed_tokens_def)
  then show ?thesis using extend_ok[OF assms(1) refl] assms(3) unfolding extends_source_def by metis
qed

lemma reachable_index:
  "lookup_reachable src p \<Longrightarrow> index_ok src p \<and> indexed_tokens p = length src"
proof (induction rule: lookup_reachable.induct)
  case Start
  then show ?case
    using no_heads_ok find_head_ok[OF no_heads_ok(1)]
    by (simp add: index_ok_def new_lookup_def answers_def chained_def indexed_tokens_def or_none_def)
next
  case (Clear src p)
  then have "index_ok [] (clear_index p)" by (intro index_ok_cleared) (simp add: index_ok_def answers_def)
  then show ?case
    by (auto simp: clear_lookup_def indexed_tokens_def clear_index_def intro: index_ok_fields)
next
  case (Begin src p)
  then show ?case by (auto simp: begin_request_def indexed_tokens_def intro: index_ok_fields)
next
  case (Step src p position)
  then show ?case by (auto simp: step_def indexed_tokens_def intro: index_ok_fields)
next
  case (Observe src p start proposed accepted)
  then show ?case by (auto simp: observe_def indexed_tokens_def intro: index_ok_fields)
next
  case (Restore src p st)
  then have "index_ok [] (clear_index p)" by (intro index_ok_cleared) (simp add: index_ok_def answers_def)
  then show ?case
    by (auto simp: restore_def clear_lookup_def indexed_tokens_def clear_index_def intro: index_ok_fields)
next
  case (Extend src p committed prompt_only p')
  then show ?case using extend_source_ok[of src p committed prompt_only] by auto
qed

text \<open>The key of the context is the key of the last three tokens, which the occurrences repeat.\<close>

lemma key_match:
  assumes "3 \<le> e" "e \<le> length committed" "3 \<le> context_size committed tail"
    and "key_at committed e = key_of_tokens
      [(committed @ tail) ! (context_size committed tail - 3), (committed @ tail) ! (context_size committed tail - 2),
       (committed @ tail) ! (context_size committed tail - 1)]"
    and "\<forall>t\<in>set (committed @ tail). token_ok t"
  shows "matches committed tail e 3"
proof -
  let ?c = "context_size committed tail"
  have ok: "token_ok ((committed @ tail) ! i)" if "i < ?c" for i
    using assms(5) that by (metis context_size_def length_append nth_mem)
  have ok': "token_ok (committed ! i)" if "i < length committed" for i
    using assms(5) that by simp
  have "committed ! (e - 3) = (committed @ tail) ! (?c - 3) \<and> committed ! (e - 2) = (committed @ tail) ! (?c - 2) \<and>
      committed ! (e - 1) = (committed @ tail) ! (?c - 1)"
    by (rule key3_inject) (use assms(1-4) ok ok' in \<open>simp_all add: key_at_eq\<close>)
  then have "committed ! (e - j - 1) = (committed @ tail) ! (?c - j - 1)" if "j < 3" for j
    using that by (auto simp: less_Suc_eq numeral_3_eq_3 numeral_2_eq_2)
  with assms(1,2) show ?thesis unfolding matches_def by blast
qed

lemma source_length:
  assumes "take (length src) committed = src" shows "length src \<le> length committed"
proof -
  have "length src = min (length committed) (length src)" using assms by (metis length_take)
  then show ?thesis by simp
qed

abbreviation context_key :: "u32 list \<Rightarrow> u32 list \<Rightarrow> u64" where
  "context_key committed tail \<equiv> key_of_tokens
     [(committed @ tail) ! (context_size committed tail - 3), (committed @ tail) ! (context_size committed tail - 2),
      (committed @ tail) ! (context_size committed tail - 1)]"

definition examined :: "lookup \<Rightarrow> u32 list \<Rightarrow> u32 list \<Rightarrow> nat list" where
  "examined p committed tail =
     take k_max_candidates (occurrences committed (indexed_tokens p) (context_key committed tail))"

lemma find_copy_fold:
  assumes "lookup_reachable src p" "take (length src) committed = src" "length committed < 2 ^ 32 - 1"
    and "\<forall>t\<in>set (committed @ tail). token_ok t"
  shows "(max_match_of p committed tail < 3 \<or> (rr \<and> (pl_resume p = k_no_resume \<or> max_match_of p committed tail < minimum))
      \<longrightarrow> find_copy p committed tail minimum accept rr = Some no_match) \<and>
    (\<not> (max_match_of p committed tail < 3 \<or> (rr \<and> (pl_resume p = k_no_resume \<or> max_match_of p committed tail < minimum)))
      \<longrightarrow> find_copy p committed tail minimum accept rr =
        Some (foldl (pick p committed tail minimum accept rr (max_match_of p committed tail)) no_match
          (examined p committed tail)))"
    (is "(?skip \<longrightarrow> ?none) \<and> (\<not> ?skip \<longrightarrow> ?some)")
proof (intro conjI impI)
  show ?none if ?skip using that by (simp add: find_copy_def k_key_tokens_def)
  let ?c = "context_size committed tail" and ?mm = "max_match_of p committed tail"
  assume go: "\<not> ?skip"
  have mm: "?mm \<le> ?c" by (auto simp: max_match_of_def available_def Let_def min_le_iff_disj)
  with go have c: "3 \<le> ?c" by simp
  have ctx: "context_at committed tail (?c - 3) = Some ((committed @ tail) ! (?c - 3))"
    "context_at committed tail (?c - 3 + 1) = Some ((committed @ tail) ! (?c - 2))"
    "context_at committed tail (?c - 3 + 2) = Some ((committed @ tail) ! (?c - 1))"
  proof -
    have "?c - 3 + 1 = ?c - 2" "?c - 3 + 2 = ?c - 1" using c by simp_all
    then show "context_at committed tail (?c - 3) = Some ((committed @ tail) ! (?c - 3))"
      "context_at committed tail (?c - 3 + 1) = Some ((committed @ tail) ! (?c - 2))"
      "context_at committed tail (?c - 3 + 2) = Some ((committed @ tail) ! (?c - 1))"
      using c by (simp_all add: context_at_nth)
  qed
  from reachable_index[OF assms(1)] have src: "index_ok src p" "length (pl_prev p) = length src"
    by (simp_all add: indexed_tokens_def)
  have len: "length src \<le> length committed" by (rule source_length[OF assms(2)])
  have ok: "index_ok committed p"
    by (rule index_ok_prefix[OF src(1)]) (use src(2) assms(2) len in simp_all)
  then have f: "find_head (pl_head p) (context_key committed tail) =
      Some (last_end committed (length (pl_prev p)) (context_key committed tail))"
    by (simp add: index_ok_def answers_def key3_not_empty)
  have "find_loop p committed tail minimum accept rr ?mm k_max_candidates
      (last_end committed (length (pl_prev p)) (context_key committed tail)) no_match =
    Some (foldl (pick p committed tail minimum accept rr ?mm) no_match
      (take k_max_candidates (occurrences committed (length (pl_prev p)) (context_key committed tail))))"
  proof (rule find_loop_ok[OF ok assms(3) order_refl _ mm])
    show "3 \<le> ?mm" using go by simp
    show "matches committed tail e 3"
      if "3 \<le> e" "e < length (pl_prev p)" "key_at committed e = context_key committed tail" for e
      using key_match[OF that(1) _ c that(3) assms(4)] that(2) src(2) len by simp
  qed
  then show ?some
    using f ctx unfolding find_copy_def Let_def k_key_tokens_def if_not_P[OF go] examined_def indexed_tokens_def
    by simp
qed

section \<open>Properties\<close>

text \<open>C16. After any history of calls \<open>Extend\<close> ends without reading out of range and leaves the exact
  index of the source: the head of a key is the most recent end of an occurrence of that token triple,
  and each position links to the previous occurrence of its own triple.\<close>

theorem prompt_index_exact:
  assumes "lookup_reachable src p" "extends_source src p (source_tokens p committed prompt_only)"
  shows "\<exists>p'. extend p committed prompt_only = Some p' \<and>
    (let toks = source_tokens p committed prompt_only
     in indexed_tokens p' = length toks \<and>
        (\<forall>key. key \<noteq> k_empty \<longrightarrow> find_head (pl_head p') key = Some (last_end toks (length toks) key)) \<and>
        (\<forall>e<length toks. pl_prev p' ! e = (if 3 \<le> e then last_end toks e (key_at toks e) else k_none)))"
proof -
  from reachable_index[OF assms(1)] have "index_ok src p" "indexed_tokens p = length src" by simp_all
  from extend_source_ok[OF this assms(2)] show ?thesis
    by (auto simp: index_ok_def answers_def chained_def indexed_tokens_def Let_def)
qed

text \<open>C17. \<open>Find\<close> never reads out of range and always ends, and a copy it proposes is real: its start
  lies inside the indexed source, the tokens before the start repeat the end of the context over the
  reported length (at least a key, at most the 64 tokens of the current request), the length passes
  the gate in force, and the caller accepts the source.\<close>

theorem proposed_copy_is_real:
  assumes "lookup_reachable src p" "take (length src) committed = src" "length committed < 2 ^ 32 - 1"
    and "\<forall>t\<in>set (committed @ tail). token_ok t"
  shows "\<exists>r. find_copy p committed tail minimum accept rr = Some r \<and>
    (mt_length r \<noteq> 0 \<longrightarrow> mt_start r < indexed_tokens p \<and> 3 \<le> mt_length r \<and> mt_length r \<le> max_match_of p committed tail \<and>
       matches committed tail (mt_start r) (mt_length r) \<and>
       allowed p minimum rr (word_of_nat (mt_start r)) (mt_length r) \<and> accept (mt_start r))"
proof (cases "max_match_of p committed tail < 3 \<or>
    (rr \<and> (pl_resume p = k_no_resume \<or> max_match_of p committed tail < minimum))")
  case True
  with find_copy_fold[OF assms, of rr minimum accept] show ?thesis by (simp add: no_match_def)
next
  case False
  let ?mm = "max_match_of p committed tail"
  define r where "r = foldl (pick p committed tail minimum accept rr ?mm) no_match (examined p committed tail)"
  have found: "find_copy p committed tail minimum accept rr = Some r"
    using find_copy_fold[OF assms, of rr minimum accept] False unfolding r_def by blast
  have mm: "3 \<le> ?mm" "?mm \<le> context_size committed tail"
    using False by (auto simp: max_match_of_def available_def Let_def min_le_iff_disj)
  from reachable_index[OF assms(1)] have n: "indexed_tokens p \<le> length committed"
    using source_length[OF assms(2)] by simp
  have "mt_start r < indexed_tokens p \<and> 3 \<le> mt_length r \<and> mt_length r \<le> ?mm \<and>
       matches committed tail (mt_start r) (mt_length r) \<and>
       allowed p minimum rr (word_of_nat (mt_start r)) (mt_length r) \<and> accept (mt_start r)" if "mt_length r \<noteq> 0"
  proof -
    have r: "mt_start r \<in> set (examined p committed tail)"
      "mt_length r = longest committed tail ?mm (mt_start r)"
      "allowed p minimum rr (word_of_nat (mt_start r)) (mt_length r)" "accept (mt_start r)"
      using foldl_pick(1)[OF r_def] that by (auto simp: no_match_def)
    then have s: "3 \<le> mt_start r" "mt_start r < indexed_tokens p"
      "key_at committed (mt_start r) = context_key committed tail"
      using set_occurrences by (auto simp: examined_def dest: in_set_takeD)
    then have "matches committed tail (mt_start r) 3" using mm n assms(4) by (intro key_match) auto
    from longest_ok(2-4)[OF this mm] r s show ?thesis by simp
  qed
  with found show ?thesis by blast
qed

text \<open>C18. Among the up to sixteen most recent occurrences of the context's last three tokens, no allowed
  and accepted match is longer than the one \<open>Find\<close> returns.\<close>

theorem proposed_copy_is_longest:
  assumes "lookup_reachable src p" "take (length src) committed = src" "length committed < 2 ^ 32 - 1"
    and "\<forall>t\<in>set (committed @ tail). token_ok t"
    and "find_copy p committed tail minimum accept rr = Some r" "3 \<le> max_match_of p committed tail"
    and "e \<in> set (examined p committed tail)" "matches committed tail e l" "l \<le> max_match_of p committed tail"
    and "allowed p minimum rr (word_of_nat e) l" "accept e"
  shows "l \<le> mt_length r"
proof -
  let ?mm = "max_match_of p committed tail"
  have "\<not> (rr \<and> (pl_resume p = k_no_resume \<or> ?mm < minimum))"
    using assms(9,10) by (auto simp: allowed_def resumes_def)
  then have r: "r = foldl (pick p committed tail minimum accept rr ?mm) no_match (examined p committed tail)"
    using find_copy_fold[OF assms(1-4), of rr minimum accept] assms(5,6) by auto
  have mm: "?mm \<le> context_size committed tail"
    by (auto simp: max_match_of_def available_def Let_def min_le_iff_disj)
  from reachable_index[OF assms(1)] have n: "indexed_tokens p \<le> length committed"
    using source_length[OF assms(2)] by simp
  have s: "3 \<le> e" "e < indexed_tokens p" "key_at committed e = context_key committed tail"
    using assms(7) set_occurrences by (auto simp: examined_def dest: in_set_takeD)
  then have m3: "matches committed tail e 3" using assms(4,6) mm n by (intro key_match) auto
  have "l \<le> longest committed tail ?mm e" by (rule longest_ok(5)[OF m3 assms(6) mm assms(9,8)])
  moreover from this have "allowed p minimum rr (word_of_nat e) (longest committed tail ?mm e)"
    using assms(10) by (auto simp: allowed_def split: if_splits)
  ultimately show ?thesis using foldl_pick(2)[OF r assms(7) _ assms(11)] by simp
qed

section \<open>Witnesses\<close>

text \<open>A history that repeats its first three tokens.\<close>

abbreviation demo_tokens :: "u32 list" where
  "demo_tokens \<equiv> [1, 2, 3, 1, 2, 3]"

lemma demo_extends: "extends_source [] new_lookup (source_tokens new_lookup demo_tokens False)"
  by (simp add: extends_source_def new_lookup_def)

lemma demo_indexed:
  obtains p where "lookup_reachable demo_tokens p" "pl_request_start p = k_no_resume" "indexed_tokens p = 6"
proof -
  have src: "source_tokens new_lookup demo_tokens False = demo_tokens" by (simp add: source_tokens_def)
  from reachable_index[OF lookup_reachable.Start] have "index_ok [] new_lookup" by simp
  from extend_ok[OF this refl, of demo_tokens False]
  obtain p where p: "extend new_lookup demo_tokens False = Some p" "indexed_tokens p = 6"
    "pl_request_start p = k_no_resume" unfolding src by (auto simp: new_lookup_def)
  from lookup_reachable.Extend[OF lookup_reachable.Start demo_extends p(1)] p src show thesis by (intro that) simp_all
qed

lemma demo_tokens_ok: "\<forall>t\<in>set (demo_tokens @ []). token_ok t"
  by (simp add: token_ok_def)

lemma demo_examined:
  assumes "pl_request_start p = k_no_resume" "indexed_tokens p = 6"
  shows "max_match_of p demo_tokens [] = 6" "3 \<in> set (examined p demo_tokens [])"
    "matches demo_tokens [] 3 3"
proof -
  show "max_match_of p demo_tokens [] = 6"
    using assms(1) by (simp add: max_match_of_def available_def k_max_match_def context_size_def)
  have "key_at demo_tokens 3 = context_key demo_tokens []"
    by (simp add: key_at_eq context_size_def)
  then have "3 \<in> set (occurrences demo_tokens 6 (context_key demo_tokens []))"
    by (simp add: set_occurrences)
  moreover have "length (occurrences demo_tokens 6 k) \<le> k_max_candidates" for k
    using length_filter_le[of "\<lambda>e. 3 \<le> e \<and> key_at demo_tokens e = k" "rev [0..<6]"]
    by (simp add: occurrences_def k_max_candidates_def)
  ultimately show "3 \<in> set (examined p demo_tokens [])" by (simp add: examined_def assms(2))
  show "matches demo_tokens [] 3 3" by (auto simp: matches_def context_size_def less_Suc_eq numeral_3_eq_3)
qed

theorem prompt_index_exact_witness:
  "\<exists>p. extend new_lookup demo_tokens False = Some p \<and> indexed_tokens p = 6"
  using prompt_index_exact[OF lookup_reachable.Start demo_extends] by (auto simp: Let_def source_tokens_def)

theorem proposed_copy_is_real_witness:
  "\<exists>p r. lookup_reachable demo_tokens p \<and> find_copy p demo_tokens [] 3 (\<lambda>_. True) False = Some r"
proof -
  obtain p where p: "lookup_reachable demo_tokens p" by (rule demo_indexed)
  from proposed_copy_is_real[OF p _ _ demo_tokens_ok, of 3 "\<lambda>_. True" False] p show ?thesis by auto
qed

theorem proposed_copy_is_longest_witness:
  "\<exists>p r. lookup_reachable demo_tokens p \<and> find_copy p demo_tokens [] 3 (\<lambda>_. True) False = Some r \<and> 3 \<le> mt_length r"
proof -
  obtain p where p: "lookup_reachable demo_tokens p" "pl_request_start p = k_no_resume" "indexed_tokens p = 6"
    by (rule demo_indexed)
  note e = demo_examined[OF p(2,3)]
  obtain r where r: "find_copy p demo_tokens [] 3 (\<lambda>_. True) False = Some r"
    using find_copy_fold[OF p(1) _ _ demo_tokens_ok, of False 3 "\<lambda>_. True"] e(1) by auto
  have "3 \<le> mt_length r"
    by (rule proposed_copy_is_longest[OF p(1) _ _ demo_tokens_ok r _ e(2,3)]) (simp_all add: e(1) allowed_def)
  with p(1) r show ?thesis by blast
qed

end
