(* ===== verification/Chunked.thy ===== *)
theory Chunked
  imports Gufo_Prelude
begin

text \<open>
  The contract of the streaming text filters: a model's output arrives in pieces cut anywhere, and a
  filter must not care. \<open>feed\<close> hands a filter one piece after the other; the locale \<open>chunked\<close> says
  that one push of joined pieces is the same as two pushes, and concludes that only the joined text
  matters.
\<close>

type_synonym ('s, 'a, 'b) transducer = "'s \<Rightarrow> 'a list \<Rightarrow> 'b list \<times> 's"

fun feed :: "('s, 'a, 'b) transducer \<Rightarrow> 's \<Rightarrow> 'a list list \<Rightarrow> 'b list \<times> 's" where
  "feed push s [] = ([], s)"
| "feed push s (piece # pieces) =
     (let (out, s1) = push s piece; (rest, s2) = feed push s1 pieces in (out @ rest, s2))"

definition join_push :: "('s, 'a, 'b) transducer \<Rightarrow> 's \<Rightarrow> 'a list \<Rightarrow> 'a list \<Rightarrow> 'b list \<times> 's" where
  "join_push push s a b = (let (out, s1) = push s a; (rest, s2) = push s1 b in (out @ rest, s2))"

locale chunked =
  fixes ok :: "'s \<Rightarrow> bool"
    and push :: "('s, 'a, 'b) transducer"
  assumes push_ok: "ok s \<Longrightarrow> ok (snd (push s a))"
    and push_empty: "ok s \<Longrightarrow> push s [] = ([], s)"
    and push_append: "ok s \<Longrightarrow> push s (a @ b) = join_push push s a b"
begin

lemma feed_concat: "ok s \<Longrightarrow> feed push s pieces = push s (concat pieces)"
proof (induction pieces arbitrary: s)
  case Nil
  then show ?case by (simp add: push_empty)
next
  case (Cons piece pieces)
  obtain out s1 where p: "push s piece = (out, s1)" by (cases "push s piece") auto
  then have "ok s1" using push_ok[OF Cons.prems, of piece] by simp
  from Cons.IH[OF this] p Cons.prems show ?case by (simp add: push_append join_push_def)
qed

lemma feed_same:
  "ok s \<Longrightarrow> concat pieces = concat pieces' \<Longrightarrow> feed push s pieces = feed push s pieces'"
  by (simp add: feed_concat)

lemma feed_ok: "ok s \<Longrightarrow> ok (snd (feed push s pieces))"
  by (simp add: feed_concat push_ok)

end

end
