(* ===== verification/Utf8_Decoder.thy ===== *)
theory Utf8_Decoder
  imports Chunked
begin

text \<open>
  \<open>core::Utf8Decoder\<close> (\<open>src/core/utf8.hpp\<close>): completes UTF-8 sequences cut between pieces and
  replaces malformed ones by U+FFFD. The state is the pending bytes. The loop's body is \<open>decode_one\<close>
  on the bytes from \<open>offset\<close> on: how many bytes it consumes and what it appends, \<open>None\<close> when it
  leaves the loop. The third result lists the calls of \<open>observe\<close>.
\<close>

section \<open>The decoder\<close>

definition sequence_length :: "u8 \<Rightarrow> nat" where
  "sequence_length lead =
     (if 0xC2 \<le> lead \<and> lead \<le> 0xDF then 2
      else if 0xE0 \<le> lead \<and> lead \<le> 0xEF then 3
      else if 0xF0 \<le> lead \<and> lead \<le> 0xF4 then 4 else 0)"

definition bad_byte :: "u8 \<Rightarrow> nat \<Rightarrow> u8 \<Rightarrow> bool" where
  "bad_byte lead prefix byte \<longleftrightarrow>
     byte < 0x80 \<or> byte > 0xBF \<or>
     (prefix = 1 \<and> ((lead = 0xE0 \<and> byte < 0xA0) \<or> (lead = 0xED \<and> byte > 0x9F) \<or>
                    (lead = 0xF0 \<and> byte < 0x90) \<or> (lead = 0xF4 \<and> byte > 0x8F)))"

text \<open>The inner loop, on the bytes from \<open>offset + prefix\<close> on.\<close>

fun scan_prefix :: "u8 \<Rightarrow> nat \<Rightarrow> nat \<Rightarrow> u8 list \<Rightarrow> nat" where
  "scan_prefix lead len prefix [] = prefix"
| "scan_prefix lead len prefix (byte # rest) =
     (if prefix < len \<and> \<not> bad_byte lead prefix byte then scan_prefix lead len (prefix + 1) rest else prefix)"

definition replacement :: "u8 list" where
  "replacement = [0xEF, 0xBF, 0xBD]"

fun decode_one :: "bool \<Rightarrow> u8 list \<Rightarrow> (nat \<times> u8 list) option" where
  "decode_one final [] = None"
| "decode_one final (lead # rest) =
     (if lead < 0x80 then Some (1, [lead])
      else if sequence_length lead = 0 then Some (1, replacement)
      else let prefix = scan_prefix lead (sequence_length lead) 1 rest
           in if prefix = sequence_length lead then Some (prefix, take prefix (lead # rest))
              else if prefix = length (lead # rest) \<and> \<not> final then None
              else Some (prefix, replacement))"

lemma scan_prefix_ge: "prefix \<le> scan_prefix lead len prefix bytes"
  by (induction bytes arbitrary: prefix) (auto simp: Suc_leD)

lemma decode_one_consumes: "decode_one final bytes = Some (n, out) \<Longrightarrow> 0 < n \<and> bytes \<noteq> []"
  using scan_prefix_ge[of 1]
  by (cases bytes) (auto simp: Let_def Suc_le_eq split: if_splits)

function decode_loop :: "bool \<Rightarrow> u8 list \<Rightarrow> u8 list \<times> u8 list \<times> (nat \<times> nat) list" where
  "decode_loop final bytes =
     (case decode_one final bytes of
        None \<Rightarrow> ([], bytes, [])
      | Some (n, out) \<Rightarrow>
          (let (output, pending, observed) = decode_loop final (drop n bytes)
           in (out @ output, pending, (n, length out) # observed)))"
  by pat_completeness auto
termination
  by (relation "measure (length \<circ> snd)") (auto dest!: decode_one_consumes)

declare decode_loop.simps [simp del]

definition push_utf8 :: "bool \<Rightarrow> u8 list \<Rightarrow> u8 list \<Rightarrow> u8 list \<times> u8 list" where
  "push_utf8 final pending bytes = (let (output, rest, _) = decode_loop final (pending @ bytes) in (output, rest))"

definition observed_utf8 :: "bool \<Rightarrow> u8 list \<Rightarrow> u8 list \<Rightarrow> (nat \<times> nat) list" where
  "observed_utf8 final pending bytes = snd (snd (decode_loop final (pending @ bytes)))"

text \<open>\<open>ValidUtf8\<close> of \<open>src/cli/serve/websocket.cpp\<close>.\<close>

definition valid_utf8 :: "u8 list \<Rightarrow> bool" where
  "valid_utf8 text \<longleftrightarrow> fst (push_utf8 True [] text) = text"

section \<open>Well-formed UTF-8\<close>

text \<open>Table 3-7 of the Unicode standard.\<close>

definition tail_byte :: "u8 \<Rightarrow> bool" where
  "tail_byte b \<longleftrightarrow> 0x80 \<le> b \<and> b \<le> 0xBF"

fun scalar :: "u8 list \<Rightarrow> bool" where
  "scalar [a] \<longleftrightarrow> a \<le> 0x7F"
| "scalar [a, b] \<longleftrightarrow> 0xC2 \<le> a \<and> a \<le> 0xDF \<and> tail_byte b"
| "scalar [a, b, c] \<longleftrightarrow>
     tail_byte c \<and> (a = 0xE0 \<and> 0xA0 \<le> b \<and> b \<le> 0xBF \<or> 0xE1 \<le> a \<and> a \<le> 0xEC \<and> tail_byte b \<or>
                     a = 0xED \<and> 0x80 \<le> b \<and> b \<le> 0x9F \<or> 0xEE \<le> a \<and> a \<le> 0xEF \<and> tail_byte b)"
| "scalar [a, b, c, d] \<longleftrightarrow>
     tail_byte c \<and> tail_byte d \<and>
     (a = 0xF0 \<and> 0x90 \<le> b \<and> b \<le> 0xBF \<or> 0xF1 \<le> a \<and> a \<le> 0xF3 \<and> tail_byte b \<or>
      a = 0xF4 \<and> 0x80 \<le> b \<and> b \<le> 0x8F)"
| "scalar _ \<longleftrightarrow> False"

inductive well_formed :: "u8 list \<Rightarrow> bool" where
  Empty: "well_formed []"
| Scalar: "scalar c \<Longrightarrow> well_formed text \<Longrightarrow> well_formed (c @ text)"

lemma well_formed_append: "well_formed a \<Longrightarrow> well_formed b \<Longrightarrow> well_formed (a @ b)"
  by (induction rule: well_formed.induct) (auto intro: well_formed.Scalar)

section \<open>Chunk independence\<close>

lemma scan_prefix_append:
  assumes "scan_prefix lead len prefix a < prefix + length a \<or> scan_prefix lead len prefix a = len" "prefix \<le> len"
  shows "scan_prefix lead len prefix (a @ b) = scan_prefix lead len prefix a"
  using assms
proof (induction a arbitrary: prefix)
  case Nil
  then show ?case by (cases b) auto
next
  case (Cons x a)
  then show ?case by (auto simp: Suc_le_eq)
qed

lemma scan_prefix_le:
  "scan_prefix lead len prefix a \<le> prefix + length a" "prefix \<le> len \<Longrightarrow> scan_prefix lead len prefix a \<le> len"
proof -
  show "scan_prefix lead len prefix a \<le> prefix + length a"
  proof (induction a arbitrary: prefix)
    case (Cons x a)
    from Cons[of "prefix + 1"] show ?case by auto
  qed simp
  show "prefix \<le> len \<Longrightarrow> scan_prefix lead len prefix a \<le> len"
    by (induction a arbitrary: prefix) auto
qed

lemma decode_one_append:
  assumes "decode_one False a = Some (n, out)"
  shows "decode_one final (a @ b) = Some (n, out) \<and> n \<le> length a"
proof -
  obtain lead rest where a: "a = lead # rest" using decode_one_consumes[OF assms] by (cases a) auto
  show ?thesis
  proof (cases "lead < 0x80 \<or> sequence_length lead = 0")
    case True
    then show ?thesis using assms a by auto
  next
    case False
    let ?len = "sequence_length lead"
    let ?p = "scan_prefix lead ?len 1 rest"
    have le: "1 \<le> ?len" using False by simp
    note bounds = scan_prefix_le(1)[of lead ?len 1 rest]
    have "?p < 1 + length rest \<or> ?p = ?len"
      using assms a False bounds by (auto simp: Let_def split: if_splits)
    note same = scan_prefix_append[OF this le, of b]
    have t: "take ?len (lead # rest @ b) = take ?len (lead # rest)" if "?len \<le> Suc (length rest)"
      using take_append[of ?len "lead # rest" b] that by simp
    from same show ?thesis
      using assms a False bounds t by (auto simp: Let_def split: if_splits)
  qed
qed

lemma decode_loop_append:
  "decode_loop final (a @ b) =
     (let (o1, p1, v1) = decode_loop False a; (o2, p2, v2) = decode_loop final (p1 @ b) in (o1 @ o2, p2, v1 @ v2))"
proof (induction False a rule: decode_loop.induct)
  case (1 a)
  show ?case
  proof (cases "decode_one False a")
    case None
    then show ?thesis by (simp add: decode_loop.simps[of False a] split: prod.splits)
  next
    case (Some no)
    obtain n out where no: "no = (n, out)" by (cases no) auto
    note one = decode_one_append[OF Some[unfolded no], of final b]
    obtain o1 p1 v1 where l: "decode_loop False (drop n a) = (o1, p1, v1)" by (cases "decode_loop False (drop n a)") auto
    have "drop n (a @ b) = drop n a @ b" using one by simp
    with 1[OF Some no[symmetric]] l one Some no show ?thesis
      by (simp add: decode_loop.simps[of False a] decode_loop.simps[of final "a @ b"] split: prod.splits)
  qed
qed

definition waiting :: "u8 list \<Rightarrow> bool" where
  "waiting pending \<longleftrightarrow> decode_one False pending = None"

lemma decode_loop_pending:
  "decode_one final (fst (snd (decode_loop final bytes))) = None"
proof (induction final bytes rule: decode_loop.induct)
  case (1 final bytes)
  show ?case
  proof (cases "decode_one final bytes")
    case None
    then show ?thesis by (simp add: decode_loop.simps[of final bytes])
  next
    case (Some p)
    obtain n out where "p = (n, out)" by (cases p) auto
    with 1[OF Some] Some show ?thesis
      by (auto simp: decode_loop.simps[of final bytes] split: prod.splits)
  qed
qed

lemma push_utf8_append:
  "push_utf8 final pending (a @ b) = (let (out, p) = push_utf8 False pending a; (rest, q) = push_utf8 final p b in (out @ rest, q))"
  unfolding push_utf8_def append_assoc[symmetric]
  by (subst decode_loop_append) (simp split: prod.splits)

interpretation u8d: chunked waiting "push_utf8 False"
proof
  show "waiting (snd (push_utf8 False s a))" if "waiting s" for s a
    using decode_loop_pending[of False "s @ a"] by (auto simp: waiting_def push_utf8_def split: prod.splits)
  show "push_utf8 False s [] = ([], s)" if "waiting s" for s
    using that by (simp add: waiting_def push_utf8_def decode_loop.simps[of False s])
  show "push_utf8 False s (a @ b) = join_push (push_utf8 False) s a b" if "waiting s" for s a b
    unfolding join_push_def by (rule push_utf8_append)
qed

section \<open>Well-formed output\<close>

lemmas word_cmp = word_le_nat_alt word_less_nat_alt word_unat_eq_iff

lemma scan_done:
  assumes "scan_prefix lead (Suc n) (Suc p) bytes = Suc n" "p < n"
  obtains b rest where "bytes = b # rest" "\<not> bad_byte lead (Suc p) b" "scan_prefix lead (Suc n) (Suc (Suc p)) rest = Suc n"
  using assms by (cases bytes) (auto split: if_splits)

lemma good_byte_tail: "\<not> bad_byte lead prefix b \<Longrightarrow> tail_byte b"
  by (simp add: bad_byte_def tail_byte_def not_less)

lemma scan_scalar:
  assumes "\<not> lead < 0x80" "sequence_length lead \<noteq> 0"
    and "scan_prefix lead (sequence_length lead) 1 rest = sequence_length lead"
  shows "scalar (take (sequence_length lead) (lead # rest))"
proof -
  consider (2) "sequence_length lead = Suc (Suc 0)" "0xC2 \<le> lead" "lead \<le> 0xDF"
    | (3) "sequence_length lead = Suc (Suc (Suc 0))" "0xE0 \<le> lead" "lead \<le> 0xEF"
    | (4) "sequence_length lead = Suc (Suc (Suc (Suc 0)))" "0xF0 \<le> lead" "lead \<le> 0xF4"
    using assms(2) by (auto simp: sequence_length_def split: if_splits)
  then show ?thesis
  proof cases
    case 2
    then have "scan_prefix lead (Suc 1) (Suc 0) rest = Suc 1" using assms(3) by simp
    then obtain b r where "rest = b # r" "\<not> bad_byte lead (Suc 0) b" by (rule scan_done) simp
    with 2 good_byte_tail[of lead "Suc 0" b] show ?thesis by simp
  next
    case 3
    then have "scan_prefix lead (Suc 2) (Suc 0) rest = Suc 2" using assms(3) by (simp add: numeral_2_eq_2)
    then obtain b r where b: "rest = b # r" "\<not> bad_byte lead (Suc 0) b" "scan_prefix lead (Suc 2) (Suc (Suc 0)) r = Suc 2"
      by (rule scan_done) simp
    from b(3) obtain c s where c: "r = c # s" "\<not> bad_byte lead (Suc (Suc 0)) c"
      by (rule scan_done) simp
    from good_byte_tail[OF c(2)] good_byte_tail[OF b(2)] b c 3 show ?thesis
      by (auto simp: bad_byte_def tail_byte_def word_cmp)
  next
    case 4
    then have "scan_prefix lead (Suc 3) (Suc 0) rest = Suc 3" using assms(3) by (simp add: numeral_3_eq_3)
    then obtain b r where b: "rest = b # r" "\<not> bad_byte lead (Suc 0) b" "scan_prefix lead (Suc 3) (Suc (Suc 0)) r = Suc 3"
      by (rule scan_done) simp
    from b(3) obtain c s where c: "r = c # s" "\<not> bad_byte lead (Suc (Suc 0)) c"
      "scan_prefix lead (Suc 3) (Suc (Suc (Suc 0))) s = Suc 3"
      by (rule scan_done) simp
    from c(3) obtain d t where d: "s = d # t" "\<not> bad_byte lead (Suc (Suc (Suc 0))) d"
      by (rule scan_done) simp
    from good_byte_tail[OF c(2)] good_byte_tail[OF b(2)] good_byte_tail[OF d(2)] b c d 4 show ?thesis
      by (auto simp: bad_byte_def tail_byte_def word_cmp)
  qed
qed

lemma decode_one_scalar: "decode_one final bytes = Some (n, out) \<Longrightarrow> scalar out"
proof (cases bytes)
  case (Cons lead rest)
  assume one: "decode_one final bytes = Some (n, out)"
  have "scalar replacement" by (simp add: replacement_def tail_byte_def)
  moreover have "scalar [lead]" if "lead < 0x80" using that by (simp add: word_cmp)
  ultimately show ?thesis
    using one Cons scan_scalar[of lead rest] by (auto simp: Let_def split: if_splits)
qed simp

lemma decode_loop_well_formed: "well_formed (fst (decode_loop final bytes))"
proof (induction final bytes rule: decode_loop.induct)
  case (1 final bytes)
  show ?case
  proof (cases "decode_one final bytes")
    case None
    then show ?thesis by (simp add: decode_loop.simps[of final bytes] well_formed.Empty)
  next
    case (Some p)
    obtain n out where p: "p = (n, out)" by (cases p) auto
    with 1[OF Some] Some decode_one_scalar[of final bytes n out] show ?thesis
      by (auto simp: decode_loop.simps[of final bytes] intro: well_formed.Scalar split: prod.splits)
  qed
qed

section \<open>Well-formed input\<close>

lemma scan_prefix_full: "len = prefix \<Longrightarrow> scan_prefix lead len prefix bytes = len"
  by (cases bytes) auto

lemma decode_one_of_scalar:
  assumes "scalar c" shows "decode_one final (c @ bytes) = Some (length c, c)"
  using assms
proof (cases c rule: scalar.cases)
  case (1 a)
  then show ?thesis using assms by (simp add: word_cmp)
next
  case (2 a b)
  then show ?thesis using assms
    by (simp add: sequence_length_def bad_byte_def tail_byte_def word_cmp Let_def scan_prefix_full)
next
  case (3 a b c)
  have "\<not> a < 0x80" "sequence_length a = 3" "\<not> bad_byte a 1 b" "\<not> bad_byte a 2 c"
    using assms 3 by (auto simp: sequence_length_def bad_byte_def tail_byte_def word_cmp)
  then show ?thesis using 3 by (simp add: Let_def scan_prefix_full numeral_2_eq_2)
next
  case (4 a b c d)
  have "\<not> a < 0x80" "sequence_length a = 4" "\<not> bad_byte a 1 b" "\<not> bad_byte a 2 c" "\<not> bad_byte a 3 d"
    using assms 4 by (auto simp: sequence_length_def bad_byte_def tail_byte_def word_cmp)
  then show ?thesis using 4 by (simp add: Let_def scan_prefix_full numeral_2_eq_2 numeral_3_eq_3)
qed simp_all

lemma decode_loop_of_well_formed:
  "well_formed bytes \<Longrightarrow> fst (decode_loop final bytes) = bytes \<and> fst (snd (decode_loop final bytes)) = []"
proof (induction rule: well_formed.induct)
  case Empty
  then show ?case by (simp add: decode_loop.simps)
next
  case (Scalar c bytes)
  then show ?case
    using decode_one_of_scalar[OF Scalar(1), of final bytes]
    by (auto simp: decode_loop.simps[of final "c @ bytes"] split: prod.splits)
qed

section \<open>Provenance\<close>

lemma decode_one_bound: "decode_one final bytes = Some (n, out) \<Longrightarrow> n \<le> length bytes"
  using scan_prefix_le(1)[of "hd bytes" "sequence_length (hd bytes)" 1 "tl bytes"]
  by (cases bytes) (auto simp: Let_def split: if_splits)

lemma decode_loop_counts:
  "sum_list (map fst (snd (snd (decode_loop final bytes)))) + length (fst (snd (decode_loop final bytes))) = length bytes \<and>
   sum_list (map snd (snd (snd (decode_loop final bytes)))) = length (fst (decode_loop final bytes))"
proof (induction final bytes rule: decode_loop.induct)
  case (1 final bytes)
  show ?case
  proof (cases "decode_one final bytes")
    case None
    then show ?thesis by (simp add: decode_loop.simps[of final bytes])
  next
    case (Some p)
    obtain n out where p: "p = (n, out)" by (cases p) auto
    obtain o1 p1 v1 where l: "decode_loop final (drop n bytes) = (o1, p1, v1)"
      by (cases "decode_loop final (drop n bytes)") auto
    have "n \<le> length bytes" using Some p by (auto intro: decode_one_bound)
    with 1[OF Some p[symmetric]] Some p l show ?thesis
      by (auto simp: decode_loop.simps[of final bytes])
  qed
qed

lemma waiting_short:
  assumes "decode_one final bytes = None" shows "length bytes \<le> 3" "final \<Longrightarrow> bytes = []"
proof -
  have "length bytes \<le> 3 \<and> (final \<longrightarrow> bytes = [])"
  proof (cases bytes)
    case (Cons lead rest)
    have w: "sequence_length lead \<le> 4" by (simp add: sequence_length_def)
    have "1 \<le> sequence_length lead \<Longrightarrow> scan_prefix lead (sequence_length lead) 1 rest \<le> sequence_length lead"
      by (rule scan_prefix_le(2))
    with w assms Cons show ?thesis by (auto simp: Let_def split: if_splits)
  qed simp
  then show "length bytes \<le> 3" "final \<Longrightarrow> bytes = []" by simp_all
qed

section \<open>Properties\<close>

lemma valid_utf8_iff: "valid_utf8 bytes \<longleftrightarrow> well_formed bytes"
  using decode_loop_well_formed[of True bytes] decode_loop_of_well_formed[of bytes True]
  by (auto simp: valid_utf8_def push_utf8_def split: prod.splits)

text \<open>C19. However the token pieces cut the byte stream, feeding them one by one produces the text and
  the pending bytes of the joined stream, and a final piece flushes to the text of everything.\<close>

theorem utf8_cut_independent:
  "feed (push_utf8 False) [] pieces = push_utf8 False [] (concat pieces) \<and>
   fst (feed (push_utf8 False) [] pieces) @ fst (push_utf8 True (snd (feed (push_utf8 False) [] pieces)) ending) =
     fst (push_utf8 True [] (concat pieces @ ending))"
proof -
  have "waiting []" by (simp add: waiting_def)
  from u8d.feed_concat[OF this] show ?thesis
    by (simp add: push_utf8_append[of True "[]" "concat pieces" ending] split: prod.splits)
qed

text \<open>C20. Whatever bytes a model produces, the decoder's output is well-formed UTF-8 by the Unicode
  standard's table, at most three bytes wait for the next piece, and none after the final one.\<close>

theorem utf8_output_well_formed:
  "well_formed (fst (push_utf8 final pending bytes)) \<and> length (snd (push_utf8 final pending bytes)) \<le> 3 \<and>
   (final \<longrightarrow> snd (push_utf8 final pending bytes) = [])"
  using decode_loop_well_formed[of final "pending @ bytes"]
    waiting_short[OF decode_loop_pending[of final "pending @ bytes"]]
  by (auto simp: push_utf8_def split: prod.splits)

theorem utf8_output_well_formed_witness:
  "snd (push_utf8 True [0xE2] [0x82]) = []"
  using utf8_output_well_formed[of True "[0xE2]" "[0x82]"] by simp

text \<open>C21. \<open>ValidUtf8\<close> decides well-formedness: the decoder leaves a text unchanged exactly when it is
  well-formed UTF-8.\<close>

theorem valid_utf8_decides: "valid_utf8 bytes \<longleftrightarrow> well_formed bytes"
  by (rule valid_utf8_iff)

text \<open>The observer's reports account for every byte: the consumed counts add up to the bytes taken in
  less those still pending, the produced counts to the output.\<close>

theorem utf8_observations_exact:
  "sum_list (map fst (observed_utf8 final pending bytes)) + length (snd (push_utf8 final pending bytes)) =
     length pending + length bytes \<and>
   sum_list (map snd (observed_utf8 final pending bytes)) = length (fst (push_utf8 final pending bytes))"
  using decode_loop_counts[of final "pending @ bytes"]
  by (auto simp: push_utf8_def observed_utf8_def split: prod.splits)

end
