(* ===== verification/Stop_Filter.thy ===== *)
theory Stop_Filter
  imports Chunked
begin

text \<open>
  \<open>StopSequenceFilter\<close> (\<open>src/cli/serve/stop_sequences.hpp\<close>): withholds only what may become a stop
  sequence and ends the text before the first one that completes. \<open>std::string::npos\<close> in the
  search's results is \<open>None\<close>.
\<close>

section \<open>Validation\<close>

definition k_max_stop_sequences :: nat where "k_max_stop_sequences = 64"
definition k_max_stop_sequence_bytes :: nat where "k_max_stop_sequence_bytes = 4096"
definition k_max_stop_total_bytes :: nat where "k_max_stop_total_bytes = 16384"

datatype stop_error = TooManySequences nat | BadSequenceSize | TotalTooLarge

fun validate_loop :: "string list \<Rightarrow> nat \<Rightarrow> stop_error option" where
  "validate_loop [] bytes = None"
| "validate_loop (s # rest) bytes =
     (if s = [] \<or> length s > k_max_stop_sequence_bytes then Some BadSequenceSize
      else if bytes + length s > k_max_stop_total_bytes then Some TotalTooLarge
      else validate_loop rest (bytes + length s))"

definition validate_stop_sequences :: "string list \<Rightarrow> nat \<Rightarrow> stop_error option" where
  "validate_stop_sequences sequences max_count =
     (if length sequences > max_count then Some (TooManySequences max_count)
      else validate_loop sequences 0)"

section \<open>The filter\<close>

record stop_filter =
  sf_sequences :: "string list"
  sf_pending :: string
  sf_match :: "nat option"

definition new_stop_filter :: "string list \<Rightarrow> stop_error + stop_filter" where
  "new_stop_filter sequences =
     (case validate_stop_sequences sequences k_max_stop_sequences of
        Some e \<Rightarrow> Inl e
      | None \<Rightarrow> Inr \<lparr>sf_sequences = sequences, sf_pending = [], sf_match = None\<rparr>)"

definition stop_enabled :: "stop_filter \<Rightarrow> bool" where "stop_enabled f \<longleftrightarrow> sf_sequences f \<noteq> []"
definition stopped :: "stop_filter \<Rightarrow> bool" where "stopped f \<longleftrightarrow> sf_match f \<noteq> None"

text \<open>\<open>sequences_.at(match_.value())\<close>: both accessors throw when there is nothing.\<close>

definition matched_sequence :: "stop_filter \<Rightarrow> string option" where
  "matched_sequence f =
     (case sf_match f of
        None \<Rightarrow> None
      | Some i \<Rightarrow> if i < length (sf_sequences f) then Some (sf_sequences f ! i) else None)"

text \<open>\<open>std::string::find\<close>.\<close>

fun find_first :: "string \<Rightarrow> string \<Rightarrow> nat option" where
  "find_first hay needle =
     (if take (length needle) hay = needle then Some 0
      else case hay of [] \<Rightarrow> None | _ # rest \<Rightarrow> map_option Suc (find_first rest needle))"

declare find_first.simps [simp del]

type_synonym stop_match = "nat \<times> nat \<times> nat"

text \<open>The search loop; a match is its end, its start and the index of its sequence.\<close>

fun best_loop :: "string \<Rightarrow> nat \<Rightarrow> string list \<Rightarrow> stop_match option \<Rightarrow> stop_match option" where
  "best_loop pending i [] best = best"
| "best_loop pending i (s # rest) best =
     best_loop pending (i + 1) rest
       (case find_first pending s of
          None \<Rightarrow> best
        | Some position \<Rightarrow>
            (case best of
               None \<Rightarrow> Some (position + length s, position, i)
             | Some (e, start, j) \<Rightarrow>
                 if position + length s < e \<or> (position + length s = e \<and> position < start)
                 then Some (position + length s, position, i) else best))"

definition ends_with :: "string \<Rightarrow> string \<Rightarrow> bool" where
  "ends_with t s \<longleftrightarrow> length s \<le> length t \<and> drop (length t - length s) t = s"

text \<open>The downward loop over the lengths of one sequence's prefixes.\<close>

fun keep_one :: "string \<Rightarrow> string \<Rightarrow> nat \<Rightarrow> nat \<Rightarrow> nat" where
  "keep_one pending s keep 0 = keep"
| "keep_one pending s keep (Suc n) =
     (if Suc n > keep then (if ends_with pending (take (Suc n) s) then Suc n else keep_one pending s keep n)
      else keep)"

fun keep_loop :: "string \<Rightarrow> string list \<Rightarrow> nat \<Rightarrow> nat" where
  "keep_loop pending [] keep = keep"
| "keep_loop pending (s # rest) keep =
     keep_loop pending rest (keep_one pending s keep (min (length pending) (length s - 1)))"

definition push_stop :: "stop_filter \<Rightarrow> string \<Rightarrow> string \<times> stop_filter" where
  "push_stop f piece =
     (if stopped f then ([], f)
      else
        (let pending = sf_pending f @ piece
         in case best_loop pending 0 (sf_sequences f) None of
              Some (e, start, i) \<Rightarrow> (take start pending, f\<lparr>sf_pending := [], sf_match := Some i\<rparr>)
            | None \<Rightarrow>
                (let safe = length pending - keep_loop pending (sf_sequences f) 0
                 in (take safe pending, f\<lparr>sf_pending := drop safe pending\<rparr>))))"

definition finish_stop :: "stop_filter \<Rightarrow> string \<times> stop_filter" where
  "finish_stop f = (sf_pending f, f\<lparr>sf_pending := []\<rparr>)"

section \<open>The search\<close>

definition occurs :: "string \<Rightarrow> string \<Rightarrow> nat \<Rightarrow> bool" where
  "occurs t s p \<longleftrightarrow> p + length s \<le> length t \<and> take (length s) (drop p t) = s"

lemma find_first_Some:
  "find_first t s = Some p \<longleftrightarrow> occurs t s p \<and> (\<forall>q<p. \<not> occurs t s q)"
proof (induction t s arbitrary: p rule: find_first.induct)
  case (1 t s)
  show ?case
  proof (cases "take (length s) t = s")
    case True
    then have "occurs t s 0" by (metis add_0 drop0 length_take min.cobounded1 occurs_def)
    then show ?thesis using True by (subst find_first.simps) auto
  next
    case False
    then have no: "\<not> occurs t s 0" by (simp add: occurs_def)
    show ?thesis
    proof (cases t)
      case Nil
      then show ?thesis using False no by (subst find_first.simps) (auto simp: occurs_def)
    next
      case (Cons c r)
      have shift: "occurs t s (Suc q) \<longleftrightarrow> occurs r s q" for q by (simp add: Cons occurs_def)
      have "find_first t s = map_option Suc (find_first r s)"
        using False by (subst find_first.simps) (simp add: Cons)
      then have step: "find_first t s = Some p \<longleftrightarrow> (\<exists>q. p = Suc q \<and> find_first r s = Some q)" by auto
      show ?thesis
      proof (cases p)
        case 0
        with step no show ?thesis by simp
      next
        case (Suc q)
        have "(\<forall>n<Suc q. \<not> occurs t s n) \<longleftrightarrow> (\<forall>n<q. \<not> occurs r s n)"
          using no shift by (metis less_Suc_eq_0_disj)
        with step Suc 1[OF False Cons] shift show ?thesis by simp
      qed
    qed
  qed
qed

lemma find_first_None: "find_first t s = None \<longleftrightarrow> (\<forall>p. \<not> occurs t s p)"
proof
  show "\<forall>p. \<not> occurs t s p" if "find_first t s = None"
  proof (rule ccontr)
    assume "\<not> (\<forall>p. \<not> occurs t s p)"
    then obtain p where "occurs t s p" "\<forall>q<p. \<not> occurs t s q" using exists_least_iff[of "occurs t s"] by blast
    then have "find_first t s = Some p" by (simp add: find_first_Some)
    with that show False by simp
  qed
  show "find_first t s = None" if "\<forall>p. \<not> occurs t s p"
    using that find_first_Some[of t s] by (cases "find_first t s") auto
qed

text \<open>All matches, and the order in which the filter prefers them.\<close>

definition is_match :: "string list \<Rightarrow> string \<Rightarrow> stop_match \<Rightarrow> bool" where
  "is_match seqs t m \<longleftrightarrow>
     (case m of (e, p, i) \<Rightarrow> i < length seqs \<and> occurs t (seqs ! i) p \<and> e = p + length (seqs ! i))"

definition before :: "stop_match \<Rightarrow> stop_match \<Rightarrow> bool" where
  "before m n \<longleftrightarrow> (case (m, n) of ((e, p, i), (e', p', i')) \<Rightarrow>
     e < e' \<or> (e = e' \<and> (p < p' \<or> (p = p' \<and> i \<le> i'))))"

definition is_best :: "string list \<Rightarrow> string \<Rightarrow> stop_match \<Rightarrow> bool" where
  "is_best seqs t m \<longleftrightarrow> is_match seqs t m \<and> (\<forall>n. is_match seqs t n \<longrightarrow> before m n)"

lemma is_best_unique: "is_best seqs t m \<Longrightarrow> is_best seqs t n \<Longrightarrow> m = n"
  by (cases m, cases n) (fastforce simp: is_best_def before_def)

text \<open>The loop after the sequences \<open>done\<close>.\<close>

definition best_so_far :: "string list \<Rightarrow> string \<Rightarrow> stop_match option \<Rightarrow> bool" where
  "best_so_far seqs t best \<longleftrightarrow>
     (case best of None \<Rightarrow> (\<forall>m. \<not> is_match seqs t m) | Some m \<Rightarrow> is_best seqs t m)"

lemma is_match_snoc:
  "is_match (xs @ [s]) t m \<longleftrightarrow>
     is_match xs t m \<or> (\<exists>p. m = (p + length s, p, length xs) \<and> occurs t s p)"
  by (cases m) (auto simp: is_match_def nth_append less_Suc_eq split: if_splits)

lemma best_so_far_snoc:
  assumes "best_so_far xs t best"
  shows "best_so_far (xs @ [s]) t
    (case find_first t s of
       None \<Rightarrow> best
     | Some position \<Rightarrow>
         (case best of
            None \<Rightarrow> Some (position + length s, position, length xs)
          | Some (e, start, j) \<Rightarrow>
              if position + length s < e \<or> (position + length s = e \<and> position < start)
              then Some (position + length s, position, length xs) else best))"
proof (cases "find_first t s")
  case None
  then have "is_match (xs @ [s]) t m \<longleftrightarrow> is_match xs t m" for m
    by (auto simp: is_match_snoc find_first_None)
  then have "is_best (xs @ [s]) t m \<longleftrightarrow> is_best xs t m" for m by (simp add: is_best_def)
  with None assms \<open>\<And>m. is_match (xs @ [s]) t m \<longleftrightarrow> is_match xs t m\<close> show ?thesis
    by (cases best) (simp_all add: best_so_far_def)
next
  case (Some p)
  then have p: "occurs t s p" "\<And>q. occurs t s q \<Longrightarrow> p \<le> q"
    by (auto simp: find_first_Some) (meson linorder_not_le)
  let ?n = "(p + length s, p, length xs)"
  have n: "is_match (xs @ [s]) t ?n" using p(1) by (auto simp: is_match_snoc)
  have all: "is_match (xs @ [s]) t m \<Longrightarrow> is_match xs t m \<or> before ?n m" for m
    using p(2) by (fastforce simp: is_match_snoc before_def)
  show ?thesis
  proof (cases best)
    case None
    then have "is_best (xs @ [s]) t ?n" using assms n all by (auto simp: best_so_far_def is_best_def)
    with None Some show ?thesis by (simp add: best_so_far_def)
  next
    case best: (Some m)
    obtain e q j where m: "m = (e, q, j)" by (cases m) auto
    have b: "is_best xs t m" using assms best by (simp add: best_so_far_def)
    then have j: "j < length xs" by (simp add: is_best_def is_match_def m)
    show ?thesis
    proof (cases "p + length s < e \<or> (p + length s = e \<and> p < q)")
      case True
      then have "before ?n k" if "is_match xs t k" for k
        using b that by (cases k) (fastforce simp: is_best_def before_def m)
      then have "is_best (xs @ [s]) t ?n" unfolding is_best_def using n all by blast
      with True Some best m show ?thesis by (simp add: best_so_far_def)
    next
      case False
      then have "before m ?n" using j by (auto simp: before_def m)
      moreover have "before m k" if "before ?n k" for k
        using calculation that by (cases k) (fastforce simp: before_def m)
      moreover have "is_match (xs @ [s]) t m" using b by (simp add: is_best_def is_match_snoc)
      ultimately have "is_best (xs @ [s]) t m"
        using b all unfolding is_best_def by blast
      with False Some best m show ?thesis by (auto simp: best_so_far_def)
    qed
  qed
qed

lemma best_loop_ok: "best_so_far xs t best \<Longrightarrow> best_so_far (xs @ ys) t (best_loop t (length xs) ys best)"
proof (induction ys arbitrary: xs best)
  case (Cons s ys)
  from Cons.IH[OF best_so_far_snoc[OF Cons.prems, of s]] show ?case by simp
qed simp

lemma best_match:
  "best_loop t 0 seqs None = Some m \<longleftrightarrow> is_best seqs t m"
  "best_loop t 0 seqs None = None \<longleftrightarrow> (\<forall>m. \<not> is_match seqs t m)"
proof -
  have "best_so_far [] t None" by (simp add: best_so_far_def is_match_def)
  from best_loop_ok[OF this, of seqs] have b: "best_so_far seqs t (best_loop t 0 seqs None)" by simp
  show "best_loop t 0 seqs None = Some m \<longleftrightarrow> is_best seqs t m"
  proof (cases "best_loop t 0 seqs None")
    case None
    with b have "\<forall>n. \<not> is_match seqs t n" by (simp add: best_so_far_def del: split_paired_All)
    then have "\<not> is_match seqs t m" by blast
    with None show ?thesis by (auto simp: is_best_def)
  next
    case (Some n)
    with b have "is_best seqs t n" by (simp add: best_so_far_def)
    with Some is_best_unique[of seqs t n m] show ?thesis by auto
  qed
  show "best_loop t 0 seqs None = None \<longleftrightarrow> (\<forall>m. \<not> is_match seqs t m)"
    using b by (cases "best_loop t 0 seqs None") (auto simp: best_so_far_def is_best_def)
qed

section \<open>What is withheld\<close>

text \<open>A proper prefix of length \<open>l\<close> of a sequence ends the text.\<close>

definition keeps :: "string list \<Rightarrow> string \<Rightarrow> nat \<Rightarrow> bool" where
  "keeps seqs t l \<longleftrightarrow> (\<exists>s\<in>set seqs. l < length s \<and> ends_with t (take l s))"

lemma ends_with_length: "l < length s \<Longrightarrow> ends_with t (take l s) \<Longrightarrow> l \<le> length t"
  by (simp add: ends_with_def)

lemma keep_one_ok:
  "keep \<le> keep_one t s keep n \<and>
   (keep_one t s keep n = keep \<or> (keep_one t s keep n \<le> n \<and> ends_with t (take (keep_one t s keep n) s))) \<and>
   (\<forall>l\<le>n. ends_with t (take l s) \<longrightarrow> l \<le> keep_one t s keep n)"
  by (induction n) (auto simp: le_Suc_eq)

lemma keep_loop_ok:
  assumes "\<forall>s\<in>set seqs. s \<noteq> []"
  shows "keep \<le> keep_loop t seqs keep \<and> (keep_loop t seqs keep = keep \<or> keeps seqs t (keep_loop t seqs keep)) \<and>
    (\<forall>l. keeps seqs t l \<longrightarrow> l \<le> keep_loop t seqs keep)"
  using assms
proof (induction seqs arbitrary: keep)
  case (Cons s seqs)
  let ?n = "min (length t) (length s - 1)"
  let ?k = "keep_one t s keep ?n"
  note one = keep_one_ok[of keep t s ?n]
  have IH: "?k \<le> keep_loop t seqs ?k" "keep_loop t seqs ?k = ?k \<or> keeps seqs t (keep_loop t seqs ?k)"
    "\<And>l. keeps seqs t l \<Longrightarrow> l \<le> keep_loop t seqs ?k" using Cons.IH[of ?k] Cons.prems by auto
  have s: "0 < length s" using Cons.prems by simp
  have new: "keeps (s # seqs) t ?k" if "?k \<noteq> keep"
  proof -
    have "?k \<le> ?n" "ends_with t (take ?k s)" using one that by auto
    moreover from this have "?k < length s" using s by linarith
    ultimately show ?thesis by (auto simp: keeps_def)
  qed
  have mono: "keeps (s # seqs) t l" if "keeps seqs t l" for l using that by (auto simp: keeps_def)
  have upper: "l \<le> keep_loop t seqs ?k" if l: "keeps (s # seqs) t l" for l
  proof (cases "keeps seqs t l")
    case False
    with l have a: "l < length s" "ends_with t (take l s)" by (auto simp: keeps_def)
    then have "l \<le> ?n" using ends_with_length[OF a] by simp
    then have "l \<le> ?k" using one a(2) by blast
    with IH(1) show ?thesis by simp
  qed (rule IH(3))
  have eq: "keep_loop t (s # seqs) keep = keep_loop t seqs ?k" by simp
  show ?case
    unfolding eq
  proof (intro conjI allI impI)
    show "keep \<le> keep_loop t seqs ?k" using one IH(1) by linarith
    show "keep_loop t seqs ?k = keep \<or> keeps (s # seqs) t (keep_loop t seqs ?k)"
      using IH(2) new mono by metis
    show "l \<le> keep_loop t seqs ?k" if "keeps (s # seqs) t l" for l by (rule upper[OF that])
  qed
qed (simp add: keeps_def)

lemma keep_le_length:
  assumes "\<forall>s\<in>set seqs. s \<noteq> []" shows "keep_loop t seqs 0 \<le> length t"
  using keep_loop_ok[OF assms, of 0 t] ends_with_length by (auto simp: keeps_def)

section \<open>Joining pieces\<close>

lemma occurs_append: "occurs t s p \<Longrightarrow> occurs (t @ b) s p"
  by (simp add: occurs_def)

lemma occurs_within:
  "occurs (t @ b) s p \<Longrightarrow> p + length s \<le> length t \<Longrightarrow> occurs t s p"
  by (simp add: occurs_def)

text \<open>An occurrence that completes beyond \<open>t\<close> begins in what \<open>t\<close> withholds.\<close>

lemma straddles:
  assumes "occurs (t @ b) s p" "length t < p + length s" "p < length t" "s \<in> set seqs"
  shows "keeps seqs t (length t - p)"
proof -
  let ?l = "length t - p"
  have less: "?l < length s" using assms(2,3) by simp
  have "take (length s) (drop p t @ b) = s" using assms(1,3) by (simp add: occurs_def)
  then have "take ?l s = take ?l (take (length s) (drop p t @ b))" by simp
  also have "\<dots> = drop p t" using less by (simp add: min_absorb1)
  finally have "take ?l s = drop p t" .
  with less show ?thesis
    using assms(3,4) by (auto simp: keeps_def ends_with_def)
qed

lemma occurs_drop:
  assumes "n \<le> length t" shows "occurs (drop n t) s p \<longleftrightarrow> occurs t s (n + p)"
  using assms by (auto simp: occurs_def add.commute)

lemma keeps_drop:
  assumes "n + l \<le> length t" shows "keeps seqs (drop n t) l \<longleftrightarrow> keeps seqs t l"
proof -
  have "ends_with (drop n t) (take l s) \<longleftrightarrow> ends_with t (take l s)" if "l < length s" for s
    using assms that by (auto simp: ends_with_def)
  then show ?thesis by (auto simp: keeps_def)
qed

lemma keeps_append:
  assumes "keeps seqs (t @ b) l" "length b < l" shows "keeps seqs t (l - length b)"
proof -
  obtain s where s: "s \<in> set seqs" "l < length s" "ends_with (t @ b) (take l s)" using assms(1) by (auto simp: keeps_def)
  let ?n = "length t + length b - l"
  have l: "l \<le> length t + length b" using ends_with_length[OF s(2,3)] by simp
  have "drop ?n t @ b = take l s" using s(2,3) l assms(2) by (simp add: ends_with_def)
  then have "take (l - length b) (drop ?n t @ b) = take (l - length b) (take l s)" by simp
  then have tail: "drop ?n t = take (l - length b) s" using l assms(2) by simp
  have n: "?n = length t - (l - length b)" using assms(2) l by simp
  have m: "length (take (l - length b) s) = l - length b" "l - length b \<le> length t" "l - length b < length s"
    using s(2) l by simp_all
  have "ends_with t (take (l - length b) s)" unfolding ends_with_def m(1) using tail[unfolded n] m(2) by blast
  with s(1) m(3) show ?thesis unfolding keeps_def by blast
qed

lemma best_append:
  assumes "is_best seqs t m" shows "is_best seqs (t @ b) m"
proof -
  obtain e p i where m: "m = (e, p, i)" by (cases m) auto
  have match: "is_match seqs t m" "\<And>n. is_match seqs t n \<Longrightarrow> before m n" using assms unfolding is_best_def by blast+
  then have e: "e \<le> length t" by (auto simp: m is_match_def occurs_def)
  have "before m n" if n: "is_match seqs (t @ b) n" for n
  proof -
    obtain e' p' i' where n': "n = (e', p', i')" by (cases n) auto
    show ?thesis
    proof (cases "e' \<le> length t")
      case True
      then have "is_match seqs t n" using n by (auto simp: n' is_match_def intro: occurs_within)
      then show ?thesis by (rule match(2))
    next
      case False
      with e show ?thesis by (simp add: before_def m n')
    qed
  qed
  moreover have "is_match seqs (t @ b) m" using match(1) by (auto simp: m is_match_def occurs_append)
  ultimately show ?thesis unfolding is_best_def by blast
qed

text \<open>\<open>t\<close> holds no match and withholds what follows position \<open>n\<close>.\<close>

definition quiet :: "string list \<Rightarrow> string \<Rightarrow> nat \<Rightarrow> bool" where
  "quiet seqs t n \<longleftrightarrow> (\<forall>s\<in>set seqs. s \<noteq> []) \<and> (\<forall>m. \<not> is_match seqs t m) \<and> n = length t - keep_loop t seqs 0"

lemma quietD:
  assumes "quiet seqs t n"
  shows "\<forall>s\<in>set seqs. s \<noteq> []" "\<not> is_match seqs t m" "n \<le> length t" "length t - n = keep_loop t seqs 0"
proof -
  show ne: "\<forall>s\<in>set seqs. s \<noteq> []" and "\<not> is_match seqs t m" using assms unfolding quiet_def by blast+
  have "n = length t - keep_loop t seqs 0" using assms unfolding quiet_def by blast
  with keep_le_length[OF ne, of t] show "n \<le> length t" "length t - n = keep_loop t seqs 0" by simp_all
qed

lemma withheld_bound:
  assumes "quiet seqs t n" "keeps seqs t l" shows "n + l \<le> length t"
proof -
  have "l \<le> keep_loop t seqs 0" using keep_loop_ok[OF quietD(1)[OF assms(1)], of 0 t] assms(2) by blast
  with quietD(3,4)[OF assms(1)] show ?thesis by linarith
qed
lemma later_match:
  assumes q: "quiet seqs t n" and m: "is_match seqs (t @ b) (e, p, i)"
  shows "n \<le> p"
proof (rule ccontr)
  assume "\<not> n \<le> p"
  with m have i: "i < length seqs" "occurs (t @ b) (seqs ! i) p" and p: "p < n" by (simp_all add: is_match_def)
  have "length t < p + length (seqs ! i)"
  proof (rule ccontr)
    assume "\<not> length t < p + length (seqs ! i)"
    then have "is_match seqs t (p + length (seqs ! i), p, i)" using i occurs_within by (simp add: is_match_def)
    with quietD(2)[OF q] show False by blast
  qed
  then have "keeps seqs t (length t - p)" using i p quietD(3)[OF q] by (intro straddles) auto
  from withheld_bound[OF q this] p quietD(3)[OF q] show False by linarith
qed

lemma shifted_match:
  assumes "quiet seqs t n"
  shows "is_match seqs (drop n t @ b) (e, p, i) \<longleftrightarrow> is_match seqs (t @ b) (n + e, n + p, i)"
  using occurs_drop[of n "t @ b" "seqs ! i" p] quietD(3)[OF assms] by (auto simp: is_match_def)

lemma shifted_best:
  assumes q: "quiet seqs t n"
  shows "is_best seqs (drop n t @ b) (e, p, i) \<longleftrightarrow> is_best seqs (t @ b) (n + e, n + p, i)"
proof
  assume l: "is_best seqs (drop n t @ b) (e, p, i)"
  have "before (n + e, n + p, i) m" if m: "is_match seqs (t @ b) m" for m
  proof -
    obtain e' p' i' where m': "m = (e', p', i')" by (cases m) auto
    have p': "n \<le> p'" using later_match[OF q] m m' by blast
    then have "n \<le> e'" using m by (auto simp: m' is_match_def)
    with p' have "is_match seqs (drop n t @ b) (e' - n, p' - n, i')" using m by (simp add: shifted_match[OF q] m')
    then have "before (e, p, i) (e' - n, p' - n, i')" using l unfolding is_best_def by blast
    with p' \<open>n \<le> e'\<close> show ?thesis by (auto simp: before_def m')
  qed
  moreover have "is_match seqs (t @ b) (n + e, n + p, i)" using l by (simp add: is_best_def shifted_match[OF q] del: split_paired_All)
  ultimately show "is_best seqs (t @ b) (n + e, n + p, i)" unfolding is_best_def by blast
next
  assume r: "is_best seqs (t @ b) (n + e, n + p, i)"
  have "before (e, p, i) m" if m: "is_match seqs (drop n t @ b) m" for m
  proof -
    obtain e' p' i' where m': "m = (e', p', i')" by (cases m) auto
    have "is_match seqs (t @ b) (n + e', n + p', i')" using m by (simp add: m' shifted_match[OF q])
    then have "before (n + e, n + p, i) (n + e', n + p', i')" using r unfolding is_best_def by blast
    then show ?thesis by (auto simp: before_def m')
  qed
  moreover have "is_match seqs (drop n t @ b) (e, p, i)" using r by (simp add: is_best_def shifted_match[OF q] del: split_paired_All)
  ultimately show "is_best seqs (drop n t @ b) (e, p, i)" unfolding is_best_def by blast
qed

lemma shifted_keep:
  assumes q: "quiet seqs t n" shows "keep_loop (drop n t @ b) seqs 0 = keep_loop (t @ b) seqs 0"
proof -
  have same: "keeps seqs (drop n t @ b) l \<longleftrightarrow> keeps seqs (t @ b) l" if "n + l \<le> length t + length b" for l
    using keeps_drop[of n l "t @ b" seqs] that quietD(3)[OF q] by simp
  have inside: "n + l \<le> length t + length b" if "keeps seqs (t @ b) l" for l
  proof (cases "length b < l")
    case True
    then have "keeps seqs t (l - length b)" using keeps_append that by blast
    from withheld_bound[OF q this] True show ?thesis by linarith
  qed (use quietD(3)[OF q] in simp)
  have "n + l \<le> length t + length b" if "keeps seqs (drop n t @ b) l" for l
  proof -
    have "l \<le> length (drop n t @ b)" using that ends_with_length unfolding keeps_def by blast
    with quietD(3)[OF q] show ?thesis by simp
  qed
  with same inside have "keeps seqs (drop n t @ b) l \<longleftrightarrow> keeps seqs (t @ b) l" for l by blast
  with keep_loop_ok[OF quietD(1)[OF q], of 0 "drop n t @ b"] keep_loop_ok[OF quietD(1)[OF q], of 0 "t @ b"]
  show ?thesis by (metis le_antisym le_zero_eq)
qed

section \<open>The filter as a transducer\<close>

definition filter_ok :: "stop_filter \<Rightarrow> bool" where
  "filter_ok f \<longleftrightarrow> (\<forall>s\<in>set (sf_sequences f). s \<noteq> []) \<and>
     (if stopped f then sf_pending f = [] else quiet (sf_sequences f) (sf_pending f) 0)"

text \<open>A push of a running filter, by whether the text now holds a match.\<close>

lemma push_cases:
  assumes "\<not> stopped f" "\<forall>s\<in>set (sf_sequences f). s \<noteq> []"
  obtains (hit) e p i where "is_best (sf_sequences f) (sf_pending f @ piece) (e, p, i)"
      "push_stop f piece = (take p (sf_pending f @ piece), f\<lparr>sf_pending := [], sf_match := Some i\<rparr>)"
  | (miss) n where "quiet (sf_sequences f) (sf_pending f @ piece) n"
      "push_stop f piece = (take n (sf_pending f @ piece), f\<lparr>sf_pending := drop n (sf_pending f @ piece)\<rparr>)"
proof (cases "best_loop (sf_pending f @ piece) 0 (sf_sequences f) None")
  case None
  then have "\<forall>m. \<not> is_match (sf_sequences f) (sf_pending f @ piece) m" by (simp add: best_match(2) del: split_paired_All)
  then have "quiet (sf_sequences f) (sf_pending f @ piece)
      (length (sf_pending f @ piece) - keep_loop (sf_pending f @ piece) (sf_sequences f) 0)"
    using assms(2) unfolding quiet_def by blast
  moreover have "push_stop f piece =
      (take (length (sf_pending f @ piece) - keep_loop (sf_pending f @ piece) (sf_sequences f) 0) (sf_pending f @ piece),
       f\<lparr>sf_pending := drop (length (sf_pending f @ piece) - keep_loop (sf_pending f @ piece) (sf_sequences f) 0)
         (sf_pending f @ piece)\<rparr>)"
    using assms(1) None by (simp add: push_stop_def Let_def)
  ultimately show thesis by (rule miss)
next
  case (Some m)
  obtain e p i where m: "m = (e, p, i)" by (cases m) auto
  have "is_best (sf_sequences f) (sf_pending f @ piece) (e, p, i)" using Some best_match(1) unfolding m by blast
  moreover have "push_stop f piece = (take p (sf_pending f @ piece), f\<lparr>sf_pending := [], sf_match := Some i\<rparr>)"
    using assms(1) Some m by (simp add: push_stop_def Let_def)
  ultimately show thesis by (rule hit)
qed

lemma push_stopped: "stopped f \<Longrightarrow> push_stop f piece = ([], f)"
  by (simp add: push_stop_def)

lemma quiet_drop:
  assumes "quiet seqs t n" shows "quiet seqs (drop n t) 0"
proof -
  have "\<not> is_match seqs (drop n t) m" for m
    using shifted_match[OF assms, of "[]"] quietD(2)[OF assms] by (cases m) simp
  moreover have "keep_loop (drop n t) seqs 0 = length (drop n t)"
    using shifted_keep[OF assms, of "[]"] quietD(4)[OF assms] by simp
  ultimately show ?thesis using quietD(1)[OF assms] unfolding quiet_def by simp
qed

lemma filter_ok_push:
  assumes "filter_ok f" shows "filter_ok (snd (push_stop f piece))"
proof (cases "stopped f")
  case True
  with assms show ?thesis by (simp add: push_stopped)
next
  case False
  have ne: "\<forall>s\<in>set (sf_sequences f). s \<noteq> []" using assms by (simp add: filter_ok_def)
  from False ne show ?thesis
  proof (cases rule: push_cases[where piece = piece])
    case (hit e p i)
    then show ?thesis using ne by (simp add: filter_ok_def stopped_def)
  next
    case (miss n)
    then show ?thesis using ne False quiet_drop[OF miss(1)] by (simp add: filter_ok_def stopped_def)
  qed
qed

lemma filter_push_empty:
  assumes "filter_ok f" shows "push_stop f [] = ([], f)"
proof (cases "stopped f")
  case False
  with assms have q: "quiet (sf_sequences f) (sf_pending f) 0" by (simp add: filter_ok_def)
  from False quietD(1)[OF q] show ?thesis
  proof (cases rule: push_cases[where piece = "[]"])
    case (hit e p i)
    then show ?thesis using quietD(2)[OF q] unfolding is_best_def by simp
  next
    case (miss n)
    then have "n = 0" using q unfolding quiet_def by simp
    with miss show ?thesis by simp
  qed
qed (simp add: push_stopped)

lemma take_split: "n \<le> length t \<Longrightarrow> take n t @ take m (drop n t @ b) = take (n + m) (t @ b)"
  using take_add[of n m "t @ b"] by simp

lemma drop_split: "n \<le> length t \<Longrightarrow> drop m (drop n t @ b) = drop (n + m) (t @ b)"
proof -
  assume "n \<le> length t"
  then have "drop n t @ b = drop n (t @ b)" by simp
  then show ?thesis by (simp only: drop_drop add.commute)
qed

lemma filter_push_append:
  assumes "filter_ok f" shows "push_stop f (a @ b) = join_push push_stop f a b"
proof (cases "stopped f")
  case True
  then show ?thesis by (simp add: push_stopped join_push_def)
next
  case False
  let ?q = "sf_sequences f" and ?t = "sf_pending f @ a"
  have ne: "\<forall>s\<in>set ?q. s \<noteq> []" using assms by (simp add: filter_ok_def)
  from False ne show ?thesis
  proof (cases rule: push_cases[where piece = a])
    case (hit e p i)
    have "is_best ?q (sf_pending f @ a @ b) (e, p, i)" using best_append[OF hit(1), of b] by simp
    then have "best_loop (sf_pending f @ a @ b) 0 ?q None = Some (e, p, i)" by (simp add: best_match(1))
    moreover have "p \<le> length ?t" using hit(1) by (auto simp: is_best_def is_match_def occurs_def)
    moreover have "stopped (f\<lparr>sf_pending := [], sf_match := Some i\<rparr>)" by (simp add: stopped_def)
    ultimately show ?thesis
      using False hit(2) by (simp add: push_stop_def[of f "a @ b"] join_push_def push_stopped)
  next
    case (miss n)
    let ?f = "f\<lparr>sf_pending := drop n ?t\<rparr>"
    have f: "\<not> stopped ?f" "\<forall>s\<in>set (sf_sequences ?f). s \<noteq> []" using False ne by (simp_all add: stopped_def)
    have n: "n \<le> length ?t" by (rule quietD(3)[OF miss(1)])
    have split: "take n ?t @ take m (drop n ?t @ b) = take (n + m) (?t @ b)" for m
      by (rule take_split[OF n])
    from f show ?thesis
    proof (cases rule: push_cases[where piece = b])
      case (hit e p i)
      then have "is_best ?q (sf_pending f @ a @ b) (n + e, n + p, i)"
        using shifted_best[OF miss(1), of b] by simp
      then have "best_loop (sf_pending f @ a @ b) 0 ?q None = Some (n + e, n + p, i)" by (simp add: best_match(1))
      then show ?thesis
        using False miss(2) hit(2) split[of p] by (simp add: push_stop_def[of f "a @ b"] join_push_def)
    next
      case (miss m)
      then have quiet: "quiet ?q (drop n ?t @ b) m" by simp
      have "\<not> is_match ?q (?t @ b) k" for k
      proof
        assume k: "is_match ?q (?t @ b) k"
        obtain e p i where k': "k = (e, p, i)" by (cases k) auto
        have "n \<le> p" using later_match[OF \<open>quiet ?q ?t n\<close>] k k' by blast
        then have "n + (p - n) = p" "n + (e - n) = e" using k by (auto simp: k' is_match_def)
        then have "is_match ?q (drop n ?t @ b) (e - n, p - n, i)"
          using k shifted_match[OF \<open>quiet ?q ?t n\<close>, of b "e - n" "p - n" i] by (simp add: k')
        with quietD(2)[OF quiet] show False by blast
      qed
      then have none: "best_loop (sf_pending f @ a @ b) 0 ?q None = None" by (simp add: best_match(2))
      have keep: "keep_loop (sf_pending f @ a @ b) ?q 0 = keep_loop (drop n ?t @ b) ?q 0"
        using shifted_keep[OF \<open>quiet ?q ?t n\<close>, of b] by simp
      have m: "m = length (drop n ?t @ b) - keep_loop (drop n ?t @ b) ?q 0" using quiet unfolding quiet_def by blast
      have k: "keep_loop (drop n ?t @ b) ?q 0 \<le> length (drop n ?t @ b)" by (rule keep_le_length[OF ne])
      have "length (sf_pending f @ a @ b) - keep_loop (sf_pending f @ a @ b) ?q 0 = n + m"
      proof -
        define l where "l = length ?t"
        define w where "w = keep_loop (drop n ?t @ b) ?q 0"
        have d: "length (drop n ?t @ b) = l - n + length b" "length (sf_pending f @ a @ b) = l + length b"
          unfolding l_def by (simp_all only: length_append length_drop add.assoc)
        have "m = l - n + length b - w" using m unfolding w_def[symmetric] d(1) .
        moreover have "w \<le> l - n + length b" using k unfolding w_def[symmetric] d(1) .
        moreover have "n \<le> l" using n unfolding l_def .
        ultimately show ?thesis unfolding keep w_def[symmetric] d(2) by arith
      qed
      moreover have "drop m (drop n ?t @ b) = drop (n + m) (?t @ b)" by (rule drop_split[OF n])
      ultimately show ?thesis
        using False none miss(2) \<open>push_stop f a = _\<close> split[of m]
        by (simp add: push_stop_def[of f "a @ b"] join_push_def Let_def)
    qed
  qed
qed

interpretation sff: chunked filter_ok push_stop
  by unfold_locales (simp_all add: filter_ok_push filter_push_empty filter_push_append)

section \<open>Properties\<close>

lemma validate_loop_None: "validate_loop seqs n = None \<Longrightarrow> \<forall>s\<in>set seqs. s \<noteq> []"
  by (induction seqs arbitrary: n) (auto split: if_splits)

lemma new_filter:
  assumes "new_stop_filter seqs = Inr f"
  shows "filter_ok f" "f = \<lparr>sf_sequences = seqs, sf_pending = [], sf_match = None\<rparr>" "\<forall>s\<in>set seqs. s \<noteq> []"
proof -
  have v: "validate_stop_sequences seqs k_max_stop_sequences = None"
    and f: "f = \<lparr>sf_sequences = seqs, sf_pending = [], sf_match = None\<rparr>"
    using assms by (auto simp: new_stop_filter_def split: option.splits)
  show ne: "\<forall>s\<in>set seqs. s \<noteq> []"
    using v by (auto simp: validate_stop_sequences_def dest: validate_loop_None split: if_splits)
  have "\<not> is_match seqs [] m" for m
  proof
    assume m: "is_match seqs [] m"
    obtain e p i where "m = (e, p, i)" by (cases m) auto
    with m have "i < length seqs" "seqs ! i = []" by (auto simp: is_match_def occurs_def)
    with ne show False using nth_mem by blast
  qed
  then have "quiet seqs [] 0" using ne keep_le_length[OF ne, of "[]"] unfolding quiet_def by simp
  with ne f show "filter_ok f" by (simp add: filter_ok_def stopped_def)
  show "f = \<lparr>sf_sequences = seqs, sf_pending = [], sf_match = None\<rparr>" by (rule f)
qed

lemma fed_filter:
  assumes "new_stop_filter seqs = Inr f" "feed push_stop f pieces = (out, g)"
  shows "push_stop f (concat pieces) = (out, g)" "\<not> stopped f" "sf_sequences f = seqs" "sf_pending f = []"
  using sff.feed_concat[OF new_filter(1)[OF assms(1)], of pieces] assms(2) new_filter(2)[OF assms(1)]
  by (simp_all add: stopped_def)

text \<open>C22. However the model's pieces cut the text, the filter releases the same text and ends in the same
  state as for the text in one piece.\<close>

theorem stop_filter_cut_independent:
  assumes "new_stop_filter seqs = Inr f"
  shows "feed push_stop f pieces = push_stop f (concat pieces)"
  by (rule sff.feed_concat[OF new_filter(1)[OF assms]])

text \<open>C23. If the text holds a stop sequence, the released text is exactly what precedes the first one to
  complete (of those that complete together the longest, of equal ones the first listed), which is the
  reported one, and nothing is left to flush. Otherwise what was released and what \<open>Finish\<close> flushes
  are the whole text, and the withheld part is the longest ending that may still become a stop
  sequence.\<close>

theorem stop_filter_correct:
  assumes "new_stop_filter seqs = Inr f" "feed push_stop f pieces = (out, g)"
  shows "(is_best seqs (concat pieces) (e, p, i) \<longrightarrow>
      out = take p (concat pieces) \<and> matched_sequence g = Some (seqs ! i) \<and> fst (finish_stop g) = []) \<and>
    ((\<forall>m. \<not> is_match seqs (concat pieces) m) \<longrightarrow>
      out @ fst (finish_stop g) = concat pieces \<and> \<not> stopped g \<and>
      (\<forall>l. keeps seqs (concat pieces) l \<longrightarrow> l \<le> length (fst (finish_stop g))) \<and>
      (fst (finish_stop g) \<noteq> [] \<longrightarrow> keeps seqs (concat pieces) (length (fst (finish_stop g)))))"
proof -
  note f = fed_filter[OF assms] and ne = new_filter(3)[OF assms(1)]
  have "\<forall>s\<in>set (sf_sequences f). s \<noteq> []" using ne f(3) by simp
  with f(2) show ?thesis
  proof (cases rule: push_cases[where piece = "concat pieces"])
    case (hit e' p' i')
    then have b: "is_best seqs (concat pieces) (e', p', i')" and
      r: "out = take p' (concat pieces)" "g = f\<lparr>sf_pending := [], sf_match := Some i'\<rparr>" using f by simp_all
    have "i' < length seqs" using b by (simp add: is_best_def is_match_def)
    moreover have "is_match seqs (concat pieces) (e', p', i')" using b unfolding is_best_def by blast
    ultimately show ?thesis
      using is_best_unique[OF b, of "(e, p, i)"] r f(3) by (auto simp: matched_sequence_def finish_stop_def)
  next
    case (miss n)
    then have q: "quiet seqs (concat pieces) n" and
      r: "out = take n (concat pieces)" "g = f\<lparr>sf_pending := drop n (concat pieces)\<rparr>" using f by simp_all
    have len: "length (fst (finish_stop g)) = keep_loop (concat pieces) seqs 0"
      using quietD(4)[OF q] r(2) by (simp add: finish_stop_def)
    have "\<not> is_best seqs (concat pieces) (e, p, i)" using quietD(2)[OF q] unfolding is_best_def by blast
    moreover have "out @ fst (finish_stop g) = concat pieces" "\<not> stopped g"
      using r f(2) by (simp_all add: finish_stop_def stopped_def)
    ultimately show ?thesis
      using keep_loop_ok[OF ne, of 0 "concat pieces"] unfolding len by (metis length_0_conv len)
  qed
qed

text \<open>C24. No stop sequence ever reaches the client: the released text, with what \<open>Finish\<close> adds, contains
  none.\<close>

theorem stop_sequence_never_released:
  assumes "new_stop_filter seqs = Inr f" "feed push_stop f pieces = (out, g)" "s \<in> set seqs"
  shows "\<not> occurs (out @ fst (finish_stop g)) s q"
proof
  assume o: "occurs (out @ fst (finish_stop g)) s q"
  note f = fed_filter[OF assms(1,2)] and ne = new_filter(3)[OF assms(1)]
  obtain j where j: "j < length seqs" "seqs ! j = s" using assms(3) by (metis in_set_conv_nth)
  have "\<forall>s\<in>set (sf_sequences f). s \<noteq> []" using ne f(3) by simp
  with f(2) show False
  proof (cases rule: push_cases[where piece = "concat pieces"])
    case (hit e p i)
    then have b: "is_best seqs (concat pieces) (e, p, i)" and r: "out @ fst (finish_stop g) = take p (concat pieces)"
      using f by (simp_all add: finish_stop_def)
    have "occurs (take p (concat pieces) @ drop p (concat pieces)) s q" using o r occurs_append by metis
    then have "is_match seqs (concat pieces) (q + length s, q, j)" using j by (simp add: is_match_def)
    then have "before (e, p, i) (q + length s, q, j)" using b unfolding is_best_def by blast
    then have "e \<le> q + length s" by (auto simp: before_def)
    moreover have "q + length s \<le> p" using o r by (simp add: occurs_def)
    moreover have "e = p + length (seqs ! i)" "seqs ! i \<noteq> []" using b ne by (auto simp: is_best_def is_match_def)
    ultimately have "length (seqs ! i) = 0" by linarith
    with \<open>seqs ! i \<noteq> []\<close> show False by simp
  next
    case (miss n)
    then have q: "quiet seqs (concat pieces) n" and r: "out @ fst (finish_stop g) = concat pieces"
      using f by (simp_all add: finish_stop_def)
    have "is_match seqs (concat pieces) (q + length s, q, j)" using o r j by (simp add: is_match_def)
    with quietD(2)[OF q] show False by blast
  qed
qed

section \<open>Witnesses\<close>

definition demo_stops :: "string list" where "demo_stops = [''END'', ''ND'']"

lemma demo_filter: "new_stop_filter demo_stops = Inr \<lparr>sf_sequences = demo_stops, sf_pending = [], sf_match = None\<rparr>"
  by (simp add: new_stop_filter_def validate_stop_sequences_def demo_stops_def k_max_stop_sequences_def
      k_max_stop_sequence_bytes_def k_max_stop_total_bytes_def)

lemma demo_feed:
  obtains out g where "feed push_stop \<lparr>sf_sequences = demo_stops, sf_pending = [], sf_match = None\<rparr> [''aE'', ''NDb''] = (out, g)"
  by (cases "feed push_stop \<lparr>sf_sequences = demo_stops, sf_pending = [], sf_match = None\<rparr> [''aE'', ''NDb'']") auto

lemma demo_best: "is_best demo_stops ''aENDb'' (4, 1, 0)"
proof -
  have "best_loop ''aENDb'' 0 demo_stops None = Some (4, 1, 0)"
    by (simp add: demo_stops_def find_first.simps)
  then show ?thesis by (simp only: best_match(1))
qed

theorem stop_filter_cut_independent_witness:
  "feed push_stop \<lparr>sf_sequences = demo_stops, sf_pending = [], sf_match = None\<rparr> [''aE'', ''NDb''] =
   push_stop \<lparr>sf_sequences = demo_stops, sf_pending = [], sf_match = None\<rparr> ''aENDb''"
  using stop_filter_cut_independent[OF demo_filter, of "[''aE'', ''NDb'']"] by simp

theorem stop_filter_correct_witness:
  "\<exists>g. feed push_stop \<lparr>sf_sequences = demo_stops, sf_pending = [], sf_match = None\<rparr> [''aE'', ''NDb''] = (''a'', g) \<and>
     matched_sequence g = Some ''END''"
proof -
  obtain out g where f: "feed push_stop \<lparr>sf_sequences = demo_stops, sf_pending = [], sf_match = None\<rparr> [''aE'', ''NDb''] = (out, g)"
    by (rule demo_feed)
  from stop_filter_correct[OF demo_filter f, of 4 1 0] demo_best have "out = ''a''" "matched_sequence g = Some (demo_stops ! 0)"
    by simp_all
  with f show ?thesis by (simp add: demo_stops_def)
qed

theorem stop_sequence_never_released_witness:
  "\<exists>out g. feed push_stop \<lparr>sf_sequences = demo_stops, sf_pending = [], sf_match = None\<rparr> [''aE'', ''NDb''] = (out, g) \<and>
     \<not> occurs (out @ fst (finish_stop g)) ''ND'' 0"
proof -
  obtain out g where f: "feed push_stop \<lparr>sf_sequences = demo_stops, sf_pending = [], sf_match = None\<rparr> [''aE'', ''NDb''] = (out, g)"
    by (rule demo_feed)
  from stop_sequence_never_released[OF demo_filter f, of "''ND''" 0] f show ?thesis by (auto simp: demo_stops_def)
qed

end
