(* ===== verification/Quote_Tracker.thy ===== *)
theory Quote_Tracker
  imports Chunked
begin

text \<open>
  \<open>QuoteTracker\<close> (\<open>src/cli/serve/quote_tracker.hpp\<close>): which positions of a model's output lie inside
  inline code or a code fence, so that tool-call and reasoning markers quoted there are not obeyed.
  \<open>npos\<close> is \<open>None\<close>; \<open>std::upper_bound\<close> is the partition point of a range it requires to be
  partitioned, which the invariant shows the spans to be.
\<close>

section \<open>State\<close>

type_synonym span = "nat \<times> nat"

record quote_tracker =
  qt_text :: string
  qt_spans :: "span list"
  qt_unfinished :: "span list"
  qt_scanned :: nat
  qt_first_nonblank :: "nat option"
  qt_run_begin :: nat
  qt_run_size :: nat
  qt_run_char :: char
  qt_inline_begin :: nat
  qt_inline_size :: nat
  qt_fence_begin :: nat
  qt_fence_size :: nat
  qt_fence_char :: char
  qt_close_begin :: nat
  qt_closing_fence :: bool

definition new_tracker :: quote_tracker where
  "new_tracker = \<lparr>qt_text = [], qt_spans = [], qt_unfinished = [], qt_scanned = 0, qt_first_nonblank = None,
     qt_run_begin = 0, qt_run_size = 0, qt_run_char = CHR 0x00, qt_inline_begin = 0, qt_inline_size = 0,
     qt_fence_begin = 0, qt_fence_size = 0, qt_fence_char = CHR 0x00, qt_close_begin = 0,
     qt_closing_fence = False\<rparr>"

definition tick :: char where "tick = CHR 0x60"
definition tilde :: char where "tilde = CHR 0x7E"
definition newline :: char where "newline = CHR 0x0A"
definition carriage :: char where "carriage = CHR 0x0D"
definition tab :: char where "tab = CHR 0x09"
definition blank :: char where "blank = CHR 0x20"

section \<open>Reading\<close>

definition at_line_start :: "quote_tracker \<Rightarrow> nat \<Rightarrow> bool" where
  "at_line_start q position \<longleftrightarrow> qt_first_nonblank q = Some position"

definition flush_run :: "quote_tracker \<Rightarrow> quote_tracker" where
  "flush_run q =
     (if qt_run_size q = 0 then q
      else
        (if qt_fence_size q > 0
         then (if qt_run_char q = qt_fence_char q \<and> qt_run_size q \<ge> qt_fence_size q \<and> at_line_start q (qt_run_begin q)
               then q\<lparr>qt_closing_fence := True, qt_close_begin := qt_run_begin q\<rparr> else q)
         else if qt_inline_size q = 0 \<and> qt_run_size q \<ge> 3 \<and> at_line_start q (qt_run_begin q)
         then q\<lparr>qt_fence_char := qt_run_char q, qt_fence_size := qt_run_size q,
                qt_fence_begin := qt_run_begin q + qt_run_size q\<rparr>
         else if qt_run_char q = tick
         then (if qt_inline_size q = 0
               then q\<lparr>qt_inline_size := qt_run_size q, qt_inline_begin := qt_run_begin q + qt_run_size q\<rparr>
               else if qt_run_size q = qt_inline_size q
               then q\<lparr>qt_spans := qt_spans q @ [(qt_inline_begin q, qt_run_begin q)], qt_inline_size := 0\<rparr>
               else q)
         else q)\<lparr>qt_run_size := 0\<rparr>)"

definition note_nonblank :: "nat \<Rightarrow> char \<Rightarrow> quote_tracker \<Rightarrow> quote_tracker" where
  "note_nonblank cursor byte q =
     (if qt_first_nonblank q = None \<and> byte \<noteq> blank \<and> byte \<noteq> tab \<and> byte \<noteq> carriage \<and> byte \<noteq> newline
      then q\<lparr>qt_first_nonblank := Some cursor\<rparr> else q)"

definition switch_run :: "char \<Rightarrow> quote_tracker \<Rightarrow> quote_tracker" where
  "switch_run byte q = (if qt_run_size q \<noteq> 0 \<and> qt_run_char q \<noteq> byte then flush_run q else q)"

definition begin_run :: "nat \<Rightarrow> char \<Rightarrow> quote_tracker \<Rightarrow> quote_tracker" where
  "begin_run cursor byte q =
     (if qt_run_size q = 0 then q\<lparr>qt_run_begin := cursor, qt_run_char := byte\<rparr> else q)"

definition grow_run :: "quote_tracker \<Rightarrow> quote_tracker" where
  "grow_run q = q\<lparr>qt_run_size := qt_run_size q + 1\<rparr>"

definition read_delimiter :: "nat \<Rightarrow> char \<Rightarrow> quote_tracker \<Rightarrow> quote_tracker" where
  "read_delimiter cursor byte q = grow_run (begin_run cursor byte (switch_run byte q))"

definition end_fence :: "quote_tracker \<Rightarrow> quote_tracker" where
  "end_fence q =
     (if qt_fence_size q > 0 \<and> qt_closing_fence q
      then q\<lparr>qt_spans := qt_spans q @ [(qt_fence_begin q, qt_close_begin q)], qt_fence_size := 0,
             qt_fence_char := CHR 0x00\<rparr> else q)"

definition end_inline :: "nat \<Rightarrow> quote_tracker \<Rightarrow> quote_tracker" where
  "end_inline cursor q =
     (if qt_inline_size q > 0 \<and> qt_first_nonblank q = None
      then q\<lparr>qt_unfinished := qt_unfinished q @ [(qt_inline_begin q, cursor)], qt_inline_size := 0\<rparr> else q)"

definition read_plain :: "nat \<Rightarrow> char \<Rightarrow> quote_tracker \<Rightarrow> quote_tracker" where
  "read_plain cursor byte q =
     (let q = flush_run q
      in if byte = newline
         then (end_inline cursor (end_fence q))\<lparr>qt_closing_fence := False, qt_first_nonblank := None\<rparr>
         else if byte \<noteq> blank \<and> byte \<noteq> tab \<and> byte \<noteq> carriage then q\<lparr>qt_closing_fence := False\<rparr>
         else q)"

definition read_byte :: "nat \<Rightarrow> char \<Rightarrow> quote_tracker \<Rightarrow> quote_tracker" where
  "read_byte cursor byte q =
     (let q = note_nonblank cursor byte q
      in if byte = tick \<or> byte = tilde then read_delimiter cursor byte q else read_plain cursor byte q)"

text \<open>\<open>Read(cursor)\<close> looks the byte up in the text; \<open>Append\<close> reads every new position.\<close>

definition read_at :: "quote_tracker \<Rightarrow> nat \<Rightarrow> quote_tracker" where
  "read_at q cursor = read_byte cursor (qt_text q ! cursor) q"

definition append_piece :: "quote_tracker \<Rightarrow> string \<Rightarrow> quote_tracker" where
  "append_piece q piece =
     (let begin = length (qt_text q);
          q = q\<lparr>qt_text := qt_text q @ piece\<rparr>;
          q = foldl read_at q [begin..<length (qt_text q)]
      in q\<lparr>qt_scanned := qt_scanned q + length piece\<rparr>)"

definition reset :: "quote_tracker \<Rightarrow> string \<Rightarrow> nat \<Rightarrow> quote_tracker" where
  "reset q t start =
     (let origin = min start (length t);
          q = q\<lparr>qt_text := replicate origin blank, qt_spans := [], qt_unfinished := [], qt_first_nonblank := None,
                qt_run_begin := 0, qt_run_size := 0, qt_run_char := CHR 0x00, qt_inline_size := 0,
                qt_fence_size := 0, qt_fence_char := CHR 0x00, qt_closing_fence := False\<rparr>
      in append_piece q (drop origin t))"

section \<open>Queries\<close>

definition upper_bound :: "nat \<Rightarrow> span list \<Rightarrow> nat" where
  "upper_bound position spans = length (takeWhile (\<lambda>s. \<not> position < fst s) spans)"

definition in_span :: "nat \<Rightarrow> span list \<Rightarrow> bool" where
  "in_span position spans \<longleftrightarrow>
     (let k = upper_bound position spans in k \<noteq> 0 \<and> position < snd (spans ! (k - 1)))"

definition provisional :: "quote_tracker \<Rightarrow> nat \<Rightarrow> bool" where
  "provisional q position \<longleftrightarrow>
     (if qt_fence_size q > 0
      then (qt_closing_fence q \<and> position \<ge> qt_fence_begin q \<and> position < qt_close_begin q) \<or>
           (qt_run_size q \<ge> qt_fence_size q \<and> qt_run_char q = qt_fence_char q \<and>
            at_line_start q (qt_run_begin q) \<and> position \<ge> qt_fence_begin q \<and> position < qt_run_begin q)
      else qt_inline_size q > 0 \<and> qt_run_char q = tick \<and> qt_run_size q = qt_inline_size q \<and>
           position \<ge> qt_inline_begin q \<and> position < qt_run_begin q)"

definition quoted_at :: "quote_tracker \<Rightarrow> nat \<Rightarrow> bool" where
  "quoted_at q position \<longleftrightarrow> in_span position (qt_spans q) \<or> provisional q position"

definition unclosed_at :: "quote_tracker \<Rightarrow> nat \<Rightarrow> bool" where
  "unclosed_at q position \<longleftrightarrow>
     (if quoted_at q position then False
      else if (qt_fence_size q > 0 \<and> position \<ge> qt_fence_begin q) \<or>
              (qt_inline_size q > 0 \<and> position \<ge> qt_inline_begin q)
      then True
      else in_span position (qt_unfinished q))"

section \<open>The invariant\<close>

text \<open>Spans in order and apart, all ending by \<open>limit\<close>.\<close>

definition spans_ok :: "span list \<Rightarrow> nat \<Rightarrow> bool" where
  "spans_ok spans limit \<longleftrightarrow>
     sorted_wrt (\<lambda>a b. snd a \<le> fst b) spans \<and> (\<forall>s\<in>set spans. fst s \<le> snd s \<and> snd s \<le> limit)"

text \<open>After \<open>pos\<close> bytes: everything recorded ends before what is open, which ends before the run.\<close>

definition tracker_ok :: "quote_tracker \<Rightarrow> nat \<Rightarrow> bool" where
  "tracker_ok q pos \<longleftrightarrow>
     (let run = (if qt_run_size q = 0 then pos else qt_run_begin q);
          opened = (if qt_fence_size q > 0 then qt_fence_begin q
                    else if qt_inline_size q > 0 then qt_inline_begin q else run)
      in (qt_run_size q \<noteq> 0 \<longrightarrow> qt_run_begin q + qt_run_size q = pos) \<and>
         spans_ok (qt_spans q) opened \<and> spans_ok (qt_unfinished q) opened \<and> opened \<le> run \<and>
         (qt_fence_size q > 0 \<longrightarrow> qt_inline_size q = 0) \<and>
         (qt_closing_fence q \<longrightarrow> qt_fence_size q > 0 \<and> qt_fence_begin q \<le> qt_close_begin q \<and> qt_close_begin q \<le> run))"

lemma spans_ok_mono: "spans_ok spans a \<Longrightarrow> a \<le> b \<Longrightarrow> spans_ok spans b"
  unfolding spans_ok_def by (meson le_trans)

lemma spans_ok_snoc: "spans_ok spans a \<Longrightarrow> a \<le> b \<Longrightarrow> spans_ok (spans @ [(a, b)]) b"
  by (fastforce simp: spans_ok_def sorted_wrt_append)

lemma in_span_iff:
  assumes "spans_ok spans limit"
  shows "in_span position spans \<longleftrightarrow> (\<exists>s\<in>set spans. fst s \<le> position \<and> position < snd s)"
  using assms
proof (induction spans)
  case Nil
  then show ?case by (simp add: in_span_def upper_bound_def)
next
  case (Cons s spans)
  then have rest: "spans_ok spans limit" and later: "\<forall>r\<in>set spans. snd s \<le> fst r" by (auto simp: spans_ok_def)
  show ?case
  proof (cases "fst s \<le> position")
    case False
    then have "\<forall>r\<in>set spans. \<not> fst r \<le> position" using later Cons.prems by (force simp: spans_ok_def)
    with False show ?thesis by (auto simp: in_span_def upper_bound_def)
  next
    case True
    let ?k = "upper_bound position spans"
    have k: "upper_bound position (s # spans) = Suc ?k" using True by (simp add: upper_bound_def)
    show ?thesis
    proof (cases "?k = 0")
      case zero: True
      then have "\<forall>r\<in>set spans. \<not> (fst r \<le> position \<and> position < snd r)"
        using Cons.IH[OF rest] by (auto simp: in_span_def)
      with zero k True show ?thesis by (auto simp: in_span_def)
    next
      case False
      then obtain r rs where spans: "spans = r # rs" "fst r \<le> position"
        by (cases spans) (auto simp: upper_bound_def split: if_splits)
      have "\<not> position < snd s" using later spans by auto
      with False k Cons.IH[OF rest] show ?thesis by (auto simp: in_span_def)
    qed
  qed
qed

lemma tracker_ok_nonblank [simp]:
  "tracker_ok (q\<lparr>qt_first_nonblank := x\<rparr>) pos = tracker_ok q pos"
  by (simp add: tracker_ok_def)

lemma tracker_limits:
  assumes "tracker_ok q pos" shows "spans_ok (qt_spans q) pos" "spans_ok (qt_unfinished q) pos"
proof -
  define run where "run = (if qt_run_size q = 0 then pos else qt_run_begin q)"
  define opened where "opened = (if qt_fence_size q > 0 then qt_fence_begin q
    else if qt_inline_size q > 0 then qt_inline_begin q else run)"
  have "qt_run_size q \<noteq> 0 \<longrightarrow> qt_run_begin q + qt_run_size q = pos" "opened \<le> run"
    and ok: "spans_ok (qt_spans q) opened" "spans_ok (qt_unfinished q) opened"
    using assms unfolding tracker_ok_def Let_def run_def[symmetric] opened_def[symmetric] by blast+
  then have "opened \<le> pos" unfolding run_def by (cases "qt_run_size q = 0") simp_all
  with ok show "spans_ok (qt_spans q) pos" "spans_ok (qt_unfinished q) pos" using spans_ok_mono by blast+
qed

lemma flush_run_ok:
  assumes "tracker_ok q pos" shows "tracker_ok (flush_run q) pos" "qt_run_size (flush_run q) = 0"
proof -
  show "qt_run_size (flush_run q) = 0" by (simp add: flush_run_def)
  show "tracker_ok (flush_run q) pos"
  proof (cases "qt_run_size q = 0")
    case True
    then show ?thesis using assms by (simp add: flush_run_def)
  next
    case run: False
    then have pos: "qt_run_begin q + qt_run_size q = pos" using assms by (simp add: tracker_ok_def Let_def)
    then have le: "qt_run_begin q \<le> pos" by simp
    consider (fence) "qt_fence_size q > 0" | (inline) "qt_fence_size q = 0" "qt_inline_size q > 0"
      | (none) "qt_fence_size q = 0" "qt_inline_size q = 0" by auto
    then show ?thesis
    proof cases
      case fence
      then show ?thesis using assms run le
        by (auto simp: tracker_ok_def flush_run_def Let_def)
    next
      case inline
      then have "spans_ok (qt_spans q) (qt_inline_begin q)" "spans_ok (qt_unfinished q) (qt_inline_begin q)"
        "qt_inline_begin q \<le> qt_run_begin q" "\<not> qt_closing_fence q"
        using assms run by (auto simp: tracker_ok_def Let_def)
      with inline run le show ?thesis
        by (auto simp: tracker_ok_def flush_run_def Let_def intro: spans_ok_mono spans_ok_snoc
            elim: spans_ok_mono[OF spans_ok_snoc])
    next
      case none
      then have "spans_ok (qt_spans q) (qt_run_begin q)" "spans_ok (qt_unfinished q) (qt_run_begin q)"
        "\<not> qt_closing_fence q"
        using assms run by (auto simp: tracker_ok_def Let_def)
      then have "spans_ok (qt_spans q) pos" "spans_ok (qt_unfinished q) pos" "\<not> qt_closing_fence q"
        using le spans_ok_mono by blast+
      with none run pos show ?thesis by (auto simp: tracker_ok_def flush_run_def Let_def)
    qed
  qed
qed

lemma tracker_ok_later:
  assumes "tracker_ok q pos" "qt_run_size q = 0" "pos \<le> pos'" shows "tracker_ok q pos'"
  using assms by (auto simp: tracker_ok_def Let_def split: if_splits elim: spans_ok_mono)

lemma read_delimiter_ok:
  assumes "tracker_ok q pos" shows "tracker_ok (read_delimiter pos byte q) (Suc pos)"
proof -
  let ?f = "switch_run byte q"
  have f: "tracker_ok ?f pos" using assms flush_run_ok(1) by (simp add: switch_run_def)
  show ?thesis
  proof (cases "qt_run_size ?f = 0")
    case True
    with f show ?thesis
      by (auto simp: read_delimiter_def grow_run_def begin_run_def Let_def tracker_ok_def)
  next
    case False
    with f show ?thesis
      by (auto simp: read_delimiter_def grow_run_def begin_run_def Let_def tracker_ok_def)
  qed
qed

lemma end_fence_ok:
  assumes "tracker_ok q pos" "qt_run_size q = 0"
  shows "tracker_ok ((end_fence q)\<lparr>qt_closing_fence := False\<rparr>) pos" "qt_run_size (end_fence q) = 0"
proof -
  show "qt_run_size (end_fence q) = 0" using assms(2) by (simp add: end_fence_def)
  show "tracker_ok ((end_fence q)\<lparr>qt_closing_fence := False\<rparr>) pos"
  proof (cases "qt_fence_size q > 0 \<and> qt_closing_fence q")
    case True
    then have "spans_ok (qt_spans q) (qt_fence_begin q)" "spans_ok (qt_unfinished q) (qt_fence_begin q)"
      "qt_fence_begin q \<le> qt_close_begin q" "qt_close_begin q \<le> pos" "qt_inline_size q = 0"
      using assms by (auto simp: tracker_ok_def Let_def)
    moreover from this have "spans_ok (qt_spans q @ [(qt_fence_begin q, qt_close_begin q)]) pos"
      "spans_ok (qt_unfinished q) pos"
      by (auto intro: spans_ok_mono[OF spans_ok_snoc] spans_ok_mono)
    ultimately show ?thesis using True assms(2) by (simp add: end_fence_def tracker_ok_def)
  next
    case False
    with assms show ?thesis by (auto simp: end_fence_def tracker_ok_def Let_def)
  qed
qed

lemma end_inline_ok:
  assumes "tracker_ok q pos" "qt_run_size q = 0" "\<not> qt_closing_fence q"
  shows "tracker_ok (end_inline pos q) pos"
proof (cases "qt_inline_size q > 0 \<and> qt_first_nonblank q = None")
  case True
  then have "spans_ok (qt_spans q) (qt_inline_begin q)" "spans_ok (qt_unfinished q) (qt_inline_begin q)"
    "qt_inline_begin q \<le> pos" "qt_fence_size q = 0"
    using assms by (auto simp: tracker_ok_def Let_def)
  moreover from this have "spans_ok (qt_unfinished q @ [(qt_inline_begin q, pos)]) pos" "spans_ok (qt_spans q) pos"
    by (auto intro: spans_ok_snoc spans_ok_mono)
  ultimately show ?thesis using True assms(2,3) by (simp add: end_inline_def tracker_ok_def)
next
  case False
  with assms show ?thesis by (auto simp: end_inline_def)
qed

lemma read_plain_ok:
  assumes "tracker_ok q pos" shows "tracker_ok (read_plain pos byte q) (Suc pos)"
proof -
  note f = flush_run_ok[OF assms]
  have e: "tracker_ok (end_inline pos ((end_fence (flush_run q))\<lparr>qt_closing_fence := False\<rparr>)) pos"
    "qt_run_size (end_inline pos ((end_fence (flush_run q))\<lparr>qt_closing_fence := False\<rparr>)) = 0"
    using end_inline_ok[OF end_fence_ok(1)[OF f]] end_fence_ok(2)[OF f] by (simp_all add: end_inline_def)
  have swap: "(end_inline pos (end_fence (flush_run q)))\<lparr>qt_closing_fence := False, qt_first_nonblank := None\<rparr> =
    (end_inline pos ((end_fence (flush_run q))\<lparr>qt_closing_fence := False\<rparr>))\<lparr>qt_first_nonblank := None\<rparr>"
    by (simp add: end_inline_def)
  have "tracker_ok ((end_inline pos ((end_fence (flush_run q))\<lparr>qt_closing_fence := False\<rparr>))\<lparr>qt_first_nonblank := None\<rparr>) (Suc pos)"
    using tracker_ok_later[OF e, of "Suc pos"] by simp
  moreover have "tracker_ok ((flush_run q)\<lparr>qt_closing_fence := False\<rparr>) (Suc pos)" "tracker_ok (flush_run q) (Suc pos)"
    using tracker_ok_later[OF f, of "Suc pos"] by (auto simp: tracker_ok_def Let_def)
  ultimately show ?thesis by (simp add: read_plain_def Let_def swap)
qed

lemma read_byte_ok:
  assumes "tracker_ok q pos" shows "tracker_ok (read_byte pos byte q) (Suc pos)"
proof -
  have "tracker_ok (note_nonblank pos byte q) pos" using assms by (simp add: note_nonblank_def)
  then show ?thesis by (simp add: read_byte_def Let_def read_delimiter_ok read_plain_ok)
qed

section \<open>Appending\<close>

text \<open>Reading a byte neither looks at the stored text and the byte counter nor changes them.\<close>

lemma tracker_ok_text [simp]:
  "tracker_ok (q\<lparr>qt_text := t\<rparr>) pos = tracker_ok q pos" "tracker_ok (q\<lparr>qt_scanned := n\<rparr>) pos = tracker_ok q pos"
  by (simp_all add: tracker_ok_def)

lemma flush_run_text [simp]:
  "flush_run (q\<lparr>qt_text := t\<rparr>) = (flush_run q)\<lparr>qt_text := t\<rparr>"
  "flush_run (q\<lparr>qt_scanned := n\<rparr>) = (flush_run q)\<lparr>qt_scanned := n\<rparr>"
  "qt_text (flush_run q) = qt_text q" "qt_scanned (flush_run q) = qt_scanned q"
  by (simp_all add: flush_run_def at_line_start_def)

lemma note_nonblank_text [simp]:
  "note_nonblank c x (q\<lparr>qt_text := t\<rparr>) = (note_nonblank c x q)\<lparr>qt_text := t\<rparr>"
  "note_nonblank c x (q\<lparr>qt_scanned := n\<rparr>) = (note_nonblank c x q)\<lparr>qt_scanned := n\<rparr>"
  "qt_text (note_nonblank c x q) = qt_text q" "qt_scanned (note_nonblank c x q) = qt_scanned q"
  by (simp_all add: note_nonblank_def)

lemma end_fence_text [simp]:
  "end_fence (q\<lparr>qt_text := t\<rparr>) = (end_fence q)\<lparr>qt_text := t\<rparr>"
  "end_fence (q\<lparr>qt_scanned := n\<rparr>) = (end_fence q)\<lparr>qt_scanned := n\<rparr>"
  "qt_text (end_fence q) = qt_text q" "qt_scanned (end_fence q) = qt_scanned q"
  by (simp_all add: end_fence_def)

lemma end_inline_text [simp]:
  "end_inline c (q\<lparr>qt_text := t\<rparr>) = (end_inline c q)\<lparr>qt_text := t\<rparr>"
  "end_inline c (q\<lparr>qt_scanned := n\<rparr>) = (end_inline c q)\<lparr>qt_scanned := n\<rparr>"
  "qt_text (end_inline c q) = qt_text q" "qt_scanned (end_inline c q) = qt_scanned q"
  by (simp_all add: end_inline_def)

lemma switch_run_text [simp]:
  "switch_run x (q\<lparr>qt_text := t\<rparr>) = (switch_run x q)\<lparr>qt_text := t\<rparr>"
  "switch_run x (q\<lparr>qt_scanned := n\<rparr>) = (switch_run x q)\<lparr>qt_scanned := n\<rparr>"
  "qt_text (switch_run x q) = qt_text q" "qt_scanned (switch_run x q) = qt_scanned q"
  by (simp_all add: switch_run_def)

lemma begin_run_text [simp]:
  "begin_run c x (q\<lparr>qt_text := t\<rparr>) = (begin_run c x q)\<lparr>qt_text := t\<rparr>"
  "begin_run c x (q\<lparr>qt_scanned := n\<rparr>) = (begin_run c x q)\<lparr>qt_scanned := n\<rparr>"
  "qt_text (begin_run c x q) = qt_text q" "qt_scanned (begin_run c x q) = qt_scanned q"
  by (simp_all add: begin_run_def)

lemma grow_run_text [simp]:
  "grow_run (q\<lparr>qt_text := t\<rparr>) = (grow_run q)\<lparr>qt_text := t\<rparr>"
  "grow_run (q\<lparr>qt_scanned := n\<rparr>) = (grow_run q)\<lparr>qt_scanned := n\<rparr>"
  "qt_text (grow_run q) = qt_text q" "qt_scanned (grow_run q) = qt_scanned q"
  by (simp_all add: grow_run_def)

lemma read_delimiter_text [simp]:
  "read_delimiter c x (q\<lparr>qt_text := t\<rparr>) = (read_delimiter c x q)\<lparr>qt_text := t\<rparr>"
  "read_delimiter c x (q\<lparr>qt_scanned := n\<rparr>) = (read_delimiter c x q)\<lparr>qt_scanned := n\<rparr>"
  "qt_text (read_delimiter c x q) = qt_text q" "qt_scanned (read_delimiter c x q) = qt_scanned q"
  by (simp_all add: read_delimiter_def)

lemma read_plain_text [simp]:
  "read_plain c x (q\<lparr>qt_text := t\<rparr>) = (read_plain c x q)\<lparr>qt_text := t\<rparr>"
  "read_plain c x (q\<lparr>qt_scanned := n\<rparr>) = (read_plain c x q)\<lparr>qt_scanned := n\<rparr>"
  "qt_text (read_plain c x q) = qt_text q" "qt_scanned (read_plain c x q) = qt_scanned q"
  by (cases "x = newline"; simp add: read_plain_def Let_def)+

lemma read_byte_text [simp]:
  "read_byte c x (q\<lparr>qt_text := t\<rparr>) = (read_byte c x q)\<lparr>qt_text := t\<rparr>"
  "read_byte c x (q\<lparr>qt_scanned := n\<rparr>) = (read_byte c x q)\<lparr>qt_scanned := n\<rparr>"
  "qt_text (read_byte c x q) = qt_text q" "qt_scanned (read_byte c x q) = qt_scanned q"
  by (simp_all add: read_byte_def Let_def)

text \<open>Reading positions of a text is reading its bytes.\<close>

fun read_bytes :: "nat \<Rightarrow> string \<Rightarrow> quote_tracker \<Rightarrow> quote_tracker" where
  "read_bytes pos [] q = q"
| "read_bytes pos (x # xs) q = read_bytes (Suc pos) xs (read_byte pos x q)"

lemma read_bytes_append: "read_bytes pos (a @ b) q = read_bytes (pos + length a) b (read_bytes pos a q)"
  by (induction a arbitrary: pos q) simp_all

lemma read_bytes_fields [simp]:
  "read_bytes pos xs (q\<lparr>qt_text := t\<rparr>) = (read_bytes pos xs q)\<lparr>qt_text := t\<rparr>"
  "read_bytes pos xs (q\<lparr>qt_scanned := n\<rparr>) = (read_bytes pos xs q)\<lparr>qt_scanned := n\<rparr>"
  "qt_text (read_bytes pos xs q) = qt_text q" "qt_scanned (read_bytes pos xs q) = qt_scanned q"
  by (induction xs arbitrary: pos q) simp_all

lemma foldl_read_at:
  "drop pos (qt_text q) = xs \<Longrightarrow> pos \<le> length (qt_text q) \<Longrightarrow>
   foldl read_at q [pos..<length (qt_text q)] = read_bytes pos xs q"
proof (induction xs arbitrary: pos q)
  case Nil
  then show ?case by simp
next
  case (Cons x xs)
  then have less: "pos < length (qt_text q)" by (metis drop_all linorder_not_le list.discI)
  then have x: "qt_text q ! pos = x" "drop (Suc pos) (qt_text q) = xs"
    using Cons.prems(1) Cons_nth_drop_Suc[OF less] by simp_all
  have "foldl read_at (read_byte pos x q) [Suc pos..<length (qt_text (read_byte pos x q))] =
      read_bytes (Suc pos) xs (read_byte pos x q)"
    using x(2) less by (intro Cons.IH) simp_all
  moreover have "read_at q pos = read_byte pos x q" by (simp add: read_at_def x(1))
  ultimately show ?case using less by (simp add: upt_conv_Cons)
qed

lemma append_piece_bytes:
  "append_piece q piece = (read_bytes (length (qt_text q)) piece q)
     \<lparr>qt_text := qt_text q @ piece, qt_scanned := qt_scanned q + length piece\<rparr>"
proof -
  let ?q = "q\<lparr>qt_text := qt_text q @ piece\<rparr>"
  have "foldl read_at ?q [length (qt_text q)..<length (qt_text ?q)] = read_bytes (length (qt_text q)) piece ?q"
    by (rule foldl_read_at) simp_all
  then show ?thesis by (simp add: append_piece_def Let_def)
qed

lemma append_piece_empty: "append_piece q [] = q"
  by (simp add: append_piece_bytes)

lemma append_piece_append: "append_piece q (a @ b) = append_piece (append_piece q a) b"
  by (simp add: append_piece_bytes read_bytes_append)

lemma read_bytes_ok: "tracker_ok q pos \<Longrightarrow> tracker_ok (read_bytes pos xs q) (pos + length xs)"
proof (induction xs arbitrary: pos q)
  case (Cons x xs)
  from Cons.IH[OF read_byte_ok[OF Cons.prems]] show ?case by simp
qed simp

definition well_tracked :: "quote_tracker \<Rightarrow> bool" where
  "well_tracked q \<longleftrightarrow> tracker_ok q (length (qt_text q))"

lemma append_piece_ok: "well_tracked q \<Longrightarrow> well_tracked (append_piece q piece)"
  using read_bytes_ok[of q "length (qt_text q)" piece]
  by (simp add: well_tracked_def append_piece_bytes)

lemma reset_ok: "well_tracked (reset q t start)"
  unfolding reset_def Let_def
  by (intro append_piece_ok) (simp add: well_tracked_def tracker_ok_def spans_ok_def)

text \<open>The tracker emits nothing; as a transducer its output is empty.\<close>

definition push_quotes :: "quote_tracker \<Rightarrow> string \<Rightarrow> unit list \<times> quote_tracker" where
  "push_quotes q piece = ([], append_piece q piece)"

interpretation qtr: chunked well_tracked push_quotes
  by unfold_locales
    (simp_all add: push_quotes_def append_piece_ok append_piece_empty append_piece_append join_push_def)

section \<open>Properties\<close>

text \<open>After a \<open>Reset\<close> and any number of \<open>Append\<close>s the recorded spans are in order, apart and within the
  text, so the binary search of \<open>QuotedAt\<close> and \<open>UnclosedAt\<close> is defined and a position is quoted exactly
  when a completed span holds it or a delimiter that ends the text closes the open one, and unclosed
  exactly when it is not quoted and lies in what is still open or was left unfinished.\<close>

theorem quoted_positions_exact:
  assumes "q = snd (feed push_quotes (reset q0 t start) pieces)"
  shows "spans_ok (qt_spans q) (length (qt_text q)) \<and> spans_ok (qt_unfinished q) (length (qt_text q)) \<and>
    (quoted_at q position \<longleftrightarrow> (\<exists>s\<in>set (qt_spans q). fst s \<le> position \<and> position < snd s) \<or> provisional q position) \<and>
    (unclosed_at q position \<longleftrightarrow> \<not> quoted_at q position \<and>
       ((qt_fence_size q > 0 \<and> position \<ge> qt_fence_begin q) \<or> (qt_inline_size q > 0 \<and> position \<ge> qt_inline_begin q) \<or>
        (\<exists>s\<in>set (qt_unfinished q). fst s \<le> position \<and> position < snd s)))"
proof -
  have "well_tracked q" unfolding assms by (rule qtr.feed_ok[OF reset_ok])
  then have ok: "spans_ok (qt_spans q) (length (qt_text q))" "spans_ok (qt_unfinished q) (length (qt_text q))"
    using tracker_limits by (simp_all add: well_tracked_def)
  then show ?thesis
    by (auto simp: quoted_at_def unclosed_at_def in_span_iff[OF ok(1)] in_span_iff[OF ok(2)])
qed


theorem quoted_positions_exact_witness:
  "spans_ok (qt_spans (snd (feed push_quotes (reset new_tracker ''a'' 0) [''b'']))) 2"
proof -
  let ?q = "snd (feed push_quotes (reset new_tracker ''a'' 0) [''b''])"
  have "length (qt_text ?q) = 2"
    by (simp add: push_quotes_def reset_def append_piece_bytes new_tracker_def)
  with quoted_positions_exact[OF refl, of new_tracker "''a''" 0 "[''b'']" 0] show ?thesis by simp
qed


end
