(* ===== verification/Json.thy ===== *)
theory Json
  imports Utf8_Decoder
begin

text \<open>
  The JSON values of the HTTP API: \<open>Value\<close> of \<open>src/core/json.hpp\<close>, its accessors and its serializer. A
  \<open>double\<close> is its binary64 bit pattern; whether it is an integer, and which, is computed from the
  pattern. The shortest decimal spelling of other numbers (\<open>std::to_chars\<close> of a \<open>double\<close>) is the
  parameter \<open>to_chars\<close>. An exception is \<open>None\<close>.
\<close>

section \<open>Binary64\<close>

type_synonym f64 = u64

definition f64_exponent :: "f64 \<Rightarrow> nat" where "f64_exponent w = unat w div 2 ^ 52 mod 2 ^ 11"
definition f64_mantissa :: "f64 \<Rightarrow> nat" where "f64_mantissa w = unat w mod 2 ^ 52"
definition f64_negative :: "f64 \<Rightarrow> bool" where "f64_negative w \<longleftrightarrow> 2 ^ 63 \<le> unat w"
definition f64_finite :: "f64 \<Rightarrow> bool" where "f64_finite w \<longleftrightarrow> f64_exponent w \<noteq> 2047"

text \<open>A finite number is \<open>f64_digits * 2 ^ (f64_scale - 1075)\<close> with its sign.\<close>

definition f64_digits :: "f64 \<Rightarrow> nat" where
  "f64_digits w = (if f64_exponent w = 0 then f64_mantissa w else 2 ^ 52 + f64_mantissa w)"

definition f64_scale :: "f64 \<Rightarrow> nat" where
  "f64_scale w = (if f64_exponent w = 0 then 1 else f64_exponent w)"

text \<open>The absolute value of a finite number when it is an integer: \<open>std::trunc(v) == v\<close>.\<close>

definition f64_magnitude :: "f64 \<Rightarrow> nat option" where
  "f64_magnitude w =
     (if f64_scale w \<ge> 1075 then Some (f64_digits w * 2 ^ (f64_scale w - 1075))
      else if f64_digits w mod 2 ^ (1075 - f64_scale w) = 0
      then Some (f64_digits w div 2 ^ (1075 - f64_scale w)) else None)"

section \<open>Values\<close>

datatype json =
    JNull
  | JBool bool
  | JNumber f64
  | JString string
  | JArray "json list"
  | JObject "(string \<times> json) list"

section \<open>Objects\<close>

fun is_object :: "json \<Rightarrow> bool" where
  "is_object (JObject ms) = True"
| "is_object v = False"

fun members_of :: "json \<Rightarrow> (string \<times> json) list" where
  "members_of (JObject ms) = ms"
| "members_of v = []"

text \<open>\<open>operator[]\<close> turns anything else into an object, and adds a missing member with a null value.\<close>

definition index_member :: "string \<Rightarrow> json \<Rightarrow> json" where
  "index_member key v =
     (let ms = members_of v
      in if key \<in> fst ` set ms then JObject ms else JObject (ms @ [(key, JNull)]))"

definition find_member :: "string \<Rightarrow> json \<Rightarrow> json option" where
  "find_member key v = map_of (members_of v) key"

definition has_member :: "string \<Rightarrow> json \<Rightarrow> bool" where
  "has_member key v \<longleftrightarrow> find_member key v \<noteq> None"

definition append_member :: "string \<Rightarrow> json \<Rightarrow> json \<Rightarrow> json" where
  "append_member key x v = JObject (members_of v @ [(key, x)])"

section \<open>Typed access\<close>

fun as_bool :: "bool \<Rightarrow> json \<Rightarrow> bool" where
  "as_bool def (JBool b) = b"
| "as_bool def v = def"

fun as_double :: "f64 \<Rightarrow> json \<Rightarrow> f64" where
  "as_double def (JNumber d) = d"
| "as_double def v = def"

fun as_size :: "size_t \<Rightarrow> json \<Rightarrow> size_t" where
  "as_size def (JNumber d) =
     (if \<not> f64_finite d \<or> (f64_negative d \<and> f64_digits d \<noteq> 0) then def
      else case f64_magnitude d of
             None \<Rightarrow> def
           | Some n \<Rightarrow> if n \<ge> 2 ^ 64 then def else word_of_nat n)"
| "as_size def v = def"

fun get_str :: "string \<Rightarrow> json \<Rightarrow> string" where
  "get_str def (JString s) = s"
| "get_str def v = def"

definition str_of :: "json \<Rightarrow> string" where
  "str_of v = get_str '''' v"

definition member_str :: "string \<Rightarrow> string \<Rightarrow> json \<Rightarrow> string" where
  "member_str key def v = (case find_member key v of None \<Rightarrow> def | Some x \<Rightarrow> get_str def x)"

definition member_size :: "string \<Rightarrow> size_t \<Rightarrow> json \<Rightarrow> size_t" where
  "member_size key def v = (case find_member key v of None \<Rightarrow> def | Some x \<Rightarrow> as_size def x)"

definition member_double :: "string \<Rightarrow> f64 \<Rightarrow> json \<Rightarrow> f64" where
  "member_double key def v = (case find_member key v of None \<Rightarrow> def | Some x \<Rightarrow> as_double def x)"

section \<open>Arrays\<close>

fun items_of :: "json \<Rightarrow> json list" where
  "items_of (JArray xs) = xs"
| "items_of v = []"

definition push_item :: "json \<Rightarrow> json \<Rightarrow> json" where
  "push_item x v = JArray (items_of v @ [x])"

fun json_size :: "json \<Rightarrow> nat" where
  "json_size (JArray xs) = length xs"
| "json_size (JObject ms) = length ms"
| "json_size v = 0"

section \<open>Serializing\<close>

definition hex_digit :: "nat \<Rightarrow> char" where
  "hex_digit n = (if n < 10 then char_of (48 + n) else char_of (87 + n))"

definition quote :: char where "quote = CHR 0x22"
definition backslash :: char where "backslash = CHR 0x5C"

definition escape_char :: "char \<Rightarrow> string" where
  "escape_char c =
     (if c = quote then [backslash, quote]
      else if c = backslash then [backslash, backslash]
      else if c = CHR 0x08 then [backslash, CHR ''b'']
      else if c = CHR 0x0C then [backslash, CHR ''f'']
      else if c = CHR 0x0A then [backslash, CHR ''n'']
      else if c = CHR 0x0D then [backslash, CHR ''r'']
      else if c = CHR 0x09 then [backslash, CHR ''t'']
      else if (of_char c :: nat) < 0x20
      then [backslash, CHR ''u'', CHR ''0'', CHR ''0'', hex_digit (of_char c div 16), hex_digit (of_char c mod 16)]
      else [c])"

definition escape :: "string \<Rightarrow> string" where
  "escape s = concat (map escape_char s)"

definition int_chars :: "bool \<Rightarrow> nat \<Rightarrow> string" where
  "int_chars negative n = (if negative \<and> n \<noteq> 0 then [CHR ''-''] else []) @ digits_of_nat n"

definition k_exact_integers :: nat where "k_exact_integers = 2 ^ 53"

definition number_chars :: "(f64 \<Rightarrow> string) \<Rightarrow> f64 \<Rightarrow> string" where
  "number_chars to_chars d =
     (case f64_magnitude d of
        Some n \<Rightarrow>
          if n \<le> k_exact_integers \<and> \<not> (n = 0 \<and> f64_negative d) then int_chars (f64_negative d) n
          else to_chars d
      | None \<Rightarrow> to_chars d)"

definition comma :: "bool \<Rightarrow> string" where "comma spaced = (if spaced then '', '' else '','')"
definition colon :: "bool \<Rightarrow> string" where "colon spaced = (if spaced then '': '' else '':'')"

text \<open>The two loops write a separator before every entry but the first (\<open>initial\<close>).\<close>

fun dump_value :: "(f64 \<Rightarrow> string) \<Rightarrow> bool \<Rightarrow> json \<Rightarrow> string option"
  and dump_items :: "(f64 \<Rightarrow> string) \<Rightarrow> bool \<Rightarrow> bool \<Rightarrow> json list \<Rightarrow> string option"
  and dump_members :: "(f64 \<Rightarrow> string) \<Rightarrow> bool \<Rightarrow> bool \<Rightarrow> (string \<times> json) list \<Rightarrow> string option" where
  "dump_value to_chars spaced JNull = Some ''null''"
| "dump_value to_chars spaced (JBool b) = Some (if b then ''true'' else ''false'')"
| "dump_value to_chars spaced (JNumber d) = (if \<not> f64_finite d then None else Some (number_chars to_chars d))"
| "dump_value to_chars spaced (JString s) = Some ([quote] @ escape s @ [quote])"
| "dump_value to_chars spaced (JArray xs) =
     map_option (\<lambda>t. ''['' @ t @ '']'') (dump_items to_chars spaced True xs)"
| "dump_value to_chars spaced (JObject ms) =
     map_option (\<lambda>t. ''{'' @ t @ ''}'') (dump_members to_chars spaced True ms)"
| "dump_items to_chars spaced initial [] = Some []"
| "dump_items to_chars spaced initial (x # xs) =
     (case dump_value to_chars spaced x of
        None \<Rightarrow> None
      | Some t \<Rightarrow> map_option (\<lambda>rest. (if initial then [] else comma spaced) @ t @ rest)
                    (dump_items to_chars spaced False xs))"
| "dump_members to_chars spaced initial [] = Some []"
| "dump_members to_chars spaced initial ((key, x) # ms) =
     (case dump_value to_chars spaced x of
        None \<Rightarrow> None
      | Some t \<Rightarrow> map_option (\<lambda>rest. (if initial then [] else comma spaced)
                      @ [quote] @ escape key @ [quote] @ colon spaced @ t @ rest)
                    (dump_members to_chars spaced False ms))"

definition dump :: "(f64 \<Rightarrow> string) \<Rightarrow> json \<Rightarrow> string option" where
  "dump to_chars v = dump_value to_chars False v"

definition tojson :: "(f64 \<Rightarrow> string) \<Rightarrow> json \<Rightarrow> string option" where
  "tojson to_chars v = dump_value to_chars True v"

end
