(* ===== verification/Json_Parser.thy ===== *)
theory Json_Parser
  imports Json
begin

text \<open>
  The recursive-descent parser of \<open>src/core/json.hpp\<close>. The position \<open>i\<close> in the text is the suffix still
  to be read. \<open>fail\<close> is \<open>Inl (Fail message)\<close>. The mutual recursion of values, members and items carries
  fuel, one unit a call; \<open>OutOfFuel\<close> is shown never to happen with the fuel \<open>parse\<close> starts with.
  \<open>std::from_chars\<close> for \<open>double\<close> on a whole token is the parameter \<open>from_chars\<close>. Hexadecimal escapes are
  computed on natural numbers: the code's shifts and ORs of disjoint bits of values below 2^21.
\<close>

datatype parse_error = Fail string | OutOfFuel

type_synonym 'a parsed = "parse_error + 'a \<times> string"

fun is_ws :: "char \<Rightarrow> bool" where
  "is_ws c = (c = CHR '' '' \<or> c = CHR 0x09 \<or> c = CHR 0x0A \<or> c = CHR 0x0D)"

definition skip_ws :: "string \<Rightarrow> string" where "skip_ws t = dropWhile is_ws t"

section \<open>Strings\<close>

definition hex_value :: "char \<Rightarrow> nat option" where
  "hex_value h =
     (let n = of_char h
      in if 48 \<le> n \<and> n \<le> 57 then Some (n - 48)
         else if 97 \<le> n \<and> n \<le> 102 then Some (n - 97 + 10)
         else if 65 \<le> n \<and> n \<le> 70 then Some (n - 65 + 10) else None)"

fun hex_loop :: "nat \<Rightarrow> nat \<Rightarrow> string \<Rightarrow> nat parsed" where
  "hex_loop 0 code t = Inr (code, t)"
| "hex_loop (Suc k) code [] = Inl (Fail ''bad hex'')"
| "hex_loop (Suc k) code (h # t) =
     (case hex_value h of None \<Rightarrow> Inl (Fail ''bad hex'') | Some v \<Rightarrow> hex_loop k (code * 16 + v) t)"

definition parse_hex_quad :: "string \<Rightarrow> nat parsed" where
  "parse_hex_quad t = (if length t < 4 then Inl (Fail (''bad '' @ [backslash, CHR ''u''])) else hex_loop 4 0 t)"

definition utf8_of_code :: "nat \<Rightarrow> string" where
  "utf8_of_code code =
     (if code < 0x80 then [char_of code]
      else if code < 0x800 then [char_of (0xC0 + code div 64), char_of (0x80 + code mod 64)]
      else if code < 0x10000
      then [char_of (0xE0 + code div 4096), char_of (0x80 + code div 64 mod 64), char_of (0x80 + code mod 64)]
      else [char_of (0xF0 + code div 262144), char_of (0x80 + code div 4096 mod 64),
            char_of (0x80 + code div 64 mod 64), char_of (0x80 + code mod 64)])"

definition parse_unicode :: "string \<Rightarrow> string parsed" where
  "parse_unicode t =
     (case parse_hex_quad t of
        Inl e \<Rightarrow> Inl e
      | Inr (code, t) \<Rightarrow>
          if 0xD800 \<le> code \<and> code \<le> 0xDBFF then
            (if take 2 t \<noteq> [backslash, CHR ''u''] then Inl (Fail ''unpaired high surrogate'')
             else case parse_hex_quad (drop 2 t) of
                    Inl e \<Rightarrow> Inl e
                  | Inr (low, t) \<Rightarrow>
                      if low < 0xDC00 \<or> low > 0xDFFF then Inl (Fail ''invalid low surrogate'')
                      else Inr (utf8_of_code (0x10000 + (code - 0xD800) * 1024 + (low - 0xDC00)), t))
          else if 0xDC00 \<le> code \<and> code \<le> 0xDFFF then Inl (Fail ''unpaired low surrogate'')
          else Inr (utf8_of_code code, t))"

definition simple_escape :: "char \<Rightarrow> char option" where
  "simple_escape e =
     (if e = quote then Some quote else if e = backslash then Some backslash
      else if e = CHR ''/'' then Some (CHR ''/'') else if e = CHR ''b'' then Some (CHR 0x08)
      else if e = CHR ''f'' then Some (CHR 0x0C) else if e = CHR ''n'' then Some (CHR 0x0A)
      else if e = CHR ''r'' then Some (CHR 0x0D) else if e = CHR ''t'' then Some (CHR 0x09) else None)"

definition parse_escape :: "string \<Rightarrow> string parsed" where
  "parse_escape t =
     (case t of
        [] \<Rightarrow> Inl (Fail ''bad escape'')
      | e # t \<Rightarrow>
          (case simple_escape e of
             Some c \<Rightarrow> Inr ([c], t)
           | None \<Rightarrow> if e = CHR ''u'' then parse_unicode t else Inl (Fail ''bad escape'')))"

text \<open>The bytes of a multi-byte character after its lead byte: the same checks as the streaming
  decoder's.\<close>

definition tail_ok :: "u8 \<Rightarrow> string \<Rightarrow> bool" where
  "tail_ok lead bytes \<longleftrightarrow> (\<forall>j\<in>set [1..<length bytes + 1]. \<not> bad_byte lead j (byte_of_char (bytes ! (j - 1))))"

definition parse_multibyte :: "char \<Rightarrow> string \<Rightarrow> string parsed" where
  "parse_multibyte c t =
     (let lead = byte_of_char c; len = sequence_length lead
      in if len = 0 \<or> len - 1 > length t then Inl (Fail ''invalid UTF-8'')
         else if \<not> tail_ok lead (take (len - 1) t) then Inl (Fail ''invalid UTF-8'')
         else Inr (c # take (len - 1) t, drop (len - 1) t))"

lemma hex_loop_length: "hex_loop k code t = Inr (v, rest) \<Longrightarrow> length t = length rest + k"
  by (induction k code t rule: hex_loop.induct) (auto split: option.splits)

lemma parse_hex_quad_length: "parse_hex_quad t = Inr (v, rest) \<Longrightarrow> length t = length rest + 4"
  by (auto simp: parse_hex_quad_def hex_loop_length split: if_splits)

lemma parse_unicode_length: "parse_unicode t = Inr (bs, rest) \<Longrightarrow> length rest < length t"
  by (auto simp: parse_unicode_def dest!: parse_hex_quad_length split: sum.splits if_splits)

lemma parse_escape_length: "parse_escape t = Inr (bs, rest) \<Longrightarrow> length rest < length t"
  by (auto simp: parse_escape_def dest!: parse_unicode_length split: list.splits option.splits if_splits)

lemma parse_multibyte_length: "parse_multibyte c t = Inr (bs, rest) \<Longrightarrow> length rest \<le> length t"
  by (auto simp: parse_multibyte_def Let_def split: if_splits)

text \<open>The characters after the opening quote.\<close>

function parse_chars :: "string \<Rightarrow> string \<Rightarrow> string parsed" where
  "parse_chars out [] = Inl (Fail ''unterminated string'')"
| "parse_chars out (c # t) =
     (if c = quote then Inr (out, t)
      else if c = backslash then
        (case parse_escape t of Inl e \<Rightarrow> Inl e | Inr (bs, rest) \<Rightarrow> parse_chars (out @ bs) rest)
      else if byte_of_char c < 0x20 then Inl (Fail ''unescaped control character'')
      else if byte_of_char c < 0x80 then parse_chars (out @ [c]) t
      else (case parse_multibyte c t of Inl e \<Rightarrow> Inl e | Inr (bs, rest) \<Rightarrow> parse_chars (out @ bs) rest))"
  by pat_completeness auto
termination
  by (relation "measure (\<lambda>(out, t). length t)")
    (auto dest: parse_escape_length parse_multibyte_length intro: le_imp_less_Suc less_SucI)

definition parse_string :: "string \<Rightarrow> string parsed" where
  "parse_string t = parse_chars [] (drop 1 t)"

section \<open>Literals and numbers\<close>

definition parse_bool :: "string \<Rightarrow> json parsed" where
  "parse_bool t =
     (if take 4 t = ''true'' then Inr (JBool True, drop 4 t)
      else if take 5 t = ''false'' then Inr (JBool False, drop 5 t)
      else Inl (Fail ''bad literal''))"

definition parse_null :: "string \<Rightarrow> json parsed" where
  "parse_null t = (if take 4 t = ''null'' then Inr (JNull, drop 4 t) else Inl (Fail ''bad literal''))"

definition is_digit :: "char \<Rightarrow> bool" where
  "is_digit c \<longleftrightarrow> (48::nat) \<le> of_char c \<and> (of_char c :: nat) \<le> 57"

definition starts :: "(char \<Rightarrow> bool) \<Rightarrow> string \<Rightarrow> bool" where
  "starts P t \<longleftrightarrow> (case t of [] \<Rightarrow> False | c # _ \<Rightarrow> P c)"

text \<open>Each part of a number leaves the rest of the text.\<close>

definition skip_integer :: "string \<Rightarrow> string option" where
  "skip_integer t =
     (case t of
        [] \<Rightarrow> None
      | c # rest \<Rightarrow>
          if c = CHR ''0'' then (if starts is_digit rest then None else Some rest)
          else if is_digit c then Some (dropWhile is_digit t) else None)"

definition skip_fraction :: "string \<Rightarrow> string option" where
  "skip_fraction t =
     (if starts (\<lambda>c. c = CHR ''.'') t
      then (let t = drop 1 t in if \<not> starts is_digit t then None else Some (dropWhile is_digit t))
      else Some t)"

definition skip_exponent :: "string \<Rightarrow> string option" where
  "skip_exponent t =
     (if starts (\<lambda>c. c = CHR ''e'' \<or> c = CHR ''E'') t
      then (let t = drop 1 t;
                t = (if starts (\<lambda>c. c = CHR ''-'' \<or> c = CHR ''+'') t then drop 1 t else t)
            in if \<not> starts is_digit t then None else Some (dropWhile is_digit t))
      else Some t)"

definition skip_number :: "string \<Rightarrow> string option" where
  "skip_number t =
     (case skip_integer (if starts (\<lambda>c. c = CHR ''-'') t then drop 1 t else t) of
        None \<Rightarrow> None
      | Some t \<Rightarrow> (case skip_fraction t of None \<Rightarrow> None | Some t \<Rightarrow> skip_exponent t))"

definition parse_number :: "(string \<Rightarrow> f64 option) \<Rightarrow> string \<Rightarrow> json parsed" where
  "parse_number from_chars t =
     (case skip_number t of
        None \<Rightarrow> Inl (Fail ''bad number'')
      | Some rest \<Rightarrow>
          (case from_chars (take (length t - length rest) t) of
             None \<Rightarrow> Inl (Fail ''bad number'')
           | Some d \<Rightarrow> if \<not> f64_finite d then Inl (Fail ''bad number'') else Inr (JNumber d, rest)))"

section \<open>Values\<close>

text \<open>\<open>parse_members\<close> and \<open>parse_items\<close> are the loops of \<open>parse_object\<close> and \<open>parse_array\<close>, with the entries
  collected so far.\<close>

fun parse_value :: "(string \<Rightarrow> f64 option) \<Rightarrow> nat \<Rightarrow> nat \<Rightarrow> string \<Rightarrow> json parsed"
  and parse_members ::
    "(string \<Rightarrow> f64 option) \<Rightarrow> nat \<Rightarrow> nat \<Rightarrow> (string \<times> json) list \<Rightarrow> string \<Rightarrow> json parsed"
  and parse_items :: "(string \<Rightarrow> f64 option) \<Rightarrow> nat \<Rightarrow> nat \<Rightarrow> json list \<Rightarrow> string \<Rightarrow> json parsed" where
  "parse_value from_chars 0 depth t = Inl OutOfFuel"
| "parse_value from_chars (Suc fuel) depth t =
     (case skip_ws t of
        [] \<Rightarrow> Inl (Fail ''unexpected end of input'')
      | c # rest \<Rightarrow>
          if (c = CHR ''{'' \<or> c = CHR ''['') \<and> depth \<ge> 128
          then Inl (Fail ''maximum nesting depth exceeded'')
          else if c = CHR ''{'' then
            (if starts (\<lambda>c. c = CHR ''}'') (skip_ws rest) then Inr (JObject [], drop 1 (skip_ws rest))
             else parse_members from_chars fuel (depth + 1) [] (skip_ws rest))
          else if c = CHR ''['' then
            (if starts (\<lambda>c. c = CHR '']'') (skip_ws rest) then Inr (JArray [], drop 1 (skip_ws rest))
             else parse_items from_chars fuel (depth + 1) [] (skip_ws rest))
          else if c = quote then
            (case parse_string (c # rest) of Inl e \<Rightarrow> Inl e | Inr (s, t) \<Rightarrow> Inr (JString s, t))
          else if c = CHR ''t'' \<or> c = CHR ''f'' then parse_bool (c # rest)
          else if c = CHR ''n'' then parse_null (c # rest)
          else parse_number from_chars (c # rest))"
| "parse_members from_chars 0 depth ms t = Inl OutOfFuel"
| "parse_members from_chars (Suc fuel) depth ms t =
     (let t = skip_ws t
      in if \<not> starts (\<lambda>c. c = quote) t then Inl (Fail ''expected object key string'')
         else case parse_string t of
           Inl e \<Rightarrow> Inl e
         | Inr (key, t) \<Rightarrow>
             let t = skip_ws t
             in if \<not> starts (\<lambda>c. c = CHR '':'') t then Inl (Fail ''expected ':' after key'')
                else if key \<in> fst ` set ms then Inl (Fail ''duplicate object key'')
                else case parse_value from_chars fuel depth (drop 1 t) of
                  Inl e \<Rightarrow> Inl e
                | Inr (v, t) \<Rightarrow>
                    let t = skip_ws t; ms = ms @ [(key, v)]
                    in if t = [] then Inl (Fail ''unterminated object'')
                       else if starts (\<lambda>c. c = CHR '','') t then parse_members from_chars fuel depth ms (drop 1 t)
                       else if starts (\<lambda>c. c = CHR ''}'') t then Inr (JObject ms, drop 1 t)
                       else Inl (Fail ''expected ',' or '}' in object''))"
| "parse_items from_chars 0 depth xs t = Inl OutOfFuel"
| "parse_items from_chars (Suc fuel) depth xs t =
     (case parse_value from_chars fuel depth t of
        Inl e \<Rightarrow> Inl e
      | Inr (v, t) \<Rightarrow>
          let t = skip_ws t; xs = xs @ [v]
          in if t = [] then Inl (Fail ''unterminated array'')
             else if starts (\<lambda>c. c = CHR '','') t then parse_items from_chars fuel depth xs (drop 1 t)
             else if starts (\<lambda>c. c = CHR '']'') t then Inr (JArray xs, drop 1 t)
             else Inl (Fail ''expected ',' or ']' in array''))"

definition parse :: "(string \<Rightarrow> f64 option) \<Rightarrow> string \<Rightarrow> parse_error + json" where
  "parse from_chars t =
     (case parse_value from_chars (2 * length t + 1) 0 t of
        Inl e \<Rightarrow> Inl e
      | Inr (v, rest) \<Rightarrow> if skip_ws rest \<noteq> [] then Inl (Fail ''trailing input'') else Inr v)"

end
