(* ===== verification/Json_Grammar.thy ===== *)
theory Json_Grammar
  imports Json_Parser
begin

text \<open>
  The grammar of RFC 8259 as inductive relations between a value and its spellings, with the limits the
  parser documents (128 nested containers, no duplicate key, finite numbers), and the equivalence of the
  recursive-descent parser of \<open>Json_Parser\<close> with it: the lemmas named \<open>_sound\<close> say that what a function
  consumes is in the grammar, those named \<open>_complete\<close> that it consumes every word of the grammar.
\<close>

section \<open>The grammar\<close>

definition blank :: "string \<Rightarrow> bool" where "blank w \<longleftrightarrow> list_all is_ws w"

definition hex_quad :: "string \<Rightarrow> nat \<Rightarrow> bool" where
  "hex_quad h code \<longleftrightarrow>
     (\<exists>a b c d. map hex_value h = [Some a, Some b, Some c, Some d] \<and> code = 4096 * a + 256 * b + 16 * c + d)"

definition high_surrogate :: "nat \<Rightarrow> bool" where "high_surrogate n \<longleftrightarrow> 0xD800 \<le> n \<and> n \<le> 0xDBFF"
definition low_surrogate :: "nat \<Rightarrow> bool" where "low_surrogate n \<longleftrightarrow> 0xDC00 \<le> n \<and> n \<le> 0xDFFF"

text \<open>The characters of a string, and their spelling between the quotes.\<close>

inductive string_chars :: "string \<Rightarrow> string \<Rightarrow> bool" where
  Empty: "string_chars [] []"
| Plain: "scalar (bytes_of_string c) \<Longrightarrow> c \<noteq> [quote] \<Longrightarrow> c \<noteq> [backslash] \<Longrightarrow> 0x20 \<le> byte_of_char (hd c) \<Longrightarrow>
    string_chars s t \<Longrightarrow> string_chars (c @ s) (c @ t)"
| Short: "simple_escape e = Some c \<Longrightarrow> string_chars s t \<Longrightarrow> string_chars (c # s) (backslash # e # t)"
| Unicode: "hex_quad h n \<Longrightarrow> \<not> high_surrogate n \<Longrightarrow> \<not> low_surrogate n \<Longrightarrow> string_chars s t \<Longrightarrow>
    string_chars (utf8_of_code n @ s) (backslash # CHR ''u'' # h @ t)"
| Pair: "hex_quad h n \<Longrightarrow> high_surrogate n \<Longrightarrow> hex_quad l m \<Longrightarrow> low_surrogate m \<Longrightarrow> string_chars s t \<Longrightarrow>
    string_chars (utf8_of_code (0x10000 + (n - 0xD800) * 1024 + (m - 0xDC00)) @ s)
      (backslash # CHR ''u'' # h @ backslash # CHR ''u'' # l @ t)"

definition digits :: "string \<Rightarrow> bool" where "digits ds \<longleftrightarrow> ds \<noteq> [] \<and> list_all is_digit ds"

definition integer_part :: "string \<Rightarrow> bool" where
  "integer_part u \<longleftrightarrow> u = ''0'' \<or> digits u \<and> hd u \<noteq> CHR ''0''"

definition fraction_part :: "string \<Rightarrow> bool" where
  "fraction_part u \<longleftrightarrow> u = [] \<or> (\<exists>ds. u = CHR ''.'' # ds \<and> digits ds)"

definition exponent_part :: "string \<Rightarrow> bool" where
  "exponent_part u \<longleftrightarrow> u = [] \<or>
     (\<exists>e sign ds. u = e # sign @ ds \<and> e \<in> {CHR ''e'', CHR ''E''} \<and> sign \<in> {[], ''+'', ''-''} \<and> digits ds)"

definition number_token :: "string \<Rightarrow> bool" where
  "number_token u \<longleftrightarrow> (\<exists>sign int frac expo. u = sign @ int @ frac @ expo \<and> sign \<in> {[], ''-''} \<and>
     integer_part int \<and> fraction_part frac \<and> exponent_part expo)"

text \<open>Spellings start with white space; \<open>n\<close> containers may be opened. \<open>json_members\<close> and \<open>json_items\<close>
  spell what stands between the brackets of a container that is not empty.\<close>

inductive json_value :: "(string \<Rightarrow> f64 option) \<Rightarrow> nat \<Rightarrow> json \<Rightarrow> string \<Rightarrow> bool"
  and json_members :: "(string \<Rightarrow> f64 option) \<Rightarrow> nat \<Rightarrow> (string \<times> json) list \<Rightarrow> string \<Rightarrow> bool"
  and json_items :: "(string \<Rightarrow> f64 option) \<Rightarrow> nat \<Rightarrow> json list \<Rightarrow> string \<Rightarrow> bool"
  for from_chars :: "string \<Rightarrow> f64 option" where
  Null: "blank w \<Longrightarrow> json_value from_chars n JNull (w @ ''null'')"
| Truth: "blank w \<Longrightarrow> json_value from_chars n (JBool True) (w @ ''true'')"
| Falsity: "blank w \<Longrightarrow> json_value from_chars n (JBool False) (w @ ''false'')"
| Number: "blank w \<Longrightarrow> number_token u \<Longrightarrow> from_chars u = Some d \<Longrightarrow> f64_finite d \<Longrightarrow>
    json_value from_chars n (JNumber d) (w @ u)"
| Text: "blank w \<Longrightarrow> string_chars s t \<Longrightarrow> json_value from_chars n (JString s) (w @ quote # t @ [quote])"
| No_Items: "blank w \<Longrightarrow> blank w' \<Longrightarrow> json_value from_chars (Suc n) (JArray []) (w @ ''['' @ w' @ '']'')"
| Items: "blank w \<Longrightarrow> json_items from_chars n xs u \<Longrightarrow>
    json_value from_chars (Suc n) (JArray xs) (w @ ''['' @ u @ '']'')"
| No_Members: "blank w \<Longrightarrow> blank w' \<Longrightarrow> json_value from_chars (Suc n) (JObject []) (w @ ''{'' @ w' @ ''}'')"
| Members: "blank w \<Longrightarrow> json_members from_chars n ms u \<Longrightarrow> distinct (map fst ms) \<Longrightarrow>
    json_value from_chars (Suc n) (JObject ms) (w @ ''{'' @ u @ ''}'')"
| Last_Item: "json_value from_chars n x u \<Longrightarrow> blank w \<Longrightarrow> json_items from_chars n [x] (u @ w)"
| More_Items: "json_value from_chars n x u \<Longrightarrow> blank w \<Longrightarrow> json_items from_chars n xs t \<Longrightarrow>
    json_items from_chars n (x # xs) (u @ w @ '','' @ t)"
| Last_Member: "blank w1 \<Longrightarrow> string_chars key k \<Longrightarrow> blank w2 \<Longrightarrow> json_value from_chars n x u \<Longrightarrow> blank w3 \<Longrightarrow>
    json_members from_chars n [(key, x)] (w1 @ quote # k @ quote # w2 @ '':'' @ u @ w3)"
| More_Members: "blank w1 \<Longrightarrow> string_chars key k \<Longrightarrow> blank w2 \<Longrightarrow> json_value from_chars n x u \<Longrightarrow> blank w3 \<Longrightarrow>
    json_members from_chars n ms t \<Longrightarrow>
    json_members from_chars n ((key, x) # ms) (w1 @ quote # k @ quote # w2 @ '':'' @ u @ w3 @ '','' @ t)"

section \<open>White space\<close>

lemma skip_ws_split: obtains w where "t = w @ skip_ws t" "blank w"
proof
  show "t = takeWhile is_ws t @ skip_ws t" by (simp add: skip_ws_def)
  show "blank (takeWhile is_ws t)" by (auto simp: blank_def list_all_iff dest: set_takeWhileD)
qed

lemma skip_ws_blank: "blank w \<Longrightarrow> skip_ws (w @ t) = skip_ws t"
  unfolding skip_ws_def blank_def list_all_iff by (rule dropWhile_append2) auto

lemma skip_ws_cons: "\<not> is_ws c \<Longrightarrow> skip_ws (c # t) = c # t"
  by (simp add: skip_ws_def)

lemma skip_ws_blank_cons: "blank w \<Longrightarrow> \<not> is_ws c \<Longrightarrow> skip_ws (w @ c # t) = c # t"
  by (simp add: skip_ws_blank skip_ws_cons)

lemma skip_ws_nil_iff: "skip_ws t = [] \<longleftrightarrow> blank t"
  by (simp add: skip_ws_def blank_def list_all_iff dropWhile_eq_Nil_conv)

lemma skip_ws_length: "length (skip_ws t) \<le> length t"
  by (simp add: skip_ws_def length_dropWhile_le)

lemma starts_cases: "starts P t \<Longrightarrow> \<exists>c r. t = c # r \<and> P c"
  by (cases t) (auto simp: starts_def)

lemma starts_simps [simp]: "starts P [] = False" "starts P (c # r) = P c"
  by (simp_all add: starts_def)

section \<open>Strings\<close>

lemma hex_value_bound: "hex_value h = Some v \<Longrightarrow> v < 16"
  by (auto simp: hex_value_def Let_def split: if_splits)

lemma hex_quad_bound: "hex_quad h n \<Longrightarrow> n < 0x10000"
  by (auto simp: hex_quad_def dest!: hex_value_bound)

lemma hex_quad_length: "hex_quad h n \<Longrightarrow> length h = 4"
  by (auto simp: hex_quad_def map_eq_Cons_conv)

lemma four: "(4::nat) = Suc (Suc (Suc (Suc 0)))" by simp

lemma parse_hex_quad_cons:
  "parse_hex_quad (a # b # c # d # r) = hex_loop (Suc (Suc (Suc (Suc 0)))) 0 (a # b # c # d # r)"
  by (simp add: parse_hex_quad_def four del: hex_loop.simps)

lemma parse_hex_quad_sound: "parse_hex_quad t = Inr (n, rest) \<Longrightarrow> \<exists>h. t = h @ rest \<and> hex_quad h n"
proof -
  assume one: "parse_hex_quad t = Inr (n, rest)"
  then have "4 \<le> length t" by (simp add: parse_hex_quad_def split: if_splits)
  then obtain a b c d r where t: "t = a # b # c # d # r" by (auto simp: four Suc_le_length_iff)
  from one show ?thesis unfolding t parse_hex_quad_cons
    by (intro exI[of _ "[a, b, c, d]"]) (auto simp: hex_quad_def split: option.splits)
qed

lemma parse_hex_quad_complete: "hex_quad h n \<Longrightarrow> parse_hex_quad (h @ rest) = Inr (n, rest)"
  unfolding hex_quad_def by (elim exE conjE) (auto simp: parse_hex_quad_cons map_eq_Cons_conv)

lemma parse_unicode_sound:
  assumes "parse_unicode t = Inr (bs, rest)" "string_chars s u"
  shows "\<exists>k. t = k @ rest \<and> string_chars (bs @ s) (backslash # CHR ''u'' # k @ u)"
proof -
  obtain code t1 where one: "parse_hex_quad t = Inr (code, t1)"
    using assms(1) by (auto simp: parse_unicode_def split: sum.splits)
  from parse_hex_quad_sound[OF one] obtain h where h: "t = h @ t1" "hex_quad h code" by auto
  show ?thesis
  proof (cases "high_surrogate code")
    case True
    then have two: "take 2 t1 = [backslash, CHR ''u'']"
      using assms(1) one by (auto simp: parse_unicode_def high_surrogate_def split: if_splits)
    then obtain low where three: "parse_hex_quad (drop 2 t1) = Inr (low, rest)" "low_surrogate low"
      "bs = utf8_of_code (0x10000 + (code - 0xD800) * 1024 + (low - 0xDC00))"
      using assms(1) one True
      by (auto simp: parse_unicode_def high_surrogate_def low_surrogate_def split: sum.splits if_splits)
    from parse_hex_quad_sound[OF three(1)] obtain l where l: "drop 2 t1 = l @ rest" "hex_quad l low" by auto
    have "t1 = backslash # CHR ''u'' # l @ rest"
      using two l(1) append_take_drop_id[of 2 t1] by simp
    with h l three string_chars.Pair[OF h(2) True l(2) three(2) assms(2)] show ?thesis by auto
  next
    case False
    then have "\<not> low_surrogate code" "bs = utf8_of_code code" "rest = t1"
      using assms(1) one by (auto simp: parse_unicode_def high_surrogate_def low_surrogate_def split: if_splits)
    with h string_chars.Unicode[OF h(2) False _ assms(2)] show ?thesis by auto
  qed
qed

lemma parse_unicode_complete:
  "hex_quad h n \<Longrightarrow> \<not> high_surrogate n \<Longrightarrow> \<not> low_surrogate n \<Longrightarrow>
     parse_unicode (h @ rest) = Inr (utf8_of_code n, rest)"
  "hex_quad h n \<Longrightarrow> high_surrogate n \<Longrightarrow> hex_quad l m \<Longrightarrow> low_surrogate m \<Longrightarrow>
     parse_unicode (h @ backslash # CHR ''u'' # l @ rest) =
       Inr (utf8_of_code (0x10000 + (n - 0xD800) * 1024 + (m - 0xDC00)), rest)"
  by (auto simp: parse_unicode_def parse_hex_quad_complete high_surrogate_def low_surrogate_def)

lemma scan_tail:
  "scan_prefix lead (p + length bytes) p bytes = p + length bytes \<longleftrightarrow>
     (\<forall>j<length bytes. \<not> bad_byte lead (p + j) (bytes ! j))"
proof (induction bytes arbitrary: p)
  case (Cons b bytes)
  have "(\<forall>j<Suc (length bytes). Q j) \<longleftrightarrow> Q 0 \<and> (\<forall>j<length bytes. Q (Suc j))" for Q
    using less_Suc_eq_0_disj by auto
  with Cons[of "Suc p"] show ?case by simp
qed simp

lemma tail_ok_scan:
  "tail_ok lead bs \<longleftrightarrow> scan_prefix lead (1 + length bs) 1 (bytes_of_string bs) = 1 + length bs"
proof -
  have "tail_ok lead bs \<longleftrightarrow> (\<forall>j<length bs. \<not> bad_byte lead (1 + j) (byte_of_char (bs ! j)))"
    unfolding tail_ok_def set_upt
    by (metis Suc_eq_plus1 add.commute add_diff_cancel_left' atLeastLessThan_iff less_Suc_eq_le not_less_eq_eq
        le_add1 le_add_diff_inverse less_diff_conv2 not_less)
  also have "\<dots> \<longleftrightarrow> scan_prefix lead (1 + length bs) 1 (bytes_of_string bs) = 1 + length bs"
    using scan_tail[of lead 1 "bytes_of_string bs"] by (simp add: bytes_of_string_def)
  finally show ?thesis .
qed

lemma multibyte_scalar:
  assumes "\<not> byte_of_char c < 0x80" "parse_multibyte c t = Inr (bs, rest)"
  shows "scalar (bytes_of_string bs)" "c # t = bs @ rest" "hd bs = c"
proof -
  let ?lead = "byte_of_char c"
  let ?n = "sequence_length ?lead"
  have n: "?n \<noteq> 0" "?n - 1 \<le> length t" "tail_ok ?lead (take (?n - 1) t)"
    and bs: "bs = c # take (?n - 1) t" "rest = drop (?n - 1) t"
    using assms(2) by (auto simp: parse_multibyte_def Let_def not_less split: if_splits)
  then show "c # t = bs @ rest" "hd bs = c" by simp_all
  have len: "length (take (?n - 1) t) = ?n - 1" using n(2) by simp
  then have "scan_prefix ?lead ?n 1 (bytes_of_string (take (?n - 1) t)) = ?n"
    using n(1, 3) unfolding tail_ok_scan by simp
  from scan_scalar[OF assms(1) n(1) this] show "scalar (bytes_of_string bs)"
    using bs(1) n(1) len by (simp add: bytes_of_string_def take_map take_Cons')
qed

lemma multibyte_complete:
  assumes "scalar (bytes_of_string (c # bs))" "\<not> byte_of_char c < 0x80"
  shows "parse_multibyte c (bs @ rest) = Inr (c # bs, rest)"
proof -
  have "decode_one True (byte_of_char c # bytes_of_string bs) = Some (Suc (length bs), byte_of_char c # bytes_of_string bs)"
    using decode_one_of_scalar[OF assms(1), of True "[]"] by (simp add: bytes_of_string_def)
  moreover have "sequence_length 0xEF = 3" by (simp add: sequence_length_def)
  ultimately have "sequence_length (byte_of_char c) = Suc (length bs) \<and>
      scan_prefix (byte_of_char c) (sequence_length (byte_of_char c)) 1 (bytes_of_string bs)
        = sequence_length (byte_of_char c)"
    using assms(2) by (auto simp: Let_def replacement_def bytes_of_string_def split: if_splits)
  then have "sequence_length (byte_of_char c) = Suc (length bs)" "tail_ok (byte_of_char c) bs"
    unfolding tail_ok_scan plus_1_eq_Suc by (elim conjE, simp only:)+
  then show ?thesis by (simp add: parse_multibyte_def Let_def)
qed

lemma parse_escape_sound:
  assumes "parse_escape t = Inr (bs, rest)" "string_chars s u"
  shows "\<exists>k. t = k @ rest \<and> string_chars (bs @ s) (backslash # k @ u)"
proof -
  obtain e r where t: "t = e # r" using assms(1) by (cases t) (auto simp: parse_escape_def)
  show ?thesis
  proof (cases "simple_escape e")
    case None
    then have "e = CHR ''u''" "parse_unicode r = Inr (bs, rest)"
      using assms(1) t by (auto simp: parse_escape_def split: if_splits)
    with parse_unicode_sound[OF this(2) assms(2)] t show ?thesis
      by (metis append_Cons)
  next
    case (Some c)
    then have "bs = [c]" "rest = r" using assms(1) t by (auto simp: parse_escape_def)
    with string_chars.Short[OF Some assms(2)] t show ?thesis by (intro exI[of _ "[e]"]) simp
  qed
qed

lemma byte_bounds: "byte_of_char c < 0x80 \<longleftrightarrow> (of_char c :: nat) < 128" "0x20 \<le> byte_of_char c \<longleftrightarrow> 32 \<le> (of_char c :: nat)"
  by (simp_all add: byte_of_char_def word_less_nat_alt word_le_nat_alt unat_of_nat of_char_less_256)

lemma parse_chars_sound:
  "parse_chars out t = Inr (s', rest) \<Longrightarrow> \<exists>s k. s' = out @ s \<and> t = k @ quote # rest \<and> string_chars s k"
proof (induction out t rule: parse_chars.induct)
  case (2 out c t)
  consider (quote) "c = quote" | (escape) "c = backslash" "c \<noteq> quote"
    | (ascii) "c \<noteq> backslash" "c \<noteq> quote" "\<not> byte_of_char c < 0x20" "byte_of_char c < 0x80"
    | (multi) "c \<noteq> backslash" "c \<noteq> quote" "\<not> byte_of_char c < 0x20" "\<not> byte_of_char c < 0x80"
    using 2(4) by (auto split: if_splits)
  then show ?case
  proof cases
    case quote
    with 2(4) show ?thesis by (auto intro: string_chars.Empty)
  next
    case escape
    then obtain bs r where e: "parse_escape t = Inr (bs, r)" "parse_chars (out @ bs) r = Inr (s', rest)"
      using 2(4) by (auto split: sum.splits)
    from 2(1)[OF escape(2, 1) e(1) refl e(2)] obtain s k
      where "s' = (out @ bs) @ s" "r = k @ quote # rest" "string_chars s k" by auto
    with parse_escape_sound[OF e(1)] escape(1) show ?thesis by fastforce
  next
    case ascii
    then have "parse_chars (out @ [c]) t = Inr (s', rest)" using 2(4) by simp
    from 2(2)[OF ascii(2, 1, 3, 4) this] obtain s k
      where k: "s' = (out @ [c]) @ s" "t = k @ quote # rest" "string_chars s k" by auto
    have "scalar (bytes_of_string [c])" using ascii(4) by (simp add: bytes_of_string_def word_cmp)
    from string_chars.Plain[OF this _ _ _ k(3)] ascii k show ?thesis by fastforce
  next
    case multi
    then obtain bs r where e: "parse_multibyte c t = Inr (bs, r)" "parse_chars (out @ bs) r = Inr (s', rest)"
      using 2(4) by (auto split: sum.splits)
    from 2(3)[OF multi(2, 1, 3, 4) e(1) refl e(2)] obtain s k
      where k: "s' = (out @ bs) @ s" "r = k @ quote # rest" "string_chars s k" by auto
    note m = multibyte_scalar[OF multi(4) e(1)]
    have "bs \<noteq> [quote]" "bs \<noteq> [backslash]" using multi m(3) by auto
    from string_chars.Plain[OF m(1) this _ k(3)] m k multi show ?thesis by fastforce
  qed
qed simp

lemma parse_chars_complete:
  "string_chars s k \<Longrightarrow> parse_chars out (k @ quote # rest) = Inr (out @ s, rest)"
proof (induction s k arbitrary: out rule: string_chars.induct)
  case (Plain c s t)
  then obtain x bs where c: "c = x # bs" by (cases c) (auto simp: bytes_of_string_def)
  have x: "\<not> byte_of_char x < 0x20" using Plain(4) c by simp
  show ?case
  proof (cases "byte_of_char x < 0x80")
    case True
    then have "bs = []" using Plain(1) c
      by (cases "bytes_of_string c" rule: scalar.cases)
        (auto simp: bytes_of_string_def word_cmp tail_byte_def)
    with Plain c x True show ?thesis by auto
  next
    case False
    then have "x \<noteq> quote" "x \<noteq> backslash" by (auto simp: byte_bounds quote_def backslash_def)
    with Plain c x False multibyte_complete[of x bs "t @ quote # rest"] show ?thesis by auto
  qed
next
  case (Short e c s t)
  then show ?case by (auto simp: parse_escape_def quote_def backslash_def)
next
  case (Unicode h n s t)
  have "simple_escape (CHR ''u'') = None" by (simp add: simple_escape_def quote_def backslash_def)
  with Unicode show ?case by (auto simp: parse_escape_def quote_def backslash_def parse_unicode_complete)
next
  case (Pair h n l m s t)
  have "simple_escape (CHR ''u'') = None" by (simp add: simple_escape_def quote_def backslash_def)
  moreover have "parse_escape (CHR ''u'' # h @ backslash # CHR ''u'' # l @ t @ quote # rest) =
      Inr (utf8_of_code (0x10000 + (n - 0xD800) * 1024 + (m - 0xDC00)), t @ quote # rest)"
    using Pair(1-4) calculation by (simp add: parse_escape_def parse_unicode_complete(2))
  ultimately show ?case using Pair(6) by (simp add: quote_def backslash_def)
qed simp

section \<open>Numbers\<close>

definition ends_number :: "string \<Rightarrow> bool" where
  "ends_number rest \<longleftrightarrow> \<not> starts (\<lambda>c. is_digit c \<or> c \<in> {CHR ''.'', CHR ''e'', CHR ''E''}) rest"

lemma digits_split: "starts is_digit t \<Longrightarrow> \<exists>ds. t = ds @ dropWhile is_digit t \<and> digits ds \<and> hd ds = hd t"
  by (cases t)
    (auto simp: digits_def list_all_iff dest: set_takeWhileD intro!: exI[of _ "takeWhile is_digit t"])

lemma digits_drop: "digits ds \<Longrightarrow> \<not> starts is_digit r \<Longrightarrow> dropWhile is_digit (ds @ r) = r"
  by (cases r) (auto simp: digits_def list_all_iff dropWhile_append2)

lemma digits_start: "digits ds \<Longrightarrow> starts is_digit (ds @ r)"
  by (cases ds) (auto simp: digits_def)

lemma digit_values [simp]: "is_digit (CHR ''0'')" "\<not> is_digit (CHR ''-'')" "\<not> is_digit (CHR ''+'')"
  "\<not> is_digit (CHR ''.'')" "\<not> is_digit (CHR ''e'')" "\<not> is_digit (CHR ''E'')"
  by (simp_all add: is_digit_def)

lemma skip_integer_sound:
  assumes "skip_integer t = Some r" shows "\<exists>u. t = u @ r \<and> integer_part u"
proof -
  obtain c t1 where t: "t = c # t1" using assms by (cases t) (auto simp: skip_integer_def)
  show ?thesis
  proof (cases "c = CHR ''0''")
    case True
    then show ?thesis using assms t by (auto simp: skip_integer_def integer_part_def split: if_splits)
  next
    case False
    then have "r = dropWhile is_digit t" "starts is_digit t"
      using assms t by (auto simp: skip_integer_def split: if_splits)
    with digits_split[of t] False t show ?thesis by (auto simp: integer_part_def)
  qed
qed

lemma skip_fraction_sound: "skip_fraction t = Some r \<Longrightarrow> \<exists>u. t = u @ r \<and> fraction_part u"
  by (cases t) (auto simp: skip_fraction_def fraction_part_def Let_def dest!: digits_split split: if_splits,
      metis append_Cons)

lemma skip_exponent_sound:
  assumes "skip_exponent t = Some r" shows "\<exists>u. t = u @ r \<and> exponent_part u"
proof (cases "starts (\<lambda>c. c = CHR ''e'' \<or> c = CHR ''E'') t")
  case False
  then show ?thesis using assms by (auto simp: skip_exponent_def exponent_part_def)
next
  case True
  then obtain e t1 where t: "t = e # t1" "e \<in> {CHR ''e'', CHR ''E''}" by (auto dest: starts_cases)
  let ?signed = "starts (\<lambda>c. c = CHR ''-'' \<or> c = CHR ''+'') t1"
  define sign where "sign = (if ?signed then take 1 t1 else [])"
  define t2 where "t2 = (if ?signed then drop 1 t1 else t1)"
  have sign: "sign \<in> {[], ''+'', ''-''}" "t1 = sign @ t2"
    by (auto simp: sign_def t2_def dest!: starts_cases)
  have "starts is_digit t2" "r = dropWhile is_digit t2"
    using assms t by (auto simp: skip_exponent_def Let_def t2_def split: if_splits)
  with digits_split[of t2] obtain ds where "t2 = ds @ r" "digits ds" by auto
  with t sign show ?thesis
    by (intro exI[of _ "e # sign @ ds"]) (auto simp: exponent_part_def)
qed

lemma skip_number_sound:
  assumes "skip_number t = Some r" shows "\<exists>u. t = u @ r \<and> number_token u"
proof -
  define sign where "sign = (if starts (\<lambda>c. c = CHR ''-'') t then take 1 t else [])"
  define t1 where "t1 = (if starts (\<lambda>c. c = CHR ''-'') t then drop 1 t else t)"
  have sign: "sign \<in> {[], ''-''}" "t = sign @ t1" by (auto simp: sign_def t1_def dest!: starts_cases)
  obtain t2 t3 where "skip_integer t1 = Some t2" "skip_fraction t2 = Some t3" "skip_exponent t3 = Some r"
    using assms by (auto simp: skip_number_def t1_def split: option.splits)
  then obtain i f e where "t1 = i @ t2" "integer_part i" "t2 = f @ t3" "fraction_part f" "t3 = e @ r" "exponent_part e"
    using skip_integer_sound skip_fraction_sound skip_exponent_sound by metis
  with sign show ?thesis
    by (intro exI[of _ "sign @ i @ f @ e"]) (auto simp: number_token_def)
qed

lemma skip_integer_complete:
  "integer_part u \<Longrightarrow> \<not> starts is_digit r \<Longrightarrow> skip_integer (u @ r) = Some r"
  unfolding integer_part_def
proof (elim disjE conjE)
  assume "digits u" "hd u \<noteq> CHR ''0''" "\<not> starts is_digit r"
  then show ?thesis using digits_drop[of u r] by (cases u) (auto simp: skip_integer_def digits_def)
qed (simp add: skip_integer_def)

lemma skip_fraction_complete:
  "fraction_part u \<Longrightarrow> \<not> starts (\<lambda>c. is_digit c \<or> c = CHR ''.'') r \<Longrightarrow> skip_fraction (u @ r) = Some r"
  unfolding fraction_part_def
proof (elim disjE exE conjE)
  fix ds assume "u = CHR ''.'' # ds" "digits ds" "\<not> starts (\<lambda>c. is_digit c \<or> c = CHR ''.'') r"
  then show ?thesis using digits_drop[of ds r] digits_start[of ds r]
    by (cases r) (auto simp: skip_fraction_def Let_def)
qed (cases r; simp add: skip_fraction_def)

lemma skip_exponent_complete:
  "exponent_part u \<Longrightarrow> ends_number r \<Longrightarrow> skip_exponent (u @ r) = Some r"
  unfolding exponent_part_def
proof (elim disjE exE conjE)
  fix e sign ds assume u: "u = e # sign @ ds" "e \<in> {CHR ''e'', CHR ''E''}" "sign \<in> {[], ''+'', ''-''}" "digits ds"
    and r: "ends_number r"
  have "\<not> starts is_digit r" using r by (cases r) (auto simp: ends_number_def)
  then have "dropWhile is_digit (ds @ r) = r" "starts is_digit (ds @ r)"
    using u(4) digits_drop digits_start by auto
  moreover obtain d ds' where "ds = d # ds'" "is_digit d" using u(4) by (cases ds) (auto simp: digits_def)
  ultimately show ?thesis using u(1-3) by (auto simp: skip_exponent_def Let_def)
qed (cases r; auto simp: skip_exponent_def ends_number_def)

lemma skip_number_complete:
  assumes "number_token u" "ends_number r" shows "skip_number (u @ r) = Some r"
proof -
  obtain sign i f e where u: "u = sign @ i @ f @ e" "sign \<in> {[], ''-''}" "integer_part i" "fraction_part f" "exponent_part e"
    using assms(1) by (auto simp: number_token_def)
  have e: "\<not> starts (\<lambda>c. is_digit c \<or> c = CHR ''.'') (e @ r)"
    using u(5) assms(2) by (cases r) (auto simp: exponent_part_def ends_number_def)
  then have f: "\<not> starts is_digit (f @ e @ r)"
    using u(4) by (cases "e @ r") (auto simp: fraction_part_def)
  obtain d i' where i: "i = d # i'" "is_digit d"
    using u(3) by (cases i) (auto simp: integer_part_def digits_def)
  have "(if starts (\<lambda>c. c = CHR ''-'') (u @ r) then drop 1 (u @ r) else u @ r) = i @ f @ e @ r"
    using u(1, 2) i by auto
  then show ?thesis
    unfolding skip_number_def
    by (simp add: skip_integer_complete[OF u(3) f] skip_fraction_complete[OF u(4) e]
        skip_exponent_complete[OF u(5) assms(2)])
qed

lemma number_token_start: "number_token u \<Longrightarrow> \<exists>c r. u = c # r \<and> (c = CHR ''-'' \<or> is_digit c)"
proof -
  assume "number_token u"
  then obtain sign i rest where u: "u = sign @ i @ rest" "sign \<in> {[], ''-''}" "integer_part i"
    by (auto simp: number_token_def)
  then obtain d i' where "i = d # i'" "is_digit d" by (cases i) (auto simp: integer_part_def digits_def)
  with u show ?thesis by auto
qed

section \<open>The parser accepts only the grammar\<close>

lemma blank_append [simp]: "blank (w @ w') \<longleftrightarrow> blank w \<and> blank w'"
  by (simp add: blank_def)

lemma leading_blank:
  "blank w \<Longrightarrow> json_value from_chars n v u \<Longrightarrow> json_value from_chars n v (w @ u)"
  "blank w \<Longrightarrow> json_items from_chars n xs u \<Longrightarrow> json_items from_chars n xs (w @ u)"
  "blank w \<Longrightarrow> json_members from_chars n ms u \<Longrightarrow> json_members from_chars n ms (w @ u)"
proof -
  assume w: "blank w"
  note rules = json_value_json_members_json_items.intros
  note absorb = rules(1-9)[where w = "w @ v" for v, unfolded blank_append append_assoc append_Cons append_Nil]
    rules(12-13)[where ?w1.0 = "w @ v" for v, unfolded blank_append append_assoc append_Cons append_Nil]
  show v: "json_value from_chars n v (w @ u)" if "json_value from_chars n v u" for v u
    using that w by cases (auto intro: absorb)
  show "json_items from_chars n xs (w @ u)" if "json_items from_chars n xs u"
    using that by cases (auto intro: rules(10-11)[OF v, unfolded append_assoc append_Cons append_Nil])
  show "json_members from_chars n ms (w @ u)" if "json_members from_chars n ms u"
    using that w by cases (auto intro: absorb)
qed

lemma literal_sound:
  "parse_bool t = Inr (v, rest) \<Longrightarrow>
     \<exists>u. t = u @ rest \<and> (v = JBool True \<and> u = ''true'' \<or> v = JBool False \<and> u = ''false'')"
  "parse_null t = Inr (v, rest) \<Longrightarrow> t = ''null'' @ rest \<and> v = JNull"
  by (auto simp: parse_bool_def parse_null_def split: if_splits) (metis append_take_drop_id append_Cons append_Nil)+

lemma parse_number_sound:
  assumes "parse_number from_chars t = Inr (v, rest)" "blank w"
  shows "\<exists>u. t = u @ rest \<and> json_value from_chars n v (w @ u)"
proof -
  obtain d where d: "skip_number t = Some rest" "from_chars (take (length t - length rest) t) = Some d"
    "f64_finite d" "v = JNumber d"
    using assms by (auto simp: parse_number_def split: option.splits if_splits)
  from skip_number_sound[OF d(1)] obtain u where "t = u @ rest" "number_token u" by auto
  with d json_value_json_members_json_items.Number[OF assms(2), of u from_chars d n] show ?thesis by auto
qed

lemma parse_string_sound: "parse_string (quote # t) = Inr (s, rest) \<Longrightarrow> \<exists>k. t = k @ quote # rest \<and> string_chars s k"
  using parse_chars_sound[of "[]" t s rest] by (simp add: parse_string_def)

lemma close_sound:
  assumes "starts (\<lambda>c. c = x) (skip_ws t)"
  shows "\<exists>w. blank w \<and> t = w @ x # drop 1 (skip_ws t)"
proof -
  obtain w where "t = w @ skip_ws t" "blank w" by (rule skip_ws_split)
  with assms starts_cases[OF assms] show ?thesis by (metis drop0 drop_Suc_Cons One_nat_def)
qed

definition sound_value :: "(string \<Rightarrow> f64 option) \<Rightarrow> nat \<Rightarrow> bool" where
  "sound_value from_chars fuel \<longleftrightarrow> (\<forall>depth t v rest. depth \<le> 128 \<longrightarrow>
     parse_value from_chars fuel depth t = Inr (v, rest) \<longrightarrow>
     (\<exists>u. t = u @ rest \<and> json_value from_chars (128 - depth) v u))"

definition sound_members :: "(string \<Rightarrow> f64 option) \<Rightarrow> nat \<Rightarrow> bool" where
  "sound_members from_chars fuel \<longleftrightarrow> (\<forall>depth ms t v rest. depth \<le> 128 \<longrightarrow> distinct (map fst ms) \<longrightarrow>
     parse_members from_chars fuel depth ms t = Inr (v, rest) \<longrightarrow>
     (\<exists>ms' u. v = JObject (ms @ ms') \<and> distinct (map fst (ms @ ms')) \<and> t = u @ CHR ''}'' # rest \<and>
        json_members from_chars (128 - depth) ms' u))"

definition sound_items :: "(string \<Rightarrow> f64 option) \<Rightarrow> nat \<Rightarrow> bool" where
  "sound_items from_chars fuel \<longleftrightarrow> (\<forall>depth xs t v rest. depth \<le> 128 \<longrightarrow>
     parse_items from_chars fuel depth xs t = Inr (v, rest) \<longrightarrow>
     (\<exists>xs' u. v = JArray (xs @ xs') \<and> t = u @ CHR '']'' # rest \<and> json_items from_chars (128 - depth) xs' u))"

lemma bracket_depth:
  assumes "\<not> (128::nat) \<le> depth" shows "128 - depth = Suc (128 - (depth + 1))"
  using assms by simp

lemma container_step:
  assumes members: "sound_members from_chars fuel" and items: "sound_items from_chars fuel"
    and c: "c = CHR ''{'' \<or> c = CHR ''[''" "depth < 128" "skip_ws t = c # r"
    and one: "parse_value from_chars (Suc fuel) depth t = Inr (v, rest)"
  shows "\<exists>u. c # r = u @ rest \<and> json_value from_chars (128 - depth) v u"
proof -
  note rules = json_value_json_members_json_items.intros(6-9)[of "[]", simplified, unfolded blank_def, simplified, folded blank_def]
  define n where "n = 128 - (depth + 1)"
  have depth: "128 - depth = Suc n" "depth + 1 \<le> 128" using c(2) by (auto simp: n_def)
  obtain w where w: "r = w @ skip_ws r" "blank w" by (rule skip_ws_split)
  let ?close = "if c = CHR ''{'' then CHR ''}'' else CHR '']''"
  show ?thesis
  proof (cases "starts (\<lambda>x. x = ?close) (skip_ws r)")
    case True
    from close_sound[OF True] obtain w' where w': "blank w'" "r = w' @ ?close # drop 1 (skip_ws r)" by auto
    have "v = (if c = CHR ''{'' then JObject [] else JArray [])" "rest = drop 1 (skip_ws r)"
      using one c True by (auto split: if_splits)
    with w' rules(1)[OF w'(1)] rules(3)[OF w'(1)] c(1) depth show ?thesis
      by (intro exI[of _ "c # w' @ [?close]"]) auto
  next
    case False
    show ?thesis
    proof (cases "c = CHR ''{''")
      case True
      with False one c have "parse_members from_chars fuel (depth + 1) [] (skip_ws r) = Inr (v, rest)" by simp
      with members depth(2) obtain ms u where m: "v = JObject ms" "distinct (map fst ms)"
        "skip_ws r = u @ CHR ''}'' # rest" "json_members from_chars n ms u"
        unfolding sound_members_def n_def by (metis append_Nil distinct.simps(1) list.simps(8))
      with rules(4)[OF leading_blank(3)[OF w(2) m(4)] m(2)] w(1) depth True show ?thesis
        by (intro exI[of _ "c # (w @ u) @ [?close]"]) auto
    next
      case arr: False
      with False one c have "parse_items from_chars fuel (depth + 1) [] (skip_ws r) = Inr (v, rest)" by simp
      with items depth(2) obtain xs u where m: "v = JArray xs"
        "skip_ws r = u @ CHR '']'' # rest" "json_items from_chars n xs u"
        unfolding sound_items_def n_def by (metis append_Nil)
      with rules(2)[OF leading_blank(2)[OF w(2) m(3)]] w(1) depth arr c(1) show ?thesis
        by (intro exI[of _ "c # (w @ u) @ [?close]"]) auto
    qed
  qed
qed

lemma value_step:
  assumes "sound_members from_chars fuel" "sound_items from_chars fuel"
  shows "sound_value from_chars (Suc fuel)"
  unfolding sound_value_def
proof (intro allI impI)
  fix depth t v rest
  assume depth: "depth \<le> 128" and one: "parse_value from_chars (Suc fuel) depth t = Inr (v, rest)"
  obtain w where w: "t = w @ skip_ws t" "blank w" by (rule skip_ws_split)
  from one obtain c r where c: "skip_ws t = c # r" by (auto split: list.splits)
  note rules = json_value_json_members_json_items.intros(1-5)[of "[]", unfolded blank_def, simplified]
  consider (container) "c = CHR ''{'' \<or> c = CHR ''[''" "depth < 128"
    | (quoted) s where "v = JString s" "parse_string (quote # r) = Inr (s, rest)" "c = quote"
    | (bool) "parse_bool (c # r) = Inr (v, rest)" | (null) "parse_null (c # r) = Inr (v, rest)"
    | (number) "parse_number from_chars (c # r) = Inr (v, rest)"
    using one c by (auto simp: not_le split: if_splits sum.splits)
  then have "\<exists>u. c # r = u @ rest \<and> json_value from_chars (128 - depth) v u"
  proof cases
    case container
    from container_step[OF assms this c one] show ?thesis .
  next
    case quoted
    with parse_string_sound[OF quoted(2)] rules(5) show ?thesis by fastforce
  next
    case bool
    from literal_sound(1)[OF bool] rules(2, 3) show ?thesis by auto
  next
    case null
    from literal_sound(2)[OF null] rules(1) show ?thesis by auto
  next
    case number
    from parse_number_sound[OF number, of "[]"] show ?thesis by (simp add: blank_def)
  qed
  with w c leading_blank(1)[OF w(2)] show "\<exists>u. t = u @ rest \<and> json_value from_chars (128 - depth) v u"
    by (metis append.assoc)
qed

lemma items_step:
  assumes "sound_value from_chars fuel" "sound_items from_chars fuel"
  shows "sound_items from_chars (Suc fuel)"
  unfolding sound_items_def
proof (intro allI impI)
  fix depth xs t v rest
  assume depth: "depth \<le> 128" and one: "parse_items from_chars (Suc fuel) depth xs t = Inr (v, rest)"
  then obtain x t1 where x: "parse_value from_chars fuel depth t = Inr (x, t1)" by (auto split: sum.splits)
  with assms(1) depth obtain u where u: "t = u @ t1" "json_value from_chars (128 - depth) x u"
    unfolding sound_value_def by blast
  note rules = json_value_json_members_json_items.intros(10-11)
  show "\<exists>xs' u. v = JArray (xs @ xs') \<and> t = u @ CHR '']'' # rest \<and> json_items from_chars (128 - depth) xs' u"
  proof (cases "starts (\<lambda>c. c = CHR '','') (skip_ws t1)")
    case True
    from close_sound[OF True] obtain w where w: "blank w" "t1 = w @ CHR '','' # drop 1 (skip_ws t1)" by auto
    have "parse_items from_chars fuel depth (xs @ [x]) (drop 1 (skip_ws t1)) = Inr (v, rest)"
      using one x True by (auto simp: Let_def split: if_splits)
    with assms(2) depth obtain xs' u' where r: "v = JArray ((xs @ [x]) @ xs')"
      "drop 1 (skip_ws t1) = u' @ CHR '']'' # rest" "json_items from_chars (128 - depth) xs' u'"
      unfolding sound_items_def by blast
    with u w rules(2)[OF u(2) w(1) r(3)] show ?thesis by (intro exI[of _ "x # xs'"]) auto
  next
    case False
    then have close: "starts (\<lambda>c. c = CHR '']'') (skip_ws t1)" "v = JArray (xs @ [x])" "rest = drop 1 (skip_ws t1)"
      using one x by (auto simp: Let_def split: if_splits)
    from close_sound[OF close(1)] obtain w where w: "blank w" "t1 = w @ CHR '']'' # rest" using close(3) by auto
    from u w close(2) rules(1)[OF u(2) w(1)] show ?thesis by (intro exI[of _ "[x]"]) auto
  qed
qed

lemma member_head:
  assumes "parse_members from_chars (Suc fuel) depth ms t = Inr (v, rest)" "sound_value from_chars fuel" "depth \<le> 128"
  obtains w1 key k w2 x u t1 where "t = w1 @ quote # k @ quote # w2 @ '':'' @ u @ t1" "blank w1"
    "string_chars key k" "blank w2" "json_value from_chars (128 - depth) x u" "key \<notin> fst ` set ms"
    "starts (\<lambda>c. c = CHR '','') (skip_ws t1) \<longrightarrow>
       parse_members from_chars fuel depth (ms @ [(key, x)]) (drop 1 (skip_ws t1)) = Inr (v, rest)"
    "\<not> starts (\<lambda>c. c = CHR '','') (skip_ws t1) \<longrightarrow>
       starts (\<lambda>c. c = CHR ''}'') (skip_ws t1) \<and> v = JObject (ms @ [(key, x)]) \<and> rest = drop 1 (skip_ws t1)"
proof -
  have a1: "starts (\<lambda>c. c = quote) (skip_ws t)" using assms(1) by (rule contrapos_pp) (simp add: Let_def)
  obtain key ta where a2: "parse_string (skip_ws t) = Inr (key, ta)"
    using assms(1) a1 by (cases "parse_string (skip_ws t)") (auto simp: Let_def)
  have a3: "starts (\<lambda>c. c = CHR '':'') (skip_ws ta)"
    using assms(1) by (rule contrapos_pp) (simp add: Let_def a1 a2)
  have a4: "key \<notin> fst ` set ms" using assms(1) by (rule contrapos_pp) (simp add: Let_def a1 a2 a3)
  obtain x t1 where a5: "parse_value from_chars fuel depth (drop 1 (skip_ws ta)) = Inr (x, t1)"
    using assms(1) a1 a2 a3 a4 by (cases "parse_value from_chars fuel depth (drop 1 (skip_ws ta))") (auto simp: Let_def)
  note a = a1 a2 a3 a4 a5
  from close_sound[OF a(1)] obtain w1 where w1: "blank w1" "t = w1 @ quote # drop 1 (skip_ws t)" by auto
  have "parse_string (quote # drop 1 (skip_ws t)) = Inr (key, ta)"
    using a(1, 2) starts_cases[OF a(1)] by auto
  from parse_string_sound[OF this] obtain k where k: "drop 1 (skip_ws t) = k @ quote # ta" "string_chars key k" by auto
  from close_sound[OF a(3)] obtain w2 where w2: "blank w2" "ta = w2 @ CHR '':'' # drop 1 (skip_ws ta)" by auto
  from assms(2,3) a(5) obtain u where u: "drop 1 (skip_ws ta) = u @ t1" "json_value from_chars (128 - depth) x u"
    unfolding sound_value_def by blast
  have "t = w1 @ quote # k @ quote # w2 @ '':'' @ u @ t1" using w1(2) k(1) w2(2) u(1) by simp
  then show ?thesis
    by (rule that[OF _ w1(1) k(2) w2(1) u(2) a(4)]) (use a assms(1) in \<open>auto simp: Let_def split: if_splits\<close>)
qed

lemma members_step:
  assumes "sound_value from_chars fuel" "sound_members from_chars fuel"
  shows "sound_members from_chars (Suc fuel)"
  unfolding sound_members_def
proof (intro allI impI)
  fix depth ms t v rest
  assume depth: "depth \<le> 128" and ms: "distinct (map fst ms)"
    and one: "parse_members from_chars (Suc fuel) depth ms t = Inr (v, rest)"
  from one assms(1) depth obtain w1 key k w2 x u t1 where t: "t = w1 @ quote # k @ quote # w2 @ '':'' @ u @ t1"
    and head: "blank w1" "string_chars key k" "blank w2" "json_value from_chars (128 - depth) x u"
    and key: "key \<notin> fst ` set ms"
    and more: "starts (\<lambda>c. c = CHR '','') (skip_ws t1) \<longrightarrow>
       parse_members from_chars fuel depth (ms @ [(key, x)]) (drop 1 (skip_ws t1)) = Inr (v, rest)"
    and last: "\<not> starts (\<lambda>c. c = CHR '','') (skip_ws t1) \<longrightarrow>
       starts (\<lambda>c. c = CHR ''}'') (skip_ws t1) \<and> v = JObject (ms @ [(key, x)]) \<and> rest = drop 1 (skip_ws t1)"
    by (rule member_head) (rule that)
  have ms': "distinct (map fst (ms @ [(key, x)]))" using ms key by (simp add: image_image)
  note rules = json_value_json_members_json_items.intros(12-13)[OF head]
  show "\<exists>ms' u. v = JObject (ms @ ms') \<and> distinct (map fst (ms @ ms')) \<and> t = u @ CHR ''}'' # rest \<and>
      json_members from_chars (128 - depth) ms' u"
  proof (cases "starts (\<lambda>c. c = CHR '','') (skip_ws t1)")
    case True
    from close_sound[OF True] obtain w where w: "blank w" "t1 = w @ CHR '','' # drop 1 (skip_ws t1)" by auto
    from assms(2) depth ms' more[rule_format, OF True] obtain ms2 u' where r: "v = JObject ((ms @ [(key, x)]) @ ms2)"
      "distinct (map fst ((ms @ [(key, x)]) @ ms2))"
      "drop 1 (skip_ws t1) = u' @ CHR ''}'' # rest" "json_members from_chars (128 - depth) ms2 u'"
      unfolding sound_members_def by blast
    with t w rules(2)[OF w(1) r(4)] show ?thesis by (intro exI[of _ "(key, x) # ms2"]) auto
  next
    case False
    note close = last[rule_format, OF False]
    from close_sound[of "CHR ''}''" t1] close obtain w where w: "blank w" "t1 = w @ CHR ''}'' # rest" by auto
    from t w conjunct1[OF conjunct2[OF close]] ms' rules(1)[OF w(1)] show ?thesis by (intro exI[of _ "[(key, x)]"]) auto
  qed
qed

lemma parser_sound: "sound_value from_chars fuel \<and> sound_members from_chars fuel \<and> sound_items from_chars fuel"
proof (induction fuel)
  case 0
  show ?case by (simp add: sound_value_def sound_members_def sound_items_def)
next
  case (Suc fuel)
  then show ?case using value_step members_step items_step by blast
qed

section \<open>The parser accepts the whole grammar\<close>

lemma skip_ws_idem [simp]: "skip_ws (skip_ws t) = skip_ws t"
  by (simp add: skip_ws_def)

lemma parse_skip:
  "parse_value from_chars fuel depth (skip_ws t) = parse_value from_chars fuel depth t"
  "parse_members from_chars fuel depth ms (skip_ws t) = parse_members from_chars fuel depth ms t"
  "parse_items from_chars fuel depth xs (skip_ws t) = parse_items from_chars fuel depth xs t"
proof -
  show v: "parse_value from_chars fuel depth (skip_ws t) = parse_value from_chars fuel depth t" for fuel t
    by (cases fuel) simp_all
  show "parse_members from_chars fuel depth ms (skip_ws t) = parse_members from_chars fuel depth ms t"
    by (cases fuel) simp_all
  show "parse_items from_chars fuel depth xs (skip_ws t) = parse_items from_chars fuel depth xs t"
    by (cases fuel) (simp_all add: v)
qed

lemma ends_blank: "blank w \<Longrightarrow> c \<in> set '',]}'' \<Longrightarrow> ends_number (w @ c # r)"
  by (cases w) (auto simp: ends_number_def blank_def is_digit_def)

lemma special_values [simp]: "quote \<noteq> CHR '' ''" "quote \<noteq> CHR 0x09" "quote \<noteq> CHR 0x0A" "quote \<noteq> CHR 0x0D" "quote \<noteq> CHR ''{''" "quote \<noteq> CHR ''[''"
  "quote \<noteq> CHR '']''" "quote \<noteq> CHR ''}''"
  "CHR ''n'' \<noteq> quote" "CHR ''t'' \<noteq> quote" "CHR ''f'' \<noteq> quote"
  by (simp_all add: quote_def backslash_def)

lemma number_start:
  assumes "c = CHR ''-'' \<or> is_digit c" shows "\<not> is_ws c" "c \<notin> set ''{[]}tfn''" "c \<noteq> quote"
  using assms by (auto simp: is_digit_def quote_def)

lemma value_start:
  assumes "json_value from_chars n v u" shows "\<exists>c r. skip_ws (u @ rest) = c # r \<and> c \<noteq> CHR '']''"
  using assms
proof cases
  case (Number w u' d)
  with number_token_start[of u'] number_start(1,2) show ?thesis by (fastforce simp: skip_ws_blank_cons)
qed (auto simp: skip_ws_blank_cons)

lemma items_start:
  assumes "json_items from_chars n xs u" shows "\<not> starts (\<lambda>c. c = CHR '']'') (skip_ws (u @ rest))"
proof -
  obtain v u1 u2 where "u = u1 @ u2" "json_value from_chars n v u1"
    using assms by cases auto
  with value_start[of from_chars n v u1 "u2 @ rest"] show ?thesis by auto
qed

lemma members_start:
  assumes "json_members from_chars n ms u" shows "\<not> starts (\<lambda>c. c = CHR ''}'') (skip_ws (u @ rest))"
  using assms by cases (auto simp: skip_ws_blank_cons)

lemma parse_string_complete: "string_chars s k \<Longrightarrow> parse_string (quote # k @ quote # rest) = Inr (s, rest)"
  using parse_chars_complete[of s k "[]" rest] by (simp add: parse_string_def)

lemma parse_number_complete:
  "number_token u \<Longrightarrow> from_chars u = Some d \<Longrightarrow> f64_finite d \<Longrightarrow> ends_number rest \<Longrightarrow>
     parse_number from_chars (u @ rest) = Inr (JNumber d, rest)"
  by (simp add: parse_number_def skip_number_complete)

lemma number_value_complete:
  assumes "blank w" "number_token u" "from_chars u = Some d" "f64_finite d" "ends_number rest"
  shows "parse_value from_chars (Suc fuel) depth (w @ u @ rest) = Inr (JNumber d, rest)"
proof -
  obtain c r where c: "u = c # r" "c = CHR ''-'' \<or> is_digit c" using number_token_start[OF assms(2)] by auto
  from parse_number_complete[of u from_chars d rest, OF assms(2-5)] number_start[OF c(2)] c(1) show ?thesis
    by (auto simp: skip_ws_blank_cons[OF assms(1)])
qed

definition complete_value :: "(string \<Rightarrow> f64 option) \<Rightarrow> nat \<Rightarrow> json \<Rightarrow> string \<Rightarrow> bool" where
  "complete_value from_chars n v u \<longleftrightarrow> (\<forall>fuel rest. n \<le> 128 \<longrightarrow> 2 * length u < fuel \<longrightarrow> ends_number rest \<longrightarrow>
     parse_value from_chars fuel (128 - n) (u @ rest) = Inr (v, rest))"

definition complete_members :: "(string \<Rightarrow> f64 option) \<Rightarrow> nat \<Rightarrow> (string \<times> json) list \<Rightarrow> string \<Rightarrow> bool" where
  "complete_members from_chars n ms u \<longleftrightarrow> (\<forall>fuel before rest. n \<le> 128 \<longrightarrow> 2 * length u < fuel \<longrightarrow>
     distinct (map fst (before @ ms)) \<longrightarrow>
     parse_members from_chars fuel (128 - n) before (u @ CHR ''}'' # rest) = Inr (JObject (before @ ms), rest))"

definition complete_items :: "(string \<Rightarrow> f64 option) \<Rightarrow> nat \<Rightarrow> json list \<Rightarrow> string \<Rightarrow> bool" where
  "complete_items from_chars n xs u \<longleftrightarrow> (\<forall>fuel before rest. n \<le> 128 \<longrightarrow> Suc (2 * length u) < fuel \<longrightarrow>
     parse_items from_chars fuel (128 - n) before (u @ CHR '']'' # rest) = Inr (JArray (before @ xs), rest))"

lemma complete_container:
  assumes "blank w" "n < 128" "2 * length (w @ c # u @ [d]) < fuel"
  obtains f where "fuel = Suc f" "Suc (2 * length u) < f" "\<not> 128 \<le> 128 - Suc n" "128 - Suc n + 1 = 128 - n"
  using assms by (cases fuel) auto


lemma complete_steps:
  "blank w \<Longrightarrow> blank w' \<Longrightarrow> complete_value from_chars (Suc n) (JArray []) (w @ ''['' @ w' @ '']'')"
  "blank w \<Longrightarrow> blank w' \<Longrightarrow> complete_value from_chars (Suc n) (JObject []) (w @ ''{'' @ w' @ ''}'')"
  "blank w \<Longrightarrow> string_chars s t \<Longrightarrow> complete_value from_chars n (JString s) (w @ quote # t @ [quote])"
  "blank w \<Longrightarrow> number_token u \<Longrightarrow> from_chars u = Some d \<Longrightarrow> f64_finite d \<Longrightarrow>
     complete_value from_chars n (JNumber d) (w @ u)"
  "blank w \<Longrightarrow> complete_value from_chars n JNull (w @ ''null'')"
  "blank w \<Longrightarrow> complete_value from_chars n (JBool True) (w @ ''true'')"
  "blank w \<Longrightarrow> complete_value from_chars n (JBool False) (w @ ''false'')"
  by (auto simp: complete_value_def skip_ws_blank_cons less_eq_Suc_le Suc_le_length_iff gr0_conv_Suc
      parse_bool_def parse_null_def
      dest!: Suc_le_D simp: number_value_complete[simplified] parse_string_complete)

lemma complete_items_value:
  assumes "blank w" "json_items from_chars n xs u" "complete_items from_chars n xs u"
  shows "complete_value from_chars (Suc n) (JArray xs) (w @ ''['' @ u @ '']'')"
  unfolding complete_value_def
proof (intro allI impI)
  fix fuel rest
  assume "Suc n \<le> 128" "2 * length (w @ ''['' @ u @ '']'') < fuel"
  then obtain f where f: "fuel = Suc f" "Suc (2 * length u) < f" "\<not> 128 \<le> 128 - Suc n" "128 - Suc n + 1 = 128 - n"
    by (cases fuel) auto
  have "parse_items from_chars f (128 - n) [] (u @ CHR '']'' # rest) = Inr (JArray xs, rest)"
    using assms(3) f(2) \<open>Suc n \<le> 128\<close> by (simp add: complete_items_def)
  with f items_start[OF assms(2), of "CHR '']'' # rest"]
  show "parse_value from_chars fuel (128 - Suc n) ((w @ ''['' @ u @ '']'') @ rest) = Inr (JArray xs, rest)"
    by (simp add: skip_ws_blank_cons[OF assms(1)] parse_skip)
qed

lemma complete_members_value:
  assumes "blank w" "json_members from_chars n ms u" "complete_members from_chars n ms u" "distinct (map fst ms)"
  shows "complete_value from_chars (Suc n) (JObject ms) (w @ ''{'' @ u @ ''}'')"
  unfolding complete_value_def
proof (intro allI impI)
  fix fuel rest
  assume "Suc n \<le> 128" "2 * length (w @ ''{'' @ u @ ''}'') < fuel"
  then obtain f where f: "fuel = Suc f" "2 * length u < f" "\<not> 128 \<le> 128 - Suc n" "128 - Suc n + 1 = 128 - n"
    by (cases fuel) auto
  have "parse_members from_chars f (128 - n) [] (u @ CHR ''}'' # rest) = Inr (JObject ms, rest)"
    using assms(3,4) f(2) \<open>Suc n \<le> 128\<close> by (simp add: complete_members_def)
  with f members_start[OF assms(2), of "CHR ''}'' # rest"]
  show "parse_value from_chars fuel (128 - Suc n) ((w @ ''{'' @ u @ ''}'') @ rest) = Inr (JObject ms, rest)"
    by (simp add: skip_ws_blank_cons[OF assms(1)] parse_skip)
qed

lemma complete_last_item:
  assumes "complete_value from_chars n x u" "blank w"
  shows "complete_items from_chars n [x] (u @ w)"
  unfolding complete_items_def
proof (intro allI impI)
  fix fuel before rest
  assume n: "n \<le> 128" and fuel: "Suc (2 * length (u @ w)) < fuel"
  then obtain f where f: "fuel = Suc f" "2 * length u < f" by (cases fuel) auto
  with assms(1) n ends_blank[OF assms(2), of "CHR '']''" rest]
  have "parse_value from_chars f (128 - n) (u @ w @ CHR '']'' # rest) = Inr (x, w @ CHR '']'' # rest)"
    by (simp add: complete_value_def)
  then show "parse_items from_chars fuel (128 - n) before ((u @ w) @ CHR '']'' # rest) = Inr (JArray (before @ [x]), rest)"
    by (simp add: f(1) Let_def skip_ws_blank_cons[OF assms(2)])
qed

lemma complete_more_items:
  assumes "complete_value from_chars n x u" "blank w" "complete_items from_chars n xs t"
  shows "complete_items from_chars n (x # xs) (u @ w @ '','' @ t)"
  unfolding complete_items_def
proof (intro allI impI)
  fix fuel before rest
  assume n: "n \<le> 128" and fuel: "Suc (2 * length (u @ w @ '','' @ t)) < fuel"
  then obtain f where f: "fuel = Suc f" "2 * length u < f" "Suc (2 * length t) < f" by (cases fuel) auto
  with assms(1) n ends_blank[OF assms(2), of "CHR '',''" "t @ CHR '']'' # rest"]
  have "parse_value from_chars f (128 - n) (u @ w @ CHR '','' # t @ CHR '']'' # rest) = Inr (x, w @ CHR '','' # t @ CHR '']'' # rest)"
    by (simp add: complete_value_def)
  moreover have "parse_items from_chars f (128 - n) (before @ [x]) (t @ CHR '']'' # rest) = Inr (JArray ((before @ [x]) @ xs), rest)"
    using assms(3) n f(3) unfolding complete_items_def by blast
  ultimately show "parse_items from_chars fuel (128 - n) before ((u @ w @ '','' @ t) @ CHR '']'' # rest) = Inr (JArray (before @ x # xs), rest)"
    by (simp add: f(1) Let_def skip_ws_blank_cons[OF assms(2)])
qed

lemma parse_members_head:
  assumes "blank w1" "string_chars key k" "blank w2" "key \<notin> fst ` set before"
    and "parse_value from_chars f depth t = Inr (x, r)"
  shows "parse_members from_chars (Suc f) depth before (w1 @ quote # k @ quote # w2 @ '':'' @ t) =
    (let r = skip_ws r
     in if r = [] then Inl (Fail ''unterminated object'')
        else if starts (\<lambda>c. c = CHR '','') r then parse_members from_chars f depth (before @ [(key, x)]) (drop 1 r)
        else if starts (\<lambda>c. c = CHR ''}'') r then Inr (JObject (before @ [(key, x)]), drop 1 r)
        else Inl (Fail ''expected ',' or '}' in object''))"
  using assms(4,5)
  by (simp add: Let_def skip_ws_blank_cons[OF assms(1)] skip_ws_blank_cons[OF assms(3)] parse_string_complete[OF assms(2)])

lemma complete_last_member:
  assumes "blank w1" "string_chars key k" "blank w2" "complete_value from_chars n x u" "blank w3"
  shows "complete_members from_chars n [(key, x)] (w1 @ quote # k @ quote # w2 @ '':'' @ u @ w3)"
  unfolding complete_members_def
proof (intro allI impI)
  fix fuel before rest
  assume n: "n \<le> 128" and fuel: "2 * length (w1 @ quote # k @ quote # w2 @ '':'' @ u @ w3) < fuel"
    and dist: "distinct (map fst (before @ [(key, x)]))"
  obtain f where f: "fuel = Suc f" "2 * length u < f" using fuel by (cases fuel) auto
  have "key \<notin> fst ` set before" using dist by auto
  moreover have "parse_value from_chars f (128 - n) (u @ w3 @ CHR ''}'' # rest) = Inr (x, w3 @ CHR ''}'' # rest)"
    using assms(4) n f(2) ends_blank[OF assms(5), of "CHR ''}''" rest] by (simp add: complete_value_def)
  ultimately show "parse_members from_chars fuel (128 - n) before
      ((w1 @ quote # k @ quote # w2 @ '':'' @ u @ w3) @ CHR ''}'' # rest) = Inr (JObject (before @ [(key, x)]), rest)"
    using parse_members_head[OF assms(1-3)] by (simp add: f(1) Let_def skip_ws_blank_cons[OF assms(5)])
qed

lemma complete_more_members:
  assumes "blank w1" "string_chars key k" "blank w2" "complete_value from_chars n x u" "blank w3"
    "complete_members from_chars n ms t"
  shows "complete_members from_chars n ((key, x) # ms) (w1 @ quote # k @ quote # w2 @ '':'' @ u @ w3 @ '','' @ t)"
  unfolding complete_members_def
proof (intro allI impI)
  fix fuel before rest
  assume n: "n \<le> 128" and fuel: "2 * length (w1 @ quote # k @ quote # w2 @ '':'' @ u @ w3 @ '','' @ t) < fuel"
    and dist: "distinct (map fst (before @ (key, x) # ms))"
  let ?rest = "t @ CHR ''}'' # rest"
  obtain f where f: "fuel = Suc f" "2 * length u < f" "2 * length t < f" using fuel by (cases fuel) auto
  have "key \<notin> fst ` set before" using dist by auto
  moreover have "parse_value from_chars f (128 - n) (u @ w3 @ CHR '','' # ?rest) = Inr (x, w3 @ CHR '','' # ?rest)"
    using assms(4) n f(2) ends_blank[OF assms(5), of "CHR '',''" ?rest] by (simp add: complete_value_def)
  moreover have "parse_members from_chars f (128 - n) (before @ [(key, x)]) ?rest = Inr (JObject ((before @ [(key, x)]) @ ms), rest)"
    using assms(6) n f(3) dist unfolding complete_members_def by (metis append_Cons append_Nil append_assoc)
  ultimately show "parse_members from_chars fuel (128 - n) before
      ((w1 @ quote # k @ quote # w2 @ '':'' @ u @ w3 @ '','' @ t) @ CHR ''}'' # rest) = Inr (JObject (before @ (key, x) # ms), rest)"
    using parse_members_head[OF assms(1-3)] by (simp add: f(1) Let_def skip_ws_blank_cons[OF assms(5)])
qed

lemma parser_complete:
  "json_value from_chars n v u \<Longrightarrow> complete_value from_chars n v u"
  "json_members from_chars n ms u \<Longrightarrow> complete_members from_chars n ms u"
  "json_items from_chars n xs u \<Longrightarrow> complete_items from_chars n xs u"
  by (induction rule: json_value_json_members_json_items.inducts)
    (assumption | rule complete_steps complete_items_value complete_members_value complete_last_item
      complete_more_items complete_last_member complete_more_members)+

lemma parse_iff: "parse from_chars t = Inr v \<longleftrightarrow> (\<exists>u w. t = u @ w \<and> blank w \<and> json_value from_chars 128 v u)"
proof
  assume "parse from_chars t = Inr v"
  then obtain rest where p: "parse_value from_chars (2 * length t + 1) 0 t = Inr (v, rest)" "skip_ws rest = []"
    by (auto simp: parse_def split: sum.splits if_splits)
  with parser_sound[of from_chars "2 * length t + 1"] obtain u where "t = u @ rest" "json_value from_chars (128 - 0) v u"
    unfolding sound_value_def by blast
  with p(2) show "\<exists>u w. t = u @ w \<and> blank w \<and> json_value from_chars 128 v u"
    by (auto simp: skip_ws_nil_iff)
next
  assume "\<exists>u w. t = u @ w \<and> blank w \<and> json_value from_chars 128 v u"
  then obtain u w where t: "t = u @ w" "blank w" "json_value from_chars 128 v u" by blast
  have "ends_number w" using t(2) by (cases w) (auto simp: ends_number_def blank_def is_digit_def)
  with parser_complete(1)[OF t(3)] have "parse_value from_chars (2 * length t + 1) 0 t = Inr (v, w)"
    unfolding complete_value_def t(1) by (simp del: parse_value.simps)
  with t(2) show "parse from_chars t = Inr v" by (simp add: parse_def skip_ws_nil_iff del: parse_value.simps)
qed

section \<open>The fuel is enough\<close>

definition fuelled_value :: "(string \<Rightarrow> f64 option) \<Rightarrow> nat \<Rightarrow> bool" where
  "fuelled_value from_chars fuel \<longleftrightarrow> (\<forall>depth t. depth \<le> 128 \<longrightarrow> 2 * length t < fuel \<longrightarrow>
     parse_value from_chars fuel depth t \<noteq> Inl OutOfFuel)"

definition fuelled_members :: "(string \<Rightarrow> f64 option) \<Rightarrow> nat \<Rightarrow> bool" where
  "fuelled_members from_chars fuel \<longleftrightarrow> (\<forall>depth ms t. depth \<le> 128 \<longrightarrow> 2 * length t < fuel \<longrightarrow>
     parse_members from_chars fuel depth ms t \<noteq> Inl OutOfFuel)"

definition fuelled_items :: "(string \<Rightarrow> f64 option) \<Rightarrow> nat \<Rightarrow> bool" where
  "fuelled_items from_chars fuel \<longleftrightarrow> (\<forall>depth xs t. depth \<le> 128 \<longrightarrow> Suc (2 * length t) < fuel \<longrightarrow>
     parse_items from_chars fuel depth xs t \<noteq> Inl OutOfFuel)"

lemma parse_value_length:
  "parse_value from_chars fuel depth t = Inr (v, rest) \<Longrightarrow> depth \<le> 128 \<Longrightarrow> length rest \<le> length t"
  using parser_sound[of from_chars fuel] unfolding sound_value_def by fastforce

lemma hex_loop_fuel: "hex_loop k n t \<noteq> Inl OutOfFuel"
  by (induction k n t rule: hex_loop.induct) (auto split: option.splits)

lemma parse_hex_quad_fuel: "parse_hex_quad t \<noteq> Inl OutOfFuel"
  by (simp add: parse_hex_quad_def hex_loop_fuel)

lemma parse_escape_fuel: "parse_escape t \<noteq> Inl OutOfFuel"
  using parse_hex_quad_fuel
  by (auto simp: parse_escape_def parse_unicode_def split: list.splits option.splits sum.splits if_splits)

lemma parse_chars_fuel: "parse_chars out t \<noteq> Inl OutOfFuel"
proof (induction out t rule: parse_chars.induct)
  case (2 out c t)
  have "parse_multibyte c t \<noteq> Inl OutOfFuel" by (simp add: parse_multibyte_def Let_def)
  with 2 parse_escape_fuel[of t] show ?case by (auto split: sum.splits)
qed simp

lemma leaf_fuel:
  "parse_string t \<noteq> Inl OutOfFuel" "parse_bool t \<noteq> Inl OutOfFuel" "parse_null t \<noteq> Inl OutOfFuel"
  "parse_number from_chars t \<noteq> Inl OutOfFuel"
  by (auto simp: parse_string_def parse_chars_fuel parse_bool_def parse_null_def parse_number_def split: option.splits)

lemma fuelled_value_step:
  assumes "fuelled_members from_chars fuel" "fuelled_items from_chars fuel"
  shows "fuelled_value from_chars (Suc fuel)"
  unfolding fuelled_value_def
proof (intro allI impI)
  fix depth :: nat and t :: string assume depth: "depth \<le> 128" and fuel: "2 * length t < Suc fuel"
  show "parse_value from_chars (Suc fuel) depth t \<noteq> Inl OutOfFuel"
  proof (cases "skip_ws t")
    case (Cons c r)
    have "Suc (length r) \<le> length t" using skip_ws_length[of t] Cons by simp
    then have "Suc (2 * length (skip_ws r)) < fuel" using skip_ws_length[of r] fuel by linarith
    moreover have "depth + 1 \<le> 128" if "\<not> 128 \<le> depth" using that by simp
    ultimately have "parse_members from_chars fuel (depth + 1) [] (skip_ws r) \<noteq> Inl OutOfFuel"
      "parse_items from_chars fuel (depth + 1) [] (skip_ws r) \<noteq> Inl OutOfFuel" if "\<not> 128 \<le> depth"
      using assms that unfolding fuelled_members_def fuelled_items_def by (meson Suc_lessD)+
    then show ?thesis using Cons leaf_fuel by (auto split: sum.splits)
  qed simp
qed

lemma fuelled_items_step:
  assumes "fuelled_value from_chars fuel" "fuelled_items from_chars fuel"
  shows "fuelled_items from_chars (Suc fuel)"
  unfolding fuelled_items_def
proof (intro allI impI)
  fix depth :: nat and xs and t :: string assume depth: "depth \<le> 128" and fuel: "Suc (2 * length t) < Suc fuel"
  have v: "parse_value from_chars fuel depth t \<noteq> Inl OutOfFuel"
    using assms(1) depth fuel unfolding fuelled_value_def by simp
  have "parse_items from_chars fuel depth ys (drop 1 (skip_ws r)) \<noteq> Inl OutOfFuel"
    if "parse_value from_chars fuel depth t = Inr (x, r)" "skip_ws r \<noteq> []" for x r ys
  proof -
    have "length (drop 1 (skip_ws r)) < length t"
      using parse_value_length[OF that(1) depth] that(2) skip_ws_length[of r] by (cases "skip_ws r") auto
    with assms(2) depth fuel show ?thesis unfolding fuelled_items_def by simp
  qed
  with v show "parse_items from_chars (Suc fuel) depth xs t \<noteq> Inl OutOfFuel" by (auto simp: Let_def split: sum.splits)
qed

lemma fuelled_members_step:
  assumes "fuelled_value from_chars fuel" "fuelled_members from_chars fuel"
  shows "fuelled_members from_chars (Suc fuel)"
  unfolding fuelled_members_def
proof (intro allI impI)
  fix depth :: nat and ms and t :: string assume depth: "depth \<le> 128" and fuel: "2 * length t < Suc fuel"
  have shorter: "length (drop 1 (skip_ws r)) < length t"
    if "starts (\<lambda>c. c = quote) (skip_ws t)" "parse_string (skip_ws t) = Inr (key, r)" for key r
  proof -
    from starts_cases[OF that(1)] obtain t' where t': "skip_ws t = quote # t'" by auto
    with parse_string_sound[of t' key r] that(2) have "length r < length (skip_ws t)" by auto
    with skip_ws_length[of t] skip_ws_length[of r] show ?thesis by simp
  qed
  have v: "parse_value from_chars fuel depth (drop 1 (skip_ws r)) \<noteq> Inl OutOfFuel"
    if "length (drop 1 (skip_ws r)) < length t" for r
    using assms(1) depth fuel that unfolding fuelled_value_def by simp
  have m: "parse_members from_chars fuel depth ns (drop 1 (skip_ws r2)) \<noteq> Inl OutOfFuel"
    if "length (drop 1 (skip_ws r)) < length t" "parse_value from_chars fuel depth (drop 1 (skip_ws r)) = Inr (x, r2)"
    for ns r r2 x
  proof -
    have "length (drop 1 (skip_ws r2)) < length t"
      using parse_value_length[OF that(2) depth] that(1) skip_ws_length[of r2] by simp
    with assms(2) depth fuel show ?thesis unfolding fuelled_members_def by simp
  qed
  show "parse_members from_chars (Suc fuel) depth ms t \<noteq> Inl OutOfFuel"
    using leaf_fuel(1)[of "skip_ws t"] shorter v m by (auto simp: Let_def split: sum.splits)
qed

lemma parser_fuelled:
  "fuelled_value from_chars fuel \<and> fuelled_members from_chars fuel \<and> fuelled_items from_chars fuel"
proof (induction fuel)
  case 0
  show ?case by (simp add: fuelled_value_def fuelled_members_def fuelled_items_def)
next
  case (Suc fuel)
  then show ?case using fuelled_value_step fuelled_members_step fuelled_items_step by blast
qed

lemma parse_fuelled: "parse from_chars t \<noteq> Inl OutOfFuel"
  using parser_fuelled[of from_chars "2 * length t + 1"] unfolding fuelled_value_def parse_def
  by (auto split: sum.splits simp del: parse_value.simps)

end
