(* ===== verification/Json_Properties.thy ===== *)
theory Json_Properties
  imports Json_Grammar
begin

text \<open>
  What the JSON reader and writer guarantee: the reader accepts exactly RFC 8259 within its limits and
  always returns, what it returns is a value within those limits, and reading what the writer writes gives
  the value back.
\<close>

section \<open>Values within the limits\<close>

fun json_ok :: "nat \<Rightarrow> json \<Rightarrow> bool" where
  "json_ok n JNull = True"
| "json_ok n (JBool b) = True"
| "json_ok n (JNumber d) = f64_finite d"
| "json_ok n (JString s) = valid_utf8 (bytes_of_string s)"
| "json_ok n (JArray xs) = (0 < n \<and> list_all (json_ok (n - 1)) xs)"
| "json_ok n (JObject ms) =
     (0 < n \<and> distinct (map fst ms) \<and>
      list_all (\<lambda>(key, x). valid_utf8 (bytes_of_string key) \<and> json_ok (n - 1) x) ms)"

fun numbers_of :: "json \<Rightarrow> f64 list" where
  "numbers_of (JNumber d) = [d]"
| "numbers_of (JArray xs) = concat (map numbers_of xs)"
| "numbers_of (JObject ms) = concat (map (\<lambda>(key, x). numbers_of x) ms)"
| "numbers_of v = []"

lemma byte_of_char_of: "n < 256 \<Longrightarrow> unat (byte_of_char (char_of n)) = n"
  by (simp add: byte_of_char_def of_char_of unat_of_nat)

lemma split64: "(n::nat) = 4096 * (n div 4096) + 64 * (n div 64 mod 64) + n mod 64"
proof -
  have "n div 4096 = n div 64 div 64" using div_mult2_eq[of n 64 64] by simp
  with mult_div_mod_eq[of 64 n] mult_div_mod_eq[of 64 "n div 64"] show ?thesis by linarith
qed

lemma split4096: "(n::nat) = 262144 * (n div 262144) + 4096 * (n div 4096 mod 64) + n mod 4096"
proof -
  have "n div 262144 = n div 4096 div 64" using div_mult2_eq[of n 4096 64] by simp
  with mult_div_mod_eq[of 4096 n] mult_div_mod_eq[of 64 "n div 4096"] show ?thesis by linarith
qed

lemma scalar_utf8_of_code:
  assumes "n < 0x110000" "\<not> high_surrogate n" "\<not> low_surrogate n"
  shows "scalar (bytes_of_string (utf8_of_code n))"
proof -
  have mod: "128 + m mod 64 < 256" "128 \<le> 128 + m mod 64" "128 + m mod 64 \<le> 191" for m :: nat
    using mod_less_divisor[of 64 m] by linarith+
  consider (1) "n < 0x80" | (2) "0x80 \<le> n" "n < 0x800" | (3) "0x800 \<le> n" "n < 0x10000" | (4) "0x10000 \<le> n"
    by linarith
  then show ?thesis
  proof cases
    case 1
    then show ?thesis by (simp add: utf8_of_code_def bytes_of_string_def word_le_nat_alt byte_of_char_of)
  next
    case 2
    then have "2 \<le> n div 64" "n div 64 < 32" by (simp_all add: less_mult_imp_div_less div_le_mono[of 128 n 64, simplified])
    with 2 mod show ?thesis
      by (simp add: utf8_of_code_def bytes_of_string_def word_le_nat_alt byte_of_char_of tail_byte_def)
  next
    case 3
    define a b where "a = n div 4096" and "b = n div 64 mod 64"
    have n: "n = 4096 * a + 64 * b + n mod 64" "b < 64" "n mod 64 < 64"
      unfolding a_def b_def using split64[of n] by simp_all
    have "a < 16" "a = 0 \<Longrightarrow> 32 \<le> b" "a = 13 \<Longrightarrow> b < 32"
      using n 3 assms(2,3) by (auto simp: high_surrogate_def low_surrogate_def)
    with n(2) 3 mod[of "n"] show ?thesis
      by (auto simp: utf8_of_code_def bytes_of_string_def word_le_nat_alt word_unat_eq_iff byte_of_char_of tail_byte_def
          a_def[symmetric] b_def[symmetric])
  next
    case 4
    define a b where "a = n div 262144" and "b = n div 4096 mod 64"
    have n: "n = 262144 * a + 4096 * b + n mod 4096" "b < 64" "n mod 4096 < 4096"
      unfolding a_def b_def using split4096[of n] by simp_all
    have a: "a < 5" "a = 0 \<Longrightarrow> 16 \<le> b" "a = 4 \<Longrightarrow> b < 16"
      using n 4 assms(1) by auto
    have u: "utf8_of_code n = [char_of (240 + a), char_of (128 + b), char_of (128 + n div 64 mod 64), char_of (128 + n mod 64)]"
      using 4 by (simp add: utf8_of_code_def a_def b_def)
    have lead: "240 + a < 256" "128 + b < 256" using a n(2) by auto
    note tails = mod[of n] mod[of "n div 64"]
    have "a = 0 \<and> 16 \<le> b \<or> 1 \<le> a \<and> a \<le> 3 \<or> a = 4 \<and> b < 16" using a by linarith
    then show ?thesis
      using n(2) tails lead by (simp add: u bytes_of_string_def tail_byte_def word_le_nat_alt word_unat_eq_iff byte_of_char_of) linarith
  qed
qed

lemma string_chars_valid: "string_chars s t \<Longrightarrow> valid_utf8 (bytes_of_string s)"
  unfolding valid_utf8_iff
proof (induction rule: string_chars.induct)
  case (Short e c s t)
  then have "scalar [byte_of_char c]"
    by (auto simp: simple_escape_def quote_def backslash_def byte_of_char_def split: if_splits)
  from well_formed.Scalar[OF this Short(3)[unfolded bytes_of_string_def]] show ?case by (simp add: bytes_of_string_def)
next
  case (Unicode h n s t)
  with scalar_utf8_of_code[of n] hex_quad_bound[of h n] well_formed.Scalar show ?case by (fastforce simp: bytes_of_string_def)
next
  case (Pair h n l m s t)
  let ?n = "0x10000 + (n - 0xD800) * 1024 + (m - 0xDC00)"
  have "?n < 0x110000" "\<not> high_surrogate ?n" "\<not> low_surrogate ?n"
    using Pair(2,4) by (auto simp: high_surrogate_def low_surrogate_def)
  from well_formed.Scalar[OF scalar_utf8_of_code[OF this] Pair(6)] show ?case by (simp add: bytes_of_string_def)
qed (auto simp: bytes_of_string_def intro: well_formed.intros)

lemma json_value_ok:
  "json_value from_chars n v u \<Longrightarrow> json_ok n v"
  "json_members from_chars n ms u \<Longrightarrow> list_all (\<lambda>(key, x). valid_utf8 (bytes_of_string key) \<and> json_ok n x) ms"
  "json_items from_chars n xs u \<Longrightarrow> list_all (json_ok n) xs"
  by (induction rule: json_value_json_members_json_items.inducts) (auto simp: string_chars_valid)

section \<open>Writing\<close>

lemma hex_value_digit: "n < 16 \<Longrightarrow> hex_value (hex_digit n) = Some n"
  by (auto simp: hex_value_def hex_digit_def of_char_of)

definition short_chars :: string where
  "short_chars = [quote, backslash, CHR 0x08, CHR 0x0C, CHR 0x0A, CHR 0x0D, CHR 0x09]"

lemma escape_char_short: "c \<in> set short_chars \<Longrightarrow> \<exists>e. escape_char c = [backslash, e] \<and> simple_escape e = Some c"
  unfolding short_chars_def list.set insert_iff empty_iff
  by (elim disjE) (simp_all add: escape_char_def simple_escape_def quote_def backslash_def)

lemma escape_char_long: "c \<notin> set short_chars \<Longrightarrow> escape_char c =
    (if (of_char c :: nat) < 32
     then [backslash, CHR ''u'', CHR ''0'', CHR ''0'', hex_digit (of_char c div 16), hex_digit (of_char c mod 16)]
     else [c])"
  by (simp add: escape_char_def short_chars_def)

lemma hex_value_zero: "hex_value (CHR ''0'') = Some 0" by (simp add: hex_value_def)

lemma escape_char_chars:
  assumes "byte_of_char c < 0x80" "string_chars s t" shows "string_chars (c # s) (escape_char c @ t)"
proof -
  let ?n = "of_char c :: nat"
  have c: "char_of ?n = c" by simp
  consider (short) e where "escape_char c = [backslash, e]" "simple_escape e = Some c"
    | (control) "?n < 32" "escape_char c = [backslash, CHR ''u'', CHR ''0'', CHR ''0'', hex_digit (?n div 16), hex_digit (?n mod 16)]"
    | (plain) "\<not> ?n < 32" "c \<noteq> quote" "c \<noteq> backslash" "escape_char c = [c]"
    using escape_char_short[of c] escape_char_long[of c] by (cases "c \<in> set short_chars") (auto simp: short_chars_def)
  then show ?thesis
  proof cases
    case short
    with string_chars.Short[OF short(2) assms(2)] show ?thesis by simp
  next
    case control
    have "hex_quad [CHR ''0'', CHR ''0'', hex_digit (?n div 16), hex_digit (?n mod 16)] ?n"
      using control(1) by (auto simp: hex_quad_def hex_value_digit hex_value_zero)
    from string_chars.Unicode[OF this _ _ assms(2)] control c show ?thesis
      by (simp add: utf8_of_code_def high_surrogate_def low_surrogate_def)
  next
    case plain
    have "scalar (bytes_of_string [c])" using assms(1) by (simp add: bytes_of_string_def word_cmp)
    from string_chars.Plain[OF this _ _ _ assms(2)] plain show ?thesis by (auto simp: byte_bounds)
  qed
qed

lemma escape_high: "\<not> byte_of_char c < 0x80 \<Longrightarrow> escape_char c = [c]"
proof -
  assume c: "\<not> byte_of_char c < 0x80"
  then have "c \<notin> set short_chars" by (auto simp: short_chars_def quote_def backslash_def byte_of_char_def)
  with c show ?thesis by (simp add: escape_char_long byte_bounds)
qed

lemma high_le: "b < 0x80 \<Longrightarrow> 0x80 \<le> k \<Longrightarrow> \<not> k \<le> (b::u8)"
  by (meson leD order_trans)

lemma scalar_high:
  assumes "scalar c" "length c \<noteq> 1" "b \<in> set c" shows "\<not> b < 0x80"
proof
  assume "b < 0x80"
  note high = high_le[OF this]
  show False using assms by (cases c rule: scalar.cases) (use \<open>b < 0x80\<close> in \<open>auto simp: tail_byte_def high\<close>)
qed

lemma escape_chars: "well_formed bs \<Longrightarrow> bs = bytes_of_string s \<Longrightarrow> string_chars s (escape s)"
proof (induction arbitrary: s rule: well_formed.induct)
  case Empty
  then show ?case by (simp add: bytes_of_string_def escape_def string_chars.intros(1))
next
  case (Scalar c bs)
  then obtain s1 s2 where s: "s = s1 @ s2" "c = bytes_of_string s1" "bs = bytes_of_string s2"
    by (auto simp: bytes_of_string_def append_eq_map_conv)
  have e: "escape s = concat (map escape_char s1) @ escape s2" by (simp add: escape_def s(1))
  note rest = Scalar(3)[OF s(3)]
  show ?case
  proof (cases "length c = 1")
    case True
    then obtain x where x: "s1 = [x]" using s(2) by (auto simp: bytes_of_string_def length_Suc_conv)
    then have "byte_of_char x < 0x80" using Scalar(1) s(2) by (simp add: bytes_of_string_def word_cmp)
    from escape_char_chars[OF this rest] show ?thesis by (simp add: s(1) x escape_def)
  next
    case False
    have high: "\<not> byte_of_char x < 0x80" if "x \<in> set s1" for x
      using scalar_high[OF Scalar(1) False] that s(2) by (auto simp: bytes_of_string_def)
    then have "concat (map escape_char s1) = s1" by (induction s1) (auto simp: escape_high)
    moreover have "s1 \<noteq> []" using Scalar(1) s(2) by (auto simp: bytes_of_string_def)
    moreover have "s1 \<noteq> [quote]" "s1 \<noteq> [backslash]" "0x20 \<le> byte_of_char (hd s1)"
      using high[of "hd s1"] \<open>s1 \<noteq> []\<close> False s(2) by (auto simp: bytes_of_string_def word_cmp)
    ultimately show ?thesis
      using string_chars.Plain[of s1, OF _ _ _ _ rest] Scalar(1) s e by simp
  qed
qed

lemma digit_char: "n < 10 \<Longrightarrow> is_digit (char_of (48 + n)) \<and> (char_of (48 + n) = CHR ''0'' \<longleftrightarrow> n = (0::nat))"
  by (auto simp: is_digit_def of_char_of char_of_eq_iff take_bit_nat_eq_self)

lemma digits_of_nat_token: "digits (digits_of_nat n) \<and> (0 < n \<longrightarrow> hd (digits_of_nat n) \<noteq> CHR ''0'')"
proof (induction n rule: digits_of_nat.induct)
  case (1 n)
  show ?case
  proof (cases "n < 10")
    case True
    then show ?thesis using digit_char[of n] by (simp add: digits_of_nat.simps[of n] digits_def)
  next
    case False
    with 1 digit_char[of "n mod 10"] show ?thesis
      by (subst (1 2) digits_of_nat.simps) (auto simp: digits_def)
  qed
qed

lemma int_chars_token: "number_token (int_chars neg n)"
proof -
  have "integer_part (digits_of_nat n)"
    using digits_of_nat_token[of n] by (cases "n = 0") (auto simp: integer_part_def digits_of_nat.simps[of 0])
  moreover have "fraction_part []" "exponent_part []" by (simp_all add: fraction_part_def exponent_part_def)
  ultimately show ?thesis unfolding number_token_def int_chars_def
    by (intro exI[of _ "if neg \<and> n \<noteq> 0 then ''-'' else []"] exI[of _ "digits_of_nat n"] exI[of _ "[]"]) simp
qed

text \<open>What is relied on of \<open>std::to_chars\<close> and \<open>std::from_chars\<close>, for the numbers \<open>ds\<close>: a spelling is one JSON
  number, and reading a spelling gives the number back.\<close>

definition spells :: "(f64 \<Rightarrow> string) \<Rightarrow> (string \<Rightarrow> f64 option) \<Rightarrow> f64 list \<Rightarrow> bool" where
  "spells to_chars from_chars ds \<longleftrightarrow>
     list_all (\<lambda>d. number_token (to_chars d) \<and> from_chars (number_chars to_chars d) = Some d) ds"

lemma number_chars_token: "number_token (to_chars d) \<Longrightarrow> number_token (number_chars to_chars d)"
  by (auto simp: number_chars_def int_chars_token split: option.splits)

lemma spells_append [simp]: "spells tc fc (a @ b) \<longleftrightarrow> spells tc fc a \<and> spells tc fc b" "spells tc fc []"
  by (simp_all add: spells_def)

lemma valid_escape: "valid_utf8 (bytes_of_string s) \<Longrightarrow> string_chars s (escape s)"
  using escape_chars[of "bytes_of_string s" s] by (simp add: valid_utf8_iff)

lemma blank_nil [simp]: "blank []" "blank '' ''"
  by (simp_all add: blank_def)

lemma comma_split: "\<exists>w. comma spaced = '','' @ w \<and> blank w" "\<exists>w. colon spaced = '':'' @ w \<and> blank w"
  by (simp_all add: comma_def colon_def)

lemma dump_items_step:
  assumes x: "json_value from_chars n x t" and xs: "xs = [] \<and> u = [] \<or> (\<exists>t'. u = comma spaced @ t' \<and> json_items from_chars n xs t')"
  shows "json_items from_chars n (x # xs) (t @ u)"
proof -
  note rules = json_value_json_members_json_items.intros(10-11)[OF x, of "[]", simplified]
  obtain w where w: "comma spaced = '','' @ w" "blank w" using comma_split(1) by auto
  from xs rules(1) rules(2)[OF leading_blank(2)[OF w(2)]] w(1) show ?thesis by auto
qed

lemma dump_members_step:
  assumes k: "string_chars key k" and x: "json_value from_chars n x t"
    and ms: "ms = [] \<and> u = [] \<or> (\<exists>t'. u = comma spaced @ t' \<and> json_members from_chars n ms t')"
  shows "json_members from_chars n ((key, x) # ms) ([quote] @ k @ [quote] @ colon spaced @ t @ u)"
proof -
  obtain w where w: "comma spaced = '','' @ w" "blank w" using comma_split(1) by auto
  obtain c where c: "colon spaced = '':'' @ c" "blank c" using comma_split(2) by auto
  note rules = json_value_json_members_json_items.intros(12-13)[of "[]" key k "[]" from_chars n x _ "[]",
      simplified, OF k leading_blank(1)[OF c(2) x]]
  from ms rules(1) rules(2)[OF leading_blank(3)[OF w(2)]] w(1) c(1) show ?thesis by auto
qed

lemma dump_grammar:
  "json_ok n v \<Longrightarrow> spells to_chars from_chars (numbers_of v) \<Longrightarrow>
     \<exists>t. dump_value to_chars spaced v = Some t \<and> json_value from_chars n v t"
  "list_all (json_ok n) xs \<Longrightarrow> spells to_chars from_chars (concat (map numbers_of xs)) \<Longrightarrow>
     \<exists>t. dump_items to_chars spaced initial xs = Some t \<and>
       (xs = [] \<and> t = [] \<or> (\<exists>t'. t = (if initial then [] else comma spaced) @ t' \<and> json_items from_chars n xs t'))"
  "list_all (\<lambda>(key, x). valid_utf8 (bytes_of_string key) \<and> json_ok n x) ms \<Longrightarrow>
     spells to_chars from_chars (concat (map (\<lambda>(key, x). numbers_of x) ms)) \<Longrightarrow>
     \<exists>t. dump_members to_chars spaced initial ms = Some t \<and>
       (ms = [] \<and> t = [] \<or> (\<exists>t'. t = (if initial then [] else comma spaced) @ t' \<and> json_members from_chars n ms t'))"
proof (induction to_chars spaced v and to_chars spaced initial xs and to_chars spaced initial ms arbitrary: n and n and n
    rule: dump_value_dump_items_dump_members.induct)
  case (3 to_chars spaced d)
  then have "number_token (number_chars to_chars d)" "from_chars (number_chars to_chars d) = Some d" "f64_finite d"
    by (simp_all add: spells_def number_chars_token)
  from json_value_json_members_json_items.intros(4)[of "[]" "number_chars to_chars d" from_chars d n, OF _ this] show ?case using 3 by auto
next
  case (4 to_chars spaced s)
  from json_value_json_members_json_items.intros(5)[of "[]", OF _ valid_escape[of s]] 4 show ?case by auto
next
  case (5 to_chars spaced xs)
  from 5(1)[of "n - 1"] 5(2,3) obtain t where "dump_items to_chars spaced True xs = Some t"
    "xs = [] \<and> t = [] \<or> json_items from_chars (n - 1) xs t" by auto
  with json_value_json_members_json_items.intros(6,7)[where w = "[]" and n = "n - 1" and from_chars = from_chars]
    json_value_json_members_json_items.intros(6)[where w = "[]" and w' = "[]" and n = "n - 1" and from_chars = from_chars] 5(2) show ?case by auto
next
  case (6 to_chars spaced ms)
  from 6(1)[of "n - 1"] 6(2,3) obtain t where "dump_members to_chars spaced True ms = Some t"
    "ms = [] \<and> t = [] \<or> json_members from_chars (n - 1) ms t" by auto
  with json_value_json_members_json_items.intros(8,9)[where w = "[]" and n = "n - 1" and from_chars = from_chars]
    json_value_json_members_json_items.intros(8)[where w = "[]" and w' = "[]" and n = "n - 1" and from_chars = from_chars] 6(2) show ?case by auto
next
  case (8 to_chars spaced initial x xs)
  from 8(1)[of n] 8(3,4) obtain t where t: "dump_value to_chars spaced x = Some t" "json_value from_chars n x t" by auto
  from 8(2)[OF t(1), of n] 8(3,4) obtain u where u: "dump_items to_chars spaced False xs = Some u"
    "xs = [] \<and> u = [] \<or> (\<exists>t'. u = comma spaced @ t' \<and> json_items from_chars n xs t')" by auto
  from dump_items_step[OF t(2) u(2)] t(1) u(1) show ?case by auto
next
  case (10 to_chars spaced initial key x ms)
  from 10(1)[of n] 10(3,4) obtain t where t: "dump_value to_chars spaced x = Some t" "json_value from_chars n x t" by auto
  from 10(2)[OF t(1), of n] 10(3,4) obtain u where u: "dump_members to_chars spaced False ms = Some u"
    "ms = [] \<and> u = [] \<or> (\<exists>t'. u = comma spaced @ t' \<and> json_members from_chars n ms t')" by auto
  from dump_members_step[OF valid_escape[of key] t(2) u(2)] 10(3) t(1) u(1) show ?case by auto
qed (auto intro: json_value_json_members_json_items.intros(1-3)[of "[]", simplified])

lemma dump_parse:
  assumes "json_ok 128 v" "spells to_chars from_chars (numbers_of v)"
  shows "\<exists>t. dump_value to_chars spaced v = Some t \<and> parse from_chars t = Inr v"
  using dump_grammar(1)[OF assms, of spaced] by (force simp: parse_iff)

lemma number_token_iff [code]: "number_token u \<longleftrightarrow> skip_number u = Some []"
  using skip_number_sound[of u "[]"] skip_number_complete[of u "[]"] by (auto simp: ends_number_def)

section \<open>Properties\<close>

text \<open>C26. The JSON parser accepts exactly the grammar of RFC 8259, with at most 128 nested containers, no
  duplicate key and finite numbers, and returns the value the text spells: strings are unescaped (surrogate
  pairs joined, unpaired ones refused) and malformed UTF-8 is refused.\<close>

theorem json_parse_exact:
  "parse from_chars t = Inr v \<longleftrightarrow> (\<exists>u w. t = u @ w \<and> blank w \<and> json_value from_chars 128 v u)"
  by (rule parse_iff)

text \<open>C27. The JSON parser returns on every text: a value, or a refusal with its message. Its recursion is
  bounded by the text's length.\<close>

theorem json_parse_total: "(\<exists>v. parse from_chars t = Inr v) \<or> (\<exists>message. parse from_chars t = Inl (Fail message))"
proof (cases "parse from_chars t")
  case (Inl e)
  with parse_fuelled[of from_chars t] show ?thesis by (cases e) auto
qed simp

text \<open>C28. Every value the parser returns is within the limits the rest of the server relies on: containers
  nest at most 128 deep, the keys of an object are distinct, numbers are finite and every string is
  well-formed UTF-8, whatever escapes or bytes the text used.\<close>

theorem json_parse_limits:
  assumes "parse from_chars t = Inr v" shows "json_ok 128 v"
  using assms json_value_ok(1) by (auto simp: parse_iff)

theorem json_parse_limits_witness: "json_ok 128 (JArray [JNull, JObject [(''a'', JBool True)]])"
proof -
  have "parse (\<lambda>s. None) (''[null, {'' @ [quote] @ ''a'' @ [quote] @ '': true} ]'')
    = Inr (JArray [JNull, JObject [(''a'', JBool True)]])"
    by code_simp
  then show ?thesis by (rule json_parse_limits)
qed

text \<open>C29. Writing a value, compactly or with Jinja's spacing, and reading the text gives the value back,
  where the library's spelling of each of its numbers is one JSON number that reads as that number.\<close>

theorem json_roundtrip:
  assumes "json_ok 128 v" "spells to_chars from_chars (numbers_of v)"
  shows "(\<exists>t. dump to_chars v = Some t \<and> parse from_chars t = Inr v) \<and>
         (\<exists>t. tojson to_chars v = Some t \<and> parse from_chars t = Inr v)"
  using dump_parse[OF assms] by (simp add: dump_def tojson_def)

theorem json_roundtrip_witness:
  "\<exists>t. dump (\<lambda>d. if d = 0x3FF8000000000000 then ''1.5'' else ''0'')
     (JObject [(''a'', JArray [JNumber 0x3FF8000000000000, JNumber 0x4045000000000000, JNull]), (''b'', JString [quote])]) = Some t \<and>
   parse (\<lambda>s. if s = ''1.5'' then Some 0x3FF8000000000000 else if s = ''42'' then Some 0x4045000000000000 else None) t
     = Inr (JObject [(''a'', JArray [JNumber 0x3FF8000000000000, JNumber 0x4045000000000000, JNull]), (''b'', JString [quote])])"
proof -
  let ?v = "JObject [(''a'', JArray [JNumber 0x3FF8000000000000, JNumber 0x4045000000000000, JNull]), (''b'', JString [quote])]"
  let ?to = "\<lambda>d::f64. if d = 0x3FF8000000000000 then ''1.5'' else ''0''"
  let ?from = "\<lambda>s. if s = ''1.5'' then Some (0x3FF8000000000000::f64) else if s = ''42'' then Some 0x4045000000000000 else None"
  have "valid_utf8 (bytes_of_string ''a'')" "valid_utf8 (bytes_of_string ''b'')" "valid_utf8 (bytes_of_string [quote])"
    by code_simp+
  then have ok: "json_ok 128 ?v" by (simp add: f64_finite_def f64_exponent_def)
  have m: "f64_magnitude 0x3FF8000000000000 = None" "f64_magnitude 0x4045000000000000 = Some 42"
    by (simp_all add: f64_magnitude_def f64_scale_def f64_digits_def f64_exponent_def f64_mantissa_def)
  have d: "digits_of_nat 42 = ''42''" by code_simp
  have "skip_number ''1.5'' = Some []" "skip_number ''0'' = Some []" by code_simp+
  moreover have "number_chars ?to 0x3FF8000000000000 = ''1.5''" "number_chars ?to 0x4045000000000000 = ''42''"
    by (simp_all add: number_chars_def m k_exact_integers_def int_chars_def f64_negative_def d)
  ultimately have "spells ?to ?from (numbers_of ?v)"
    by (simp add: spells_def number_token_iff)
  with ok show ?thesis by (rule json_roundtrip[THEN conjunct1])
qed

end
