(* ===== verification/Stop_Request.thy ===== *)
theory Stop_Request
  imports Stop_Filter Json
begin

text \<open>
  \<open>ParseStopSequences\<close> (\<open>src/cli/serve/stop_sequences.hpp\<close>): the stop sequences of a request, from the
  JSON member of an OpenAI or an Anthropic request (\<open>None\<close> when it is absent). The result is the error,
  if any, and the output vector.
\<close>

datatype stop_sequence_format = KOpenAi | KAnthropic

datatype stop_request_error = NotStrings | BadStop | BadStopSequences | Invalid stop_error

text \<open>The loop over the array's items.\<close>

fun push_items :: "json list \<Rightarrow> string list \<Rightarrow> stop_request_error option \<times> string list" where
  "push_items [] output = (None, output)"
| "push_items (JString s # items) output = push_items items (output @ [s])"
| "push_items (item # items) output = (Some NotStrings, output)"

definition validated :: "stop_sequence_format \<Rightarrow> string list \<Rightarrow> stop_request_error option \<times> string list" where
  "validated fmt output =
     (map_option Invalid (validate_stop_sequences output (if fmt = KOpenAi then 4 else k_max_stop_sequences)), output)"

fun parse_stop_sequences ::
  "json option \<Rightarrow> stop_sequence_format \<Rightarrow> stop_request_error option \<times> string list" where
  "parse_stop_sequences None fmt = (None, [])"
| "parse_stop_sequences (Some v) fmt =
     (if fmt = KOpenAi \<and> v = JNull then (None, [])
      else case v of
        JString s \<Rightarrow> if fmt = KOpenAi then validated fmt [s] else (Some BadStopSequences, [])
      | JArray items \<Rightarrow>
          (case push_items items [] of
             (Some e, output) \<Rightarrow> (Some e, output)
           | (None, output) \<Rightarrow> validated fmt output)
      | _ \<Rightarrow> (Some (if fmt = KOpenAi then BadStop else BadStopSequences), []))"

section \<open>What a request may name\<close>

text \<open>The sequences a request names, before their sizes are checked.\<close>

fun named_stops :: "stop_sequence_format \<Rightarrow> json option \<Rightarrow> string list option" where
  "named_stops fmt None = Some []"
| "named_stops KOpenAi (Some JNull) = Some []"
| "named_stops KOpenAi (Some (JString s)) = Some [s]"
| "named_stops fmt (Some (JArray items)) =
     (if \<forall>item\<in>set items. \<exists>s. item = JString s then Some (map str_of items) else None)"
| "named_stops fmt (Some v) = None"

definition stops_fit :: "nat \<Rightarrow> string list \<Rightarrow> bool" where
  "stops_fit max_count stops \<longleftrightarrow> length stops \<le> max_count \<and>
     (\<forall>s\<in>set stops. s \<noteq> [] \<and> length s \<le> 4096) \<and> sum_list (map length stops) \<le> 16384"

lemma validate_loop_iff:
  "validate_loop stops n = None \<longleftrightarrow>
     (\<forall>s\<in>set stops. s \<noteq> [] \<and> length s \<le> 4096) \<and> (stops = [] \<or> n + sum_list (map length stops) \<le> 16384)"
  by (induction stops arbitrary: n)
    (auto simp: k_max_stop_sequence_bytes_def k_max_stop_total_bytes_def)

lemma validate_iff: "validate_stop_sequences stops max_count = None \<longleftrightarrow> stops_fit max_count stops"
  by (auto simp: validate_stop_sequences_def stops_fit_def validate_loop_iff)

lemma push_items_iff:
  "fst (push_items items out) = None \<longleftrightarrow> (\<forall>item\<in>set items. \<exists>s. item = JString s)"
  "fst (push_items items out) = None \<Longrightarrow> snd (push_items items out) = out @ map str_of items"
  by (induction items out rule: push_items.induct) (auto simp: str_of_def)

lemma parse_stops:
  "parse_stop_sequences v fmt = (None, stops) \<longleftrightarrow>
     named_stops fmt v = Some stops \<and> stops_fit (if fmt = KOpenAi then 4 else 64) stops"
proof (cases "(fmt, v)" rule: named_stops.cases)
  case (4 fmt' items)
  then show ?thesis
    using push_items_iff[of items "[]"]
    by (cases "push_items items []")
      (auto simp: validated_def validate_iff k_max_stop_sequences_def split: option.splits)
qed (auto simp: validated_def validate_iff k_max_stop_sequences_def stops_fit_def)

lemma fitting_filter:
  assumes "stops_fit n stops" "n \<le> 64"
  shows "new_stop_filter stops = Inr \<lparr>sf_sequences = stops, sf_pending = [], sf_match = None\<rparr>"
proof -
  have "validate_stop_sequences stops k_max_stop_sequences = None"
    using assms by (auto simp: validate_iff stops_fit_def k_max_stop_sequences_def)
  then show ?thesis by (simp add: new_stop_filter_def)
qed

text \<open>C30. A request's stop sequences are accepted exactly when they have the format's shape (nothing, one
  string or an array of strings; an array for Anthropic), are at most 4 (OpenAI) or 64, each of 1 to 4096
  bytes and 16384 in total, and then the filter of the stream is created with exactly these sequences: a
  request that passed never fails there.\<close>

theorem stop_request_exact:
  "parse_stop_sequences v fmt = (None, stops) \<longleftrightarrow>
     named_stops fmt v = Some stops \<and> stops_fit (if fmt = KOpenAi then 4 else 64) stops \<and>
     new_stop_filter stops = Inr \<lparr>sf_sequences = stops, sf_pending = [], sf_match = None\<rparr>"
  using parse_stops[of v fmt stops] fitting_filter[of "if fmt = KOpenAi then 4 else 64" stops] by auto

end
