(* ===== verification/Base64.thy ===== *)
theory Base64
  imports Gufo_Prelude "HOL-Library.Monad_Syntax"
begin

unbundle bit_operations_syntax

text \<open>
  The base64 codec of \<open>src/cli/serve/audio_stream.hpp\<close>, used for streamed audio and the WebSocket
  handshake. Bytes are \<open>u8\<close>, the text is a string; a failed decode is \<open>None\<close>. The decoder is strict:
  it accepts canonical text only, which the properties below make precise.
\<close>

section \<open>Encoding\<close>

definition alphabet :: string where
  "alphabet = ''ABCDEFGHIJKLMNOPQRSTUVWXYZabcdefghijklmnopqrstuvwxyz0123456789+/''"

definition symbol :: "u8 \<Rightarrow> char" where
  "symbol v = alphabet ! unat v"

definition pad :: char where "pad = CHR ''=''"

fun encode_base64 :: "u8 list \<Rightarrow> string" where
  "encode_base64 [] = []"
| "encode_base64 (a # rest) =
     (let b = (case rest of [] \<Rightarrow> 0 | b # _ \<Rightarrow> b);
          c = (case rest of _ # c # _ \<Rightarrow> c | _ \<Rightarrow> 0)
      in [symbol (drop_bit 2 a), symbol (push_bit 4 (a AND 3) OR drop_bit 4 b),
          if length rest \<ge> 1 then symbol (push_bit 2 (b AND 15) OR drop_bit 6 c) else pad,
          if length rest \<ge> 2 then symbol (c AND 63) else pad]
         @ encode_base64 (drop 2 rest))"

section \<open>Decoding\<close>

definition find_char :: "string \<Rightarrow> char \<Rightarrow> nat option" where
  "find_char s c = (let n = length (takeWhile (\<lambda>x. x \<noteq> c) s) in if n < length s then Some n else None)"

text \<open>One turn of the inner loop: \<open>last\<close> tells whether the group ends the text.\<close>

definition decode_char :: "bool \<Rightarrow> nat \<Rightarrow> char \<Rightarrow> u32 \<times> nat \<Rightarrow> (u32 \<times> nat) option" where
  "decode_char final j c st =
     (case st of (word, padding) \<Rightarrow>
        if c = pad then (if j < 2 \<or> \<not> final then None else Some (push_bit 6 word, padding + 1))
        else (case find_char alphabet c of
                None \<Rightarrow> None
              | Some value \<Rightarrow>
                  if padding \<noteq> 0 then None else Some (push_bit 6 word OR word_of_nat value, padding)))"

definition decode_group :: "bool \<Rightarrow> string \<Rightarrow> (u32 \<times> nat) option" where
  "decode_group final g = do {
     st \<leftarrow> decode_char final 0 (g ! 0) (0, 0);
     st \<leftarrow> decode_char final 1 (g ! 1) st;
     st \<leftarrow> decode_char final 2 (g ! 2) st;
     st \<leftarrow> decode_char final 3 (g ! 3) st;
     (case st of (word, padding) \<Rightarrow>
        if (padding = 1 \<and> word AND 255 \<noteq> 0) \<or> (padding = 2 \<and> word AND 65535 \<noteq> 0) then None
        else Some (word, padding))
   }"

definition group_bytes :: "u32 \<Rightarrow> nat \<Rightarrow> u8 list" where
  "group_bytes word count = map (\<lambda>j. ucast (drop_bit (16 - j * 8) word AND 255)) [0..<count]"

fun decode_groups :: "nat \<Rightarrow> string \<Rightarrow> u8 list \<Rightarrow> u8 list option" where
  "decode_groups limit t bytes =
     (if t = [] then Some bytes
      else do {
        (word, padding) \<leftarrow> decode_group (length t \<le> 4) (take 4 t);
        (if 3 - padding > limit - length bytes then None
         else decode_groups limit (drop 4 t) (bytes @ group_bytes word (3 - padding)))
      })"

declare decode_groups.simps [simp del]

definition decode_base64 :: "string \<Rightarrow> nat \<Rightarrow> u8 list option" where
  "decode_base64 t limit =
     (if length t mod 4 \<noteq> 0 \<or> length t div 4 > (limit + 2) div 3 then None
      else decode_groups limit t [])"

section \<open>The alphabet\<close>

lemma alphabet_length: "length alphabet = 64"
  by (simp add: alphabet_def)

lemma alphabet_distinct: "distinct alphabet"
  by (simp add: alphabet_def)

lemma pad_not_symbol: "pad \<notin> set alphabet"
  by (simp add: alphabet_def pad_def)

lemma takeWhile_index:
  "distinct s \<Longrightarrow> n < length s \<Longrightarrow> length (takeWhile (\<lambda>x. x \<noteq> s ! n) s) = n"
proof (induction s arbitrary: n)
  case (Cons a s)
  then show ?case by (cases n) auto
qed simp

lemma find_symbol:
  assumes "v < 64" shows "find_char alphabet (symbol v) = Some (unat v)" "symbol v \<noteq> pad"
proof -
  have v: "unat v < length alphabet" using assms by (simp add: alphabet_length word_less_nat_alt)
  then show "find_char alphabet (symbol v) = Some (unat v)"
    using takeWhile_index[OF alphabet_distinct v] by (simp add: find_char_def symbol_def)
  show "symbol v \<noteq> pad" using v pad_not_symbol nth_mem unfolding symbol_def by metis
qed

lemma find_char_symbol:
  assumes "find_char alphabet c = Some n"
  shows "n < 64" "c = symbol (word_of_nat n)" "c \<noteq> pad"
proof -
  have n: "n < length alphabet" "n = length (takeWhile (\<lambda>x. x \<noteq> c) alphabet)"
    using assms by (auto simp: find_char_def Let_def split: if_splits)
  then show "n < 64" by (simp add: alphabet_length)
  have c: "alphabet ! n = c" using n nth_length_takeWhile[of "\<lambda>x. x \<noteq> c" alphabet] by simp
  have "unat (word_of_nat n :: u8) = n" using \<open>n < 64\<close> by (simp add: unat_of_nat)
  with c show "c = symbol (word_of_nat n)" by (simp add: symbol_def)
  show "c \<noteq> pad" using c n(1) pad_not_symbol nth_mem by metis
qed

section \<open>Six-bit groups\<close>

definition pack :: "u8 \<Rightarrow> u8 \<Rightarrow> u8 \<Rightarrow> u8 \<Rightarrow> u32" where
  "pack p q r s = push_bit 6 (push_bit 6 (push_bit 6 (ucast p) OR ucast q) OR ucast r) OR ucast s"

lemma bit_six:
  assumes "v < (64::u8)" "bit v n" shows "n < 6"
proof -
  have "v = take_bit 6 v"
    using assms(1) by (simp add: take_bit_eq_mod word_less_nat_alt word_unat_eq_iff unat_mod)
  with assms(2) show ?thesis by (metis bit_take_bit_iff)
qed

lemma mask_numerals:
  "(3::u8) = mask 2" "(15::u8) = mask 4" "(63::u8) = mask 6" "(255::u32) = mask 8" "(65535::u32) = mask 16"
  by (simp_all add: mask_eq_exp_minus_1)

lemma group_unpack:
  "group_bytes (pack (drop_bit 2 a) (push_bit 4 (a AND 3) OR drop_bit 4 b)
     (push_bit 2 (b AND 15) OR drop_bit 6 c) (c AND 63)) 3 = [a, b, c]"
proof -
  let ?w = "pack (drop_bit 2 a) (push_bit 4 (a AND 3) OR drop_bit 4 b)
     (push_bit 2 (b AND 15) OR drop_bit 6 c) (c AND 63)"
  have "ucast (drop_bit 16 ?w AND 255) = a" "ucast (drop_bit 8 ?w AND 255) = b" "ucast (?w AND 255) = c"
    unfolding pack_def mask_numerals by (rule byte_eqI; simp add: bit_simps high_bits)+
  then show ?thesis by (simp add: group_bytes_def numeral_3_eq_3)
qed

lemma six_bits:
  assumes "v < (64::u8)" shows "\<not> bit v 6" "\<not> bit v 7"
  using bit_six[OF assms, of 6] bit_six[OF assms, of 7] by auto

lemma group_repack:
  assumes "p < 64" "q < 64" "r < 64" "s < 64" "group_bytes (pack p q r s) 3 = [a, b, c]"
  shows "drop_bit 2 a = p" "push_bit 4 (a AND 3) OR drop_bit 4 b = q"
    "push_bit 2 (b AND 15) OR drop_bit 6 c = r" "c AND 63 = s"
proof -
  note bits = six_bits[OF assms(1)] six_bits[OF assms(2)] six_bits[OF assms(3)] six_bits[OF assms(4)]
  let ?w = "pack p q r s"
  have abc: "a = ucast (drop_bit 16 ?w AND 255)" "b = ucast (drop_bit 8 ?w AND 255)" "c = ucast (?w AND 255)"
    using assms(5) by (simp_all add: group_bytes_def numeral_3_eq_3)
  show "drop_bit 2 a = p" "push_bit 4 (a AND 3) OR drop_bit 4 b = q"
    "push_bit 2 (b AND 15) OR drop_bit 6 c = r" "c AND 63 = s"
    unfolding abc pack_def mask_numerals by (rule byte_eqI; simp add: bit_simps high_bits bits)+
qed

lemma group_bytes_take: "n \<le> 3 \<Longrightarrow> group_bytes w n = take n (group_bytes w 3)"
  by (simp add: group_bytes_def take_map)

lemma low_zero:
  assumes "\<forall>i\<in>set [0..<n]. \<not> bit (w::u32) i" shows "w AND mask n = 0"
  using assms by (intro bit_eqI) (auto simp: bit_simps)

text \<open>The padded groups: the unused low bits are zero exactly when the last symbol carries none.\<close>

lemma pad1_zero: "pack p q (push_bit 2 (b AND 15)) 0 AND 255 = 0"
  unfolding mask_numerals pack_def by (rule low_zero) (auto simp: bit_simps high_bits)

lemma pad2_zero: "pack p (push_bit 4 (a AND 3)) 0 0 AND 65535 = 0"
  unfolding mask_numerals pack_def by (rule low_zero) (auto simp: bit_simps high_bits)

text \<open>The bytes a padded group drops are zero.\<close>

lemma dropped_zero:
  assumes "group_bytes w 3 = [a, b, c]"
  shows "w AND 255 = 0 \<Longrightarrow> c = 0" "w AND 65535 = 0 \<Longrightarrow> b = 0" "w AND 65535 = 0 \<Longrightarrow> c = 0"
proof -
  have bc: "b = ucast (drop_bit 8 w AND 255)" "c = ucast (w AND 255)"
    using assms by (simp_all add: group_bytes_def numeral_3_eq_3)
  show "w AND 255 = 0 \<Longrightarrow> c = 0" using bc(2) by simp
  have mask: "v AND 255 = (v AND 65535) AND 255" for v :: u32 by (simp add: and.assoc)
  show "c = 0" if h: "w AND 65535 = 0"
  proof -
    have "(w AND 65535) AND 255 = 0" unfolding h by simp
    then have "w AND 255 = 0" by (rule trans[OF mask])
    with bc(2) show ?thesis by simp
  qed
  have "drop_bit 8 w AND 255 = drop_bit 8 (w AND 65535) AND 255" by (simp add: drop_bit_and and.assoc)
  then show "b = 0" if h: "w AND 65535 = 0" using bc(1) unfolding h by simp
qed

section \<open>Groups\<close>

lemma symbol_word: "(word_of_nat (unat (v::u8)) :: u32) = ucast v"
  by simp

lemma decode_char_symbol:
  "v < 64 \<Longrightarrow> decode_char final j (symbol v) (w, 0) = Some (push_bit 6 w OR ucast v, 0)"
  by (simp add: decode_char_def find_symbol symbol_word)

lemma decode_char_pad:
  "decode_char final j pad (w, n) = (if j < 2 \<or> \<not> final then None else Some (push_bit 6 w, n + 1))"
  by (simp add: decode_char_def)

lemma decode_full:
  assumes "p < 64" "q < 64" "r < 64" "s < 64"
  shows "decode_group final [symbol p, symbol q, symbol r, symbol s] = Some (pack p q r s, 0)"
  using assms by (simp add: decode_group_def decode_char_symbol pack_def)

lemma decode_pad1:
  assumes "p < 64" "q < 64" "r < 64" "pack p q r 0 AND 255 = 0"
  shows "decode_group True [symbol p, symbol q, symbol r, pad] = Some (pack p q r 0, 1)"
  using assms by (simp add: decode_group_def decode_char_symbol decode_char_pad pack_def)

lemma decode_pad2:
  assumes "p < 64" "q < 64" "pack p q 0 0 AND 65535 = 0"
  shows "decode_group True [symbol p, symbol q, pad, pad] = Some (pack p q 0 0, 2)"
  using assms by (simp add: decode_group_def decode_char_symbol decode_char_pad pack_def)

text \<open>What one turn of the inner loop accepts.\<close>

lemma decode_charE:
  assumes "decode_char final j c (w, n) = Some (w', n')"
  obtains (pad) "c = pad" "2 \<le> j" "final" "w' = push_bit 6 w" "n' = n + 1"
  | (symbol) v where "c = symbol v" "v < 64" "n = 0" "n' = 0" "w' = push_bit 6 w OR ucast v"
proof (cases "c = Base64.pad")
  case True
  with assms pad show thesis by (auto simp: decode_char_pad split: if_splits)
next
  case False
  then obtain k where k: "find_char alphabet c = Some k" "n = 0" "n' = 0" "w' = push_bit 6 w OR word_of_nat k"
    using assms by (auto simp: decode_char_def split: option.splits if_splits)
  note f = find_char_symbol[OF k(1)]
  have "unat (word_of_nat k :: u8) = k" using f(1) by (simp add: unat_of_nat)
  then have "(word_of_nat k :: u8) < 64" "(word_of_nat k :: u32) = ucast (word_of_nat k :: u8)"
    using f(1) symbol_word[of "word_of_nat k"] by (simp_all add: word_less_nat_alt)
  with f(2) k show thesis by (intro symbol[of "word_of_nat k"]) auto
qed

lemma decode_groupE:
  assumes "decode_group final [c0, c1, c2, c3] = Some (w, n)"
  obtains (full) p q r s where "[c0, c1, c2, c3] = map symbol [p, q, r, s]" "p < 64" "q < 64" "r < 64" "s < 64"
      "w = pack p q r s" "n = 0"
  | (pad1) p q r where "final" "[c0, c1, c2, c3] = map symbol [p, q, r] @ [pad]" "p < 64" "q < 64" "r < 64"
      "w = pack p q r 0" "n = 1" "w AND 255 = 0"
  | (pad2) p q where "final" "[c0, c1, c2, c3] = map symbol [p, q] @ [pad, pad]" "p < 64" "q < 64"
      "w = pack p q 0 0" "n = 2" "w AND 65535 = 0"
proof -
  from assms obtain w0 n0 w1 n1 w2 n2 where
    d: "decode_char final 0 c0 (0, 0) = Some (w0, n0)" "decode_char final 1 c1 (w0, n0) = Some (w1, n1)"
      "decode_char final 2 c2 (w1, n1) = Some (w2, n2)" "decode_char final 3 c3 (w2, n2) = Some (w, n)"
    and z: "n = 1 \<Longrightarrow> w AND 255 = 0" "n = 2 \<Longrightarrow> w AND 65535 = 0"
    unfolding decode_group_def by (auto split: bind_splits prod.splits if_splits)
  from d(1) obtain p where p: "c0 = symbol p" "p < 64" "n0 = 0" "w0 = ucast p"
    by (cases rule: decode_charE) auto
  from d(2)[unfolded p] obtain q where q: "c1 = symbol q" "q < 64" "n1 = 0" "w1 = push_bit 6 (ucast p) OR ucast q"
    by (cases rule: decode_charE) auto
  from d(3)[unfolded q(3)] show thesis
  proof (cases rule: decode_charE)
    case pad
    with d(4) have "c3 = Base64.pad" "w = push_bit 6 w2" "n = 2"
      by (auto elim!: decode_charE)
    with pad p q z show thesis by (intro pad2[of p q]) (simp_all add: pack_def)
  next
    case r: (symbol r)
    from d(4)[unfolded r(4)] show thesis
    proof (cases rule: decode_charE)
      case pad
      with r p q z show thesis by (intro pad1[of p q r]) (simp_all add: pack_def)
    next
      case (symbol s)
      with r p q show thesis by (intro full[of p q r s]) (simp_all add: pack_def)
    qed
  qed
qed

section \<open>Properties\<close>

lemma byte_parts:
  "drop_bit 2 a < (64::u8)" "a AND 63 < (64::u8)"
  "push_bit 4 (a AND 3) OR drop_bit 4 b < (64::u8)" "push_bit 2 (a AND 15) OR drop_bit 6 b < (64::u8)"
  "push_bit 4 (a AND 3) < (64::u8)" "push_bit 2 (a AND 15) < (64::u8)"
proof -
  have six: "x < 64" if "\<not> bit x 6" "\<not> bit x 7" for x :: u8
  proof -
    have "take_bit 6 x = x" using that by (intro byte_eqI) (simp_all add: bit_simps)
    then have "x = x mod 64" by (simp add: take_bit_eq_mod)
    then have "unat x = unat (x mod 64)" by (rule arg_cong)
    also have "\<dots> < 64" by (simp add: unat_mod)
    finally show ?thesis by (simp add: word_less_nat_alt)
  qed
  show "drop_bit 2 a < (64::u8)" "a AND 63 < (64::u8)"
    "push_bit 4 (a AND 3) OR drop_bit 4 b < (64::u8)" "push_bit 2 (a AND 15) OR drop_bit 6 b < (64::u8)"
    "push_bit 4 (a AND 3) < (64::u8)" "push_bit 2 (a AND 15) < (64::u8)"
    unfolding mask_numerals by (rule six; simp add: bit_simps high_bits)+
qed

lemma decode_encode:
  "length out + length bs \<le> limit \<Longrightarrow> decode_groups limit (encode_base64 bs) out = Some (out @ bs)"
proof (induction bs arbitrary: out rule: encode_base64.induct)
  case 1
  then show ?case by (simp add: decode_groups.simps)
next
  case (2 a rest)
  consider "rest = []" | b where "rest = [b]" | b c more where "rest = b # c # more"
    by (cases rest; cases "tl rest") auto
  then show ?case
  proof cases
    case nil: 1
    have "group_bytes (pack (drop_bit 2 a) (push_bit 4 (a AND 3)) 0 0) 1 = [a]"
      using group_unpack[of a 0 0] by (simp add: group_bytes_take[of "Suc 0"])
    moreover have "decode_group True [symbol (drop_bit 2 a), symbol (push_bit 4 (a AND 3)), pad, pad]
        = Some (pack (drop_bit 2 a) (push_bit 4 (a AND 3)) 0 0, 2)"
      by (intro decode_pad2 byte_parts pad2_zero)
    ultimately show ?thesis unfolding nil
      by (subst decode_groups.simps) (use "2.prems" in \<open>simp add: decode_groups.simps[of _ "[]"]\<close>)
  next
    case b: 2
    have "group_bytes (pack (drop_bit 2 a) (push_bit 4 (a AND 3) OR drop_bit 4 b) (push_bit 2 (b AND 15)) 0) 2 = [a, b]"
      using group_unpack[of a b 0] by (simp add: group_bytes_take[of 2])
    moreover have "decode_group True [symbol (drop_bit 2 a), symbol (push_bit 4 (a AND 3) OR drop_bit 4 b),
        symbol (push_bit 2 (b AND 15)), pad]
        = Some (pack (drop_bit 2 a) (push_bit 4 (a AND 3) OR drop_bit 4 b) (push_bit 2 (b AND 15)) 0, 1)"
      by (intro decode_pad1 byte_parts pad1_zero)
    ultimately show ?thesis unfolding b
      by (subst decode_groups.simps)
        (use "2.prems" b in \<open>simp add: decode_groups.simps[of _ "[]"]\<close>)
  next
    case bc: 3
    have IH: "decode_groups limit (encode_base64 more) (out @ [a, b, c]) = Some (out @ a # b # c # more)"
      using "2.IH"[OF refl refl, of "out @ [a, b, c]"] bc "2.prems" by simp
    let ?q = "push_bit 4 (a AND 3) OR drop_bit 4 b" and ?r = "push_bit 2 (b AND 15) OR drop_bit 6 c"
    have "decode_group final [symbol (drop_bit 2 a), symbol ?q, symbol ?r, symbol (c AND 63)]
        = Some (pack (drop_bit 2 a) ?q ?r (c AND 63), 0)" for final
      by (intro decode_full byte_parts)
    moreover note group_unpack[of a b c]
    ultimately show ?thesis unfolding bc
      by (subst decode_groups.simps) (use bc "2.prems" IH in simp)
  qed
qed

lemma encode_length: "length (encode_base64 bs) = 4 * ((length bs + 2) div 3)"
proof (induction bs rule: encode_base64.induct)
  case (2 a rest)
  consider "rest = []" | b where "rest = [b]" | b c more where "rest = b # c # more"
    by (cases rest; cases "tl rest") auto
  moreover have "(5 + n) div 3 = Suc (Suc (Suc n) div 3)" for n :: nat by presburger
  ultimately show ?case using "2.IH"[OF refl refl] by cases auto
qed simp

lemma decode_group_exact:
  assumes "decode_group final [c0, c1, c2, c3] = Some (w, n)"
  shows "n \<le> 2" "n \<noteq> 0 \<Longrightarrow> final"
    "n \<noteq> 0 \<Longrightarrow> more = [] \<Longrightarrow> encode_base64 (group_bytes w (3 - n) @ more) = [c0, c1, c2, c3] @ encode_base64 more"
    "n = 0 \<Longrightarrow> encode_base64 (group_bytes w (3 - n) @ more) = [c0, c1, c2, c3] @ encode_base64 more"
proof -
  obtain a b c where abc: "group_bytes w 3 = [a, b, c]"
    by (simp add: group_bytes_def numeral_3_eq_3)
  note take = group_bytes_take[of _ w] and zero = dropped_zero[OF abc]
  have "n \<le> 2 \<and> (n \<noteq> 0 \<longrightarrow> final \<and> encode_base64 (group_bytes w (3 - n)) = [c0, c1, c2, c3]) \<and>
    (n = 0 \<longrightarrow> encode_base64 (group_bytes w 3 @ more) = [c0, c1, c2, c3] @ encode_base64 more)"
    using assms
  proof (cases rule: decode_groupE)
    case (full p q r s)
    have "group_bytes (pack p q r s) 3 = [a, b, c]" using abc full(6) by simp
    from group_repack[OF full(2-5) this] full(1) abc full(7) show ?thesis by simp
  next
    case (pad1 p q r)
    have "group_bytes (pack p q r 0) 3 = [a, b, c]" using abc pad1(6) by simp
    from group_repack[OF pad1(3-5) _ this] zero(1)[OF pad1(8)] pad1(1,2,7) abc show ?thesis
      by (simp add: take[of 2])
  next
    case (pad2 p q)
    have "group_bytes (pack p q 0 0) 3 = [a, b, c]" using abc pad2(5) by simp
    from group_repack[OF pad2(3,4) _ _ this] zero(2,3)[OF pad2(7)] pad2(1,2,6) abc show ?thesis
      by (simp add: take[of "Suc 0"])
  qed
  then show "n \<le> 2" "n \<noteq> 0 \<Longrightarrow> final"
    "n \<noteq> 0 \<Longrightarrow> more = [] \<Longrightarrow> encode_base64 (group_bytes w (3 - n) @ more) = [c0, c1, c2, c3] @ encode_base64 more"
    "n = 0 \<Longrightarrow> encode_base64 (group_bytes w (3 - n) @ more) = [c0, c1, c2, c3] @ encode_base64 more"
    by simp_all
qed

lemma four_chars:
  assumes "length t mod 4 = 0" "t \<noteq> []"
  obtains c0 c1 c2 c3 more where "t = c0 # c1 # c2 # c3 # more" "length more mod 4 = 0"
proof -
  have "4 \<le> length t" using assms by (cases "length t < 4") auto
  then obtain c0 c1 c2 c3 more where t: "t = c0 # c1 # c2 # c3 # more"
    by (auto simp: numeral_eq_Suc Suc_le_length_iff)
  with assms(1) have "length more mod 4 = 0" by simp
  from that[OF t this] show thesis .
qed

lemma decode_groups_exact:
  "length t mod 4 = 0 \<Longrightarrow> decode_groups limit t out = Some bs \<Longrightarrow> length out \<le> limit
    \<Longrightarrow> \<exists>xs. bs = out @ xs \<and> encode_base64 xs = t \<and> length bs \<le> limit"
proof (induction limit t out rule: decode_groups.induct)
  case (1 limit t out)
  show ?case
  proof (cases "t = []")
    case True
    with "1.prems" show ?thesis by (auto simp: decode_groups.simps)
  next
    case False
    from four_chars[OF "1.prems"(1) False] obtain c0 c1 c2 c3 more where
      t: "t = c0 # c1 # c2 # c3 # more" "length more mod 4 = 0" by blast
    from "1.prems"(2) False t obtain w n where
      g: "decode_group (length t \<le> 4) [c0, c1, c2, c3] = Some (w, n)" "3 - n \<le> limit - length out"
        "decode_groups limit more (out @ group_bytes w (3 - n)) = Some bs"
      by (subst (asm) decode_groups.simps) (auto split: bind_splits prod.splits if_splits)
    have len: "length (group_bytes w (3 - n)) = 3 - n" by (simp add: group_bytes_def)
    have "\<exists>xs. bs = (out @ group_bytes w (3 - n)) @ xs \<and> encode_base64 xs = more \<and> length bs \<le> limit"
      using "1.IH"[OF False _ refl, of w n] g t "1.prems"(3) len by auto
    then obtain xs where xs: "bs = (out @ group_bytes w (3 - n)) @ xs" "encode_base64 xs = more"
      "length bs \<le> limit" by blast
    have "xs = []" if "n \<noteq> 0"
    proof -
      have "more = []" using decode_group_exact(2)[OF g(1) that] t(1) by simp
      with xs(2) show ?thesis by (cases xs) (simp_all add: Let_def)
    qed
    then have "encode_base64 (group_bytes w (3 - n) @ xs) = t"
      using decode_group_exact(3,4)[OF g(1), of xs] xs(2) t(1) by (cases "n = 0") simp_all
    with xs show ?thesis by auto
  qed
qed

lemma decode_exact:
  "decode_base64 t limit = Some bs \<longleftrightarrow> encode_base64 bs = t \<and> length bs \<le> limit"
proof
  assume d: "decode_base64 t limit = Some bs"
  then show "encode_base64 bs = t \<and> length bs \<le> limit"
    using decode_groups_exact[of t limit "[]" bs] by (auto simp: decode_base64_def split: if_splits)
next
  assume t: "encode_base64 bs = t \<and> length bs \<le> limit"
  then have "(length bs + 2) div 3 \<le> (limit + 2) div 3" by (intro div_le_mono) simp
  then show "decode_base64 t limit = Some bs"
    using decode_encode[of "[]" bs limit] t by (auto simp: decode_base64_def encode_length)
qed


end
