(* ===== verification/Ws_Frames.thy ===== *)
theory Ws_Frames
  imports Gufo_Prelude
begin

unbundle bit_operations_syntax

text \<open>
  The WebSocket frame format of \<open>src/cli/serve/websocket.cpp\<close>: the frame writer of \<open>Send\<close> and the
  frame reader inside \<open>ReadLoop\<close>, on the bytes of the connection. A \<open>read_result\<close> separates a
  connection that ended inside a frame (\<open>Short\<close>) from a frame that closes the connection with a
  status code (\<open>Refused\<close>).
\<close>

section \<open>Big-endian lengths\<close>

definition be_value :: "u8 list \<Rightarrow> u64" where
  "be_value bytes = fold (\<lambda>b n. push_bit 8 n OR ucast b) bytes 0"

definition be_bytes :: "nat \<Rightarrow> u64 \<Rightarrow> u8 list" where
  "be_bytes count n = map (\<lambda>i. ucast (drop_bit (i * 8) n AND 255)) (rev [0..<count])"

section \<open>Writing\<close>

definition length_field :: "nat \<Rightarrow> u8 list" where
  "length_field len =
     (if len < 126 then [word_of_nat len]
      else let count = (if len \<le> 65535 then 2 else 8)
           in (if count = 2 then 126 else 127) # be_bytes count (word_of_nat len))"

definition frame_header :: "u8 \<Rightarrow> nat \<Rightarrow> u8 list" where
  "frame_header opcode len = (128 OR opcode) # length_field len"

definition frame_bytes :: "u8 \<Rightarrow> u8 list \<Rightarrow> u8 list" where
  "frame_bytes opcode payload = frame_header opcode (length payload) @ payload"

section \<open>Reading\<close>

datatype 'a read_result = Short | Refused u16 | Got 'a

fun and_then :: "'a read_result \<Rightarrow> ('a \<Rightarrow> 'b read_result) \<Rightarrow> 'b read_result" where
  "and_then Short f = Short"
| "and_then (Refused code) f = Refused code"
| "and_then (Got x) f = f x"

definition k_maximum_message :: nat where "k_maximum_message = 4194304"
definition k_maximum_queue :: nat where "k_maximum_queue = 8388608"

definition read_bytes :: "nat \<Rightarrow> u8 list \<Rightarrow> (u8 list \<times> u8 list) read_result" where
  "read_bytes n input = (if n \<le> length input then Got (take n input, drop n input) else Short)"

definition bad_header :: "u8 \<Rightarrow> u8 \<Rightarrow> bool" where
  "bad_header h0 h1 =
     (let final = (h0 AND 128 \<noteq> 0); opcode = h0 AND 15; control = (8 \<le> opcode)
      in h0 AND 112 \<noteq> 0 \<or> h1 AND 128 = 0
         \<or> (opcode \<noteq> 0 \<and> opcode \<noteq> 1 \<and> opcode \<noteq> 8 \<and> opcode \<noteq> 9 \<and> opcode \<noteq> 10)
         \<or> (control \<and> \<not> final))"

definition read_length :: "bool \<Rightarrow> u8 \<Rightarrow> u8 list \<Rightarrow> (u64 \<times> u8 list) read_result" where
  "read_length control h1 input =
     (let len = ucast (h1 AND 127) :: u64
      in if len < 126 then Got (len, input)
         else if control then Refused 1002
         else let count = (if len = 126 then 2 else 8)
              in and_then (read_bytes count input) (\<lambda>(extended, rest).
                   let len = be_value extended
                   in if (count = 8 \<and> extended ! 0 AND 128 \<noteq> 0) \<or> (count = 2 \<and> len < 126)
                        \<or> (count = 8 \<and> len \<le> 65535)
                      then Refused 1002 else Got (len, rest)))"

definition unmask :: "u8 list \<Rightarrow> u8 list \<Rightarrow> u8 list" where
  "unmask key payload = map (\<lambda>i. payload ! i XOR key ! (i mod 4)) [0..<length payload]"

definition read_frame :: "nat \<Rightarrow> u8 list \<Rightarrow> ((bool \<times> u8 \<times> u8 list) \<times> u8 list) read_result" where
  "read_frame held input =
     and_then (read_bytes 2 input) (\<lambda>(header, rest).
       let h0 = header ! 0; h1 = header ! 1;
           final = (h0 AND 128 \<noteq> 0); opcode = h0 AND 15; control = (8 \<le> opcode)
       in if bad_header h0 h1 then Refused 1002
          else and_then (read_length control h1 rest) (\<lambda>(len, rest).
            if unat len > k_maximum_message \<or> (\<not> control \<and> unat len > k_maximum_message - held)
            then Refused 1009
            else and_then (read_bytes 4 rest) (\<lambda>(key, rest).
              and_then (read_bytes (unat len) rest) (\<lambda>(payload, rest).
                Got ((final, opcode, unmask key payload), rest)))))"

section \<open>Big-endian round trips\<close>

lemma be_bytes_length [simp]: "length (be_bytes count n) = count"
  by (simp add: be_bytes_def)

lemma be_bytes_Suc: "be_bytes (Suc k) n = ucast (drop_bit (k * 8) n AND 255) # be_bytes k n"
  by (simp add: be_bytes_def)

lemma be_value_fold:
  "fold (\<lambda>b n. push_bit 8 n OR ucast b) (be_bytes k n) acc = push_bit (8 * k) acc OR take_bit (8 * k) (n::u64)"
proof (induction k arbitrary: acc)
  case 0
  then show ?case by (simp add: be_bytes_def)
next
  case (Suc k)
  have m: "(255::u64) = mask 8" by (simp add: mask_eq_exp_minus_1)
  show ?case unfolding be_bytes_Suc m fold_simps Suc
    by (rule bit_eqI) (auto simp: bit_simps algebra_simps)
qed

lemma be_value_bytes: "be_value (be_bytes k n) = take_bit (8 * k) n"
  by (simp add: be_value_def be_value_fold)

lemma be_fold_bit:
  "length (bytes :: u8 list) \<le> 8 \<Longrightarrow> n < 64 \<Longrightarrow>
    bit (fold (\<lambda>b n. push_bit 8 n OR ucast b) bytes (0::u64)) n
      \<longleftrightarrow> n div 8 < length bytes \<and> bit (rev bytes ! (n div 8)) (n mod 8)"
proof (induction bytes arbitrary: n rule: rev_induct)
  case Nil
  then show ?case by simp
next
  case (snoc b bytes)
  show ?case
  proof (cases "n < 8")
    case True
    then show ?thesis by (simp add: bit_simps)
  next
    case False
    then have "n div 8 = Suc ((n - 8) div 8)" "n mod 8 = (n - 8) mod 8" "n - 8 < 64"
      using snoc.prems by (simp_all add: le_div_geq le_mod_geq)
    with snoc False high_bits[of n b] show ?thesis by (simp add: bit_simps)
  qed
qed

lemma be_bytes_value:
  assumes "length bytes \<le> 8"
  shows "be_bytes (length bytes) (be_value bytes) = bytes"
proof (rule nth_equalityI)
  fix i assume "i < length (be_bytes (length bytes) (be_value bytes))"
  then have i: "i < length bytes" by simp
  define j where "j = length bytes - Suc i"
  have j: "j < 8" "j < length bytes" "rev bytes ! j = bytes ! i" "rev [0..<length bytes] ! i = j"
    using i assms by (simp_all add: j_def rev_nth)
  have m: "(255::u64) = mask 8" by (simp add: mask_eq_exp_minus_1)
  have "be_bytes (length bytes) (be_value bytes) ! i = ucast (drop_bit (j * 8) (be_value bytes) AND 255)"
    using i j by (simp add: be_bytes_def)
  also have "\<dots> = bytes ! i"
  proof (rule bit_eqI)
    fix n :: nat
    show "bit (ucast (drop_bit (j * 8) (be_value bytes) AND 255) :: u8) n = bit (bytes ! i) n"
    proof (cases "n < 8")
      case True
      with j have "n + j * 8 < 64" "(n + j * 8) div 8 = j" "(n + j * 8) mod 8 = n" by auto
      with True j be_fold_bit[OF assms, of "j * 8 + n"] show ?thesis
        unfolding m be_value_def by (simp add: bit_simps add.commute)
    qed (simp add: high_bits)
  qed
  finally show "be_bytes (length bytes) (be_value bytes) ! i = bytes ! i" .
qed simp

section \<open>The length field\<close>

lemma unmask_length [simp]: "length (unmask key payload) = length payload"
  by (simp add: unmask_def)

lemma unmask_involution [simp]: "unmask key (unmask key payload) = payload"
  by (rule nth_equalityI) (simp_all add: unmask_def xor.assoc)

lemma read_bytes_prefix [simp]: "length a = n \<Longrightarrow> read_bytes n (a @ b) = Got (a, b)"
  by (simp add: read_bytes_def)

lemma read_bytes_Got: "read_bytes n input = Got (a, b) \<longleftrightarrow> length a = n \<and> input = a @ b"
  by (auto simp: read_bytes_def)

lemma and_then_Got: "and_then r f = Got y \<longleftrightarrow> (\<exists>x. r = Got x \<and> f x = Got y)"
  by (cases r) auto

lemma low_seven: "n < 128 \<Longrightarrow> (128 OR word_of_nat n) AND 127 = (word_of_nat n :: u8)"
proof -
  assume "n < 128"
  then have "take_bit 7 (word_of_nat n :: u8) = word_of_nat n"
    by (simp add: take_bit_of_nat take_bit_nat_eq_self)
  then have "\<not> bit (word_of_nat n :: u8) 7" by (metis bit_take_bit_iff less_irrefl)
  moreover have "(127::u8) = mask 7" "(128::u8) = push_bit 7 1" by (simp_all add: mask_eq_exp_minus_1)
  ultimately show ?thesis by (intro byte_eqI) (simp_all add: bit_simps)
qed

lemma big_length: "len < 2 ^ 63 \<Longrightarrow> unat (word_of_nat len :: u64) = len"
  by (simp add: unat_of_nat)

lemma two_byte_value: "len \<le> 65535 \<Longrightarrow> be_value (be_bytes 2 (word_of_nat len)) = word_of_nat len"
  by (simp add: be_value_bytes take_bit_of_nat take_bit_nat_eq_self)

lemma eight_byte_value: "be_value (be_bytes 8 n) = n"
  by (simp add: be_value_bytes take_bit_word_eq_self)

lemma eight_byte_top: "len < 2 ^ 63 \<Longrightarrow> be_bytes 8 (word_of_nat len) ! 0 AND 128 = 0"
proof -
  assume "len < 2 ^ 63"
  then have "take_bit 63 (word_of_nat len :: u64) = word_of_nat len"
    by (simp add: take_bit_of_nat take_bit_nat_eq_self)
  then have "\<not> bit (word_of_nat len :: u64) 63" by (metis bit_take_bit_iff less_irrefl)
  moreover have "be_bytes 8 (word_of_nat len) ! 0 = ucast (drop_bit 56 (word_of_nat len :: u64) AND 255)"
    by (simp add: be_bytes_def upt_rec)
  moreover have "(255::u64) = mask 8" "(128::u8) = push_bit 7 1" by (simp_all add: mask_eq_exp_minus_1)
  ultimately show ?thesis by (intro byte_eqI) (simp_all add: bit_simps)
qed

lemma read_length_field:
  assumes "len < 2 ^ 63" "control \<Longrightarrow> len < 126"
  shows "read_length control (128 OR hd (length_field len)) (tl (length_field len) @ rest)
    = Got (word_of_nat len, rest)"
proof -
  consider (short) "len < 126" | (two) "126 \<le> len" "len \<le> 65535" | (eight) "65535 < len" by linarith
  then show ?thesis
  proof cases
    case short
    then have "ucast (word_of_nat len :: u8) = (word_of_nat len :: u64)"
      by (simp add: unsigned_of_nat take_bit_nat_eq_self)
    moreover have "(word_of_nat len :: u64) < 126" using short by (simp add: word_less_nat_alt unat_of_nat)
    ultimately show ?thesis using short low_seven[of len] by (simp add: read_length_def length_field_def)
  next
    case two
    then have "\<not> (word_of_nat len :: u64) < 126" by (simp add: word_less_nat_alt unat_of_nat)
    with two assms(2) two_byte_value[OF two(2)] show ?thesis
      by (auto simp: read_length_def length_field_def)
  next
    case eight
    then have "\<not> (word_of_nat len :: u64) \<le> 65535" using assms(1) by (simp add: word_le_nat_alt unat_of_nat)
    with eight assms eight_byte_top[OF assms(1)] show ?thesis
      by (auto simp: read_length_def length_field_def eight_byte_value)
  qed
qed

lemma top_seven: "h AND 128 \<noteq> 0 \<Longrightarrow> 128 OR (h AND 127) = (h :: u8)"
proof -
  assume h: "h AND 128 \<noteq> 0"
  have n: "(127::u8) = mask 7" "(128::u8) = push_bit 7 1" by (simp_all add: mask_eq_exp_minus_1)
  have "bit h 7"
  proof (rule ccontr)
    assume "\<not> bit h 7"
    then have "h AND 128 = 0" unfolding n by (intro byte_eqI) (simp_all add: bit_simps)
    with h show False by simp
  qed
  then show ?thesis unfolding n by (intro byte_eqI) (simp_all add: bit_simps)
qed

lemma read_length_Got:
  assumes "read_length control h input = Got (w, rest)" "h AND 128 \<noteq> 0"
  shows "h # input = (128 OR hd (length_field (unat w))) # tl (length_field (unat w)) @ rest
    \<and> (control \<longrightarrow> unat w < 126) \<and> unat w < 2 ^ 63"
proof -
  have h: "128 OR (h AND 127) = h" using assms(2) by (rule top_seven)
  have small: "unat (h AND 127) \<le> 127"
  proof -
    have "h AND 127 \<le> 127" by (rule word_and_le1)
    then show ?thesis by (simp add: word_le_nat_alt)
  qed
  then have wide: "unat (ucast (h AND 127) :: u64) = unat (h AND 127)"
    by (simp add: unsigned_ucast_eq take_bit_nat_eq_self)
  show ?thesis
  proof (cases "(ucast (h AND 127) :: u64) < 126")
    case True
    then have w: "w = ucast (h AND 127)" "rest = input" using assms(1) by (auto simp: read_length_def Let_def)
    then have u: "unat w = unat (h AND 127)" using wide by simp
    with True have "unat w < 126" using w by (simp add: word_less_nat_alt)
    then show ?thesis using h w(2) u by (simp add: length_field_def)
  next
    case False
    define count where "count = (if (ucast (h AND 127) :: u64) = 126 then 2 else 8 :: nat)"
    from False assms(1) obtain extended where
      c: "\<not> control" "length extended = count" "input = extended @ rest" "w = be_value extended"
      and r: "\<not> ((count = 8 \<and> extended ! 0 AND 128 \<noteq> 0) \<or> (count = 2 \<and> w < 126) \<or> (count = 8 \<and> w \<le> 65535))"
      unfolding read_length_def Let_def count_def[symmetric]
      by (auto simp: and_then_Got read_bytes_Got split: if_splits)
    have ext: "extended = be_bytes count w" using be_bytes_value[of extended] c(2,4)
      by (auto simp: count_def split: if_splits)
    have big: "126 \<le> unat (h AND 127)" using False wide by (simp add: word_less_nat_alt)
    show ?thesis
    proof (cases "count = 2")
      case True
      then have "unat (h AND 127) = 126" using wide by (auto simp: count_def word_unat_eq_iff split: if_splits)
      then have "h AND 127 = 126" by (simp add: word_unat_eq_iff)
      with h have h126: "h = 128 OR 126" by metis
      have "unat w < 65536"
      proof -
        have "w = be_value (be_bytes 2 w)" using c(4) ext True by metis
        also have "\<dots> = take_bit 16 w" by (simp add: be_value_bytes)
        finally have "w = take_bit 16 w" .
        then have "unat w = unat (take_bit 16 w)" by (rule arg_cong)
        then show ?thesis by (simp add: take_bit_eq_mod unat_mod)
      qed
      moreover have "126 \<le> unat w" using r True by (simp add: word_less_nat_alt)
      ultimately show ?thesis using c(1,3) h126 ext True by (simp add: length_field_def)
    next
      case False
      then have c8: "count = 8" by (simp add: count_def split: if_splits)
      then have "unat (h AND 127) \<noteq> 126" using wide by (auto simp: count_def word_unat_eq_iff split: if_splits)
      with big small have "h AND 127 = 127" by (simp add: word_unat_eq_iff)
      with h have h127: "h = 128 OR 127" by metis
      have "65535 < unat w" using r c8 by (simp add: word_le_nat_alt)
      moreover have "unat w < 2 ^ 63"
      proof -
        have n: "(255::u64) = mask 8" "(128::u8) = push_bit 7 1" by (simp_all add: mask_eq_exp_minus_1)
        have "extended ! 0 = ucast (drop_bit 56 w AND 255)"
          using ext c8 by (simp add: be_bytes_def upt_rec)
        then have t: "ucast (drop_bit 56 w AND 255) AND 128 = (0::u8)" using r c8 by simp
        have "\<not> bit w 63"
        proof
          assume "bit w 63"
          then have "bit (ucast (drop_bit 56 w AND 255) AND (128::u8)) 7" unfolding n by (simp add: bit_simps)
          with t show False by simp
        qed
        have "take_bit 63 w = w"
        proof (rule bit_eqI)
          fix n :: nat
          show "bit (take_bit 63 w) n = bit w n"
            using \<open>\<not> bit w 63\<close> bit_imp_le_length[of w n] by (cases "n < 63"; cases "n = 63") (auto simp: bit_simps)
        qed
        then have "unat w = unat (take_bit 63 w)" by simp
        then show ?thesis by (simp add: take_bit_eq_mod unat_mod)
      qed
      ultimately show ?thesis using c(1,3) h127 ext c8 by (simp add: length_field_def)
    qed
  qed
qed

section \<open>Frames\<close>

text \<open>What a client may send: the server's own format with the mask bit, a four-byte key and the payload
  masked by it; and when the reader takes such a frame while it holds \<open>held\<close> bytes of an unfinished
  message.\<close>

definition client_frame :: "bool \<Rightarrow> u8 \<Rightarrow> u8 list \<Rightarrow> u8 list \<Rightarrow> u8 list" where
  "client_frame final opcode key payload =
     ((if final then 128 else 0) OR opcode) # (128 OR hd (length_field (length payload)))
       # tl (length_field (length payload)) @ key @ unmask key payload"

definition acceptable :: "nat \<Rightarrow> bool \<Rightarrow> u8 \<Rightarrow> nat \<Rightarrow> bool" where
  "acceptable held final opcode len \<longleftrightarrow>
     opcode \<in> {0, 1, 8, 9, 10} \<and> (8 \<le> opcode \<longrightarrow> final \<and> len < 126) \<and> len \<le> k_maximum_message
     \<and> (opcode < 8 \<longrightarrow> len \<le> k_maximum_message - held)"

lemma header_parts:
  assumes "opcode \<in> {0, 1, 8, 9, 10 :: u8}"
  shows "((if final then 128 else 0) OR opcode) AND 15 = opcode"
    "(((if final then 128 else 0) OR opcode) AND 128 \<noteq> 0) = final"
    "((if final then 128 else 0) OR opcode) AND 112 = 0"
  using assms by (cases final; auto)+

lemma header_join:
  assumes "h AND 112 = (0::u8)"
  shows "((if h AND 128 \<noteq> 0 then 128 else 0) OR (h AND 15)) = h"
proof -
  have n: "(15::u8) = mask 4" "(128::u8) = push_bit 7 1" "(112::u8) = push_bit 4 (mask 3)"
    by (simp_all add: mask_eq_exp_minus_1)
  have mid: "\<not> bit h k" if k: "k \<in> {4, 5, 6}" for k
  proof
    assume "bit h k"
    then have "bit (h AND 112) k" using k unfolding n by (auto simp: bit_simps)
    with assms show False by simp
  qed
  have top: "h AND 128 \<noteq> 0 \<longleftrightarrow> bit h 7"
  proof
    assume "bit h 7"
    then have "bit (h AND 128) 7" unfolding n by (simp add: bit_simps)
    then show "h AND 128 \<noteq> 0" by auto
  next
    assume h: "h AND 128 \<noteq> 0"
    show "bit h 7"
    proof (rule ccontr)
      assume "\<not> bit h 7"
      then have "h AND 128 = 0" unfolding n by (intro byte_eqI) (simp_all add: bit_simps)
      with h show False by simp
    qed
  qed
  show ?thesis unfolding top unfolding n using mid by (intro byte_eqI) (simp_all add: bit_simps)
qed

lemma mask_bit_set: "(128 OR (b::u8)) AND 128 \<noteq> 0"
proof -
  have n: "(128::u8) = push_bit 7 1" by simp
  have "bit ((128 OR b) AND 128) 7" unfolding n by (simp add: bit_simps)
  then show ?thesis by auto
qed

lemma read_client_frame:
  assumes "acceptable held final opcode (length payload)" "length key = 4"
  shows "read_frame held (client_frame final opcode key payload @ rest) = Got ((final, opcode, payload), rest)"
proof -
  let ?n = "length payload"
  have op: "opcode \<in> {0, 1, 8, 9, 10}" and size: "?n < 2 ^ 63" "8 \<le> opcode \<Longrightarrow> ?n < 126"
    using assms(1) by (auto simp: acceptable_def k_maximum_message_def)
  note h = header_parts[OF op, of final]
  have ok: "\<not> bad_header ((if final then 128 else 0) OR opcode) (128 OR hd (length_field ?n))"
    using h op mask_bit_set assms(1) by (auto simp: bad_header_def Let_def acceptable_def)
  have lim: "\<not> (k_maximum_message < ?n \<or> \<not> 8 \<le> opcode \<and> k_maximum_message - held < ?n)"
    using assms(1) by (auto simp: acceptable_def)
  have n: "unat (word_of_nat ?n :: u64) = ?n" using size(1) by (rule big_length)
  have field: "read_length (8 \<le> opcode) (128 OR hd (length_field ?n)) (tl (length_field ?n) @ key @ unmask key payload @ rest)
      = Got (word_of_nat ?n, key @ unmask key payload @ rest)"
    using read_length_field[OF size] by simp
  have start: "read_bytes 2 (client_frame final opcode key payload @ rest) =
      Got ([(if final then 128 else 0) OR opcode, 128 OR hd (length_field ?n)],
        tl (length_field ?n) @ key @ unmask key payload @ rest)"
    by (simp add: read_bytes_def client_frame_def)
  show ?thesis unfolding read_frame_def start and_then.simps prod.case Let_def nth_Cons_0 One_nat_def nth_Cons_Suc
      h(1,2) if_not_P[OF ok] field n if_not_P[OF lim]
    using assms(2) by simp
qed

lemma read_frame_Got:
  assumes "read_frame held input = Got ((final, opcode, payload), rest)"
  obtains key where "length key = 4" "input = client_frame final opcode key payload @ rest"
    "acceptable held final opcode (length payload)"
proof -
  obtain header t1 where b: "read_bytes 2 input = Got (header, t1)"
    using assms unfolding read_frame_def by (auto simp: and_then_Got)
  note a = assms[unfolded read_frame_def b and_then.simps prod.case Let_def]
  have ok: "\<not> bad_header (header ! 0) (header ! 1)" using a by (auto split: if_splits)
  obtain w t2 where l: "read_length (8 \<le> header ! 0 AND 15) (header ! 1) t1 = Got (w, t2)"
    using a[unfolded if_not_P[OF ok]] by (auto simp: and_then_Got)
  note a = a[unfolded if_not_P[OF ok] l and_then.simps prod.case]
  have lim: "\<not> (unat w > k_maximum_message \<or> (\<not> 8 \<le> header ! 0 AND 15 \<and> unat w > k_maximum_message - held))"
    using a by (auto split: if_splits)
  obtain key t3 where k: "read_bytes 4 t2 = Got (key, t3)"
    using a[unfolded if_not_P[OF lim]] by (auto simp: and_then_Got)
  note a = a[unfolded if_not_P[OF lim] k and_then.simps prod.case]
  obtain masked t4 where p: "read_bytes (unat w) t3 = Got (masked, t4)"
    using a by (auto simp: and_then_Got)
  note a = a[unfolded p and_then.simps prod.case]
  have r: "length header = 2" "input = header @ t1" "\<not> bad_header (header ! 0) (header ! 1)"
    "read_length (8 \<le> header ! 0 AND 15) (header ! 1) t1 = Got (w, t2)"
    "length key = 4" "t2 = key @ t3" "length masked = unat w" "t3 = masked @ rest"
    "\<not> (unat w > k_maximum_message \<or> (\<not> 8 \<le> header ! 0 AND 15 \<and> unat w > k_maximum_message - held))"
    "final = (header ! 0 AND 128 \<noteq> 0)" "opcode = header ! 0 AND 15" "payload = unmask key masked"
    using b l k p a ok lim by (auto simp: read_bytes_Got)
  define h0 h1 where "h0 = header ! 0" "h1 = header ! 1"
  have hdr: "header = [h0, h1]" using r(1) unfolding h0_h1_def by (cases header rule: list.exhaust) (auto simp: length_Suc_conv)
  have m: "h1 AND 128 \<noteq> 0" "h0 AND 112 = 0" using r(3) unfolding h0_h1_def[symmetric]
    by (auto simp: bad_header_def Let_def)
  have len: "length payload = unat w" using r(7,12) by simp
  have "input = client_frame final opcode key payload @ rest"
    using read_length_Got[OF r(4)[folded h0_h1_def] m(1)] header_join[OF m(2)] r(2,6,8,10,11,12) len
    unfolding hdr h0_h1_def[symmetric] client_frame_def by simp
  moreover have not_control: "\<not> (8::u8) \<le> 1" by (simp add: word_le_nat_alt)
  have "acceptable held final opcode (length payload)"
    using read_length_Got[OF r(4)[folded h0_h1_def] m(1)] r(3,9,10,11) len not_control
    unfolding h0_h1_def[symmetric] acceptable_def bad_header_def Let_def by auto
  ultimately show thesis using that r(5) by blast
qed

text \<open>C32. The frame reader takes exactly the frames of the protocol: it returns a frame and the bytes
  after it precisely when the input starts with that frame, masked under some four-byte key, its length
  written in the shortest of the three encodings, a control frame being final and under 126 bytes, and
  the message it belongs to staying within 4 MiB.\<close>

theorem ws_frame_exact:
  "read_frame held input = Got ((final, opcode, payload), rest) \<longleftrightarrow>
    (\<exists>key. length key = 4 \<and> input = client_frame final opcode key payload @ rest)
    \<and> acceptable held final opcode (length payload)"
proof
  assume "read_frame held input = Got ((final, opcode, payload), rest)"
  then show "(\<exists>key. length key = 4 \<and> input = client_frame final opcode key payload @ rest)
    \<and> acceptable held final opcode (length payload)" by (auto elim: read_frame_Got)
qed (auto simp: read_client_frame)

end
