(* ===== verification/Web_Socket.thy ===== *)
theory Web_Socket
  imports Ws_Frames Utf8_Decoder
begin

unbundle bit_operations_syntax

text \<open>
  The WebSocket connection of \<open>src/cli/serve/websocket.cpp\<close>: the reader thread, which parses frames,
  answers pings and closes and fills the bounded message queue, and the operations of the consumer.
  The socket itself is outside the program: what will arrive on it (\<open>ws_input\<close>, buffered bytes
  first), whether the silence after that is an idle timeout or the end of the stream, and how many
  bytes it takes before a write fails (\<open>ws_room\<close>) are part of the state. \<open>ws_sent\<close> is what was
  written. The mutexes make each operation below one step.
\<close>

section \<open>State\<close>

datatype reader = Reading | Holding bool u8 "u8 list" | Finished

record web_socket =
  ws_input :: "u8 list"
  ws_idle_end :: bool
  ws_closed :: bool
  ws_messages :: "u8 list list"
  ws_queued_bytes :: nat
  ws_sent :: "u8 list"
  ws_room :: nat
  ws_reader :: reader
  ws_message :: "u8 list"
  ws_fragmented :: bool

definition new_socket :: "u8 list \<Rightarrow> u8 list \<Rightarrow> bool \<Rightarrow> nat \<Rightarrow> web_socket" where
  "new_socket buffered later idle_end room =
     \<lparr>ws_input = buffered @ later, ws_idle_end = idle_end, ws_closed = False, ws_messages = [],
      ws_queued_bytes = 0, ws_sent = [], ws_room = room, ws_reader = Reading, ws_message = [],
      ws_fragmented = False\<rparr>"

section \<open>Writing and closing\<close>

definition mark_closed :: "web_socket \<Rightarrow> bool \<times> web_socket" where
  "mark_closed s = (\<not> ws_closed s, s\<lparr>ws_closed := True\<rparr>)"

definition send_frame :: "u8 \<Rightarrow> u8 list \<Rightarrow> web_socket \<Rightarrow> bool \<times> web_socket" where
  "send_frame opcode bytes s =
     (if ws_closed s \<and> opcode \<noteq> 8 then (False, s)
      else let wire = frame_bytes opcode bytes
           in if length wire \<le> ws_room s
              then (True, s\<lparr>ws_sent := ws_sent s @ wire, ws_room := ws_room s - length wire\<rparr>)
              else (False, snd (mark_closed (s\<lparr>ws_sent := ws_sent s @ take (ws_room s) wire, ws_room := 0\<rparr>))))"

definition send_text :: "u8 list \<Rightarrow> web_socket \<Rightarrow> bool \<times> web_socket" where
  "send_text t s = send_frame 1 t s"

definition send_binary :: "u8 list \<Rightarrow> web_socket \<Rightarrow> bool \<times> web_socket" where
  "send_binary bytes s = send_frame 2 bytes s"

definition close_payload :: "u16 \<Rightarrow> u8 list" where
  "close_payload code = [ucast (drop_bit 8 code), ucast (code AND 255)]"

definition close_socket :: "u16 \<Rightarrow> web_socket \<Rightarrow> web_socket" where
  "close_socket code s =
     (case mark_closed s of (changed, s1) \<Rightarrow>
        if \<not> changed then s1
        else (snd (send_frame 8 (close_payload code) s1))\<lparr>ws_room := 0\<rparr>)"

definition receive_ready :: "web_socket \<Rightarrow> bool" where
  "receive_ready s \<longleftrightarrow> ws_closed s \<or> ws_messages s \<noteq> []"

definition receive_message :: "web_socket \<Rightarrow> u8 list option \<times> web_socket" where
  "receive_message s =
     (if ws_closed s then (None, s)
      else case ws_messages s of
             [] \<Rightarrow> (None, s)
           | m # ms \<Rightarrow> (Some m, s\<lparr>ws_messages := ms, ws_queued_bytes := ws_queued_bytes s - length m\<rparr>))"

section \<open>The reader\<close>

definition finish_reader :: "web_socket \<Rightarrow> web_socket" where
  "finish_reader s = (snd (mark_closed s))\<lparr>ws_reader := Finished\<rparr>"

definition refuse :: "u16 \<Rightarrow> web_socket \<Rightarrow> web_socket" where
  "refuse code s = (close_socket code s)\<lparr>ws_reader := Finished\<rparr>"

text \<open>Reading one frame: \<open>Read\<close> turns an idle timeout into a close with 1001, and the loop ends on any
  short read.\<close>

definition read_turn :: "web_socket \<Rightarrow> web_socket" where
  "read_turn s =
     (if ws_closed s then finish_reader s
      else case read_frame (length (ws_message s)) (ws_input s) of
             Short \<Rightarrow> finish_reader ((if ws_idle_end s then close_socket 1001 s else s)\<lparr>ws_input := []\<rparr>)
           | Refused code \<Rightarrow> refuse code s
           | Got ((final, opcode, payload), rest) \<Rightarrow>
               s\<lparr>ws_input := rest, ws_reader := Holding final opcode payload\<rparr>)"

definition bad_close_code :: "u32 \<Rightarrow> bool" where
  "bad_close_code code \<longleftrightarrow>
     code < 1000 \<or> code \<ge> 5000 \<or> code = 1004 \<or> code = 1005 \<or> code = 1006 \<or> code = 1015
     \<or> (code \<ge> 1016 \<and> code < 3000)"

definition take_close :: "u8 list \<Rightarrow> web_socket \<Rightarrow> web_socket" where
  "take_close payload s =
     (if length payload = 1 then refuse 1002 s
      else if length payload \<ge> 2
        \<and> bad_close_code (push_bit 8 (ucast (payload ! 0)) OR ucast (payload ! 1)) then refuse 1002 s
      else if length payload \<ge> 2 \<and> \<not> valid_utf8 (drop 2 payload) then refuse 1007 s
      else case mark_closed s of (changed, s1) \<Rightarrow>
             finish_reader (if changed then snd (send_frame 8 payload s1) else s1))"

definition take_data :: "bool \<Rightarrow> u8 \<Rightarrow> u8 list \<Rightarrow> web_socket \<Rightarrow> web_socket" where
  "take_data final opcode payload s =
     (if (opcode = 0) \<noteq> ws_fragmented s then refuse 1002 s
      else let message = ws_message s @ payload;
               s1 = s\<lparr>ws_message := message, ws_fragmented := \<not> final\<rparr>
           in if \<not> final then s1\<lparr>ws_reader := Reading\<rparr>
              else if \<not> valid_utf8 message then refuse 1007 s1
              else if length (ws_messages s1) \<ge> 128
                \<or> length message > k_maximum_queue - ws_queued_bytes s1 then refuse 1009 s1
              else s1\<lparr>ws_queued_bytes := ws_queued_bytes s1 + length message,
                      ws_messages := ws_messages s1 @ [message], ws_message := [], ws_reader := Reading\<rparr>)"

definition frame_turn :: "bool \<Rightarrow> u8 \<Rightarrow> u8 list \<Rightarrow> web_socket \<Rightarrow> web_socket" where
  "frame_turn final opcode payload s =
     (if opcode = 8 then take_close payload s
      else if opcode = 9 then
        (case send_frame 10 payload s of (sent, s1) \<Rightarrow>
           if sent then s1\<lparr>ws_reader := Reading\<rparr> else finish_reader s1)
      else if opcode = 10 then s\<lparr>ws_reader := Reading\<rparr>
      else take_data final opcode payload s)"

definition reader_turn :: "web_socket \<Rightarrow> web_socket" where
  "reader_turn s =
     (case ws_reader s of
        Reading \<Rightarrow> read_turn s
      | Holding final opcode payload \<Rightarrow> frame_turn final opcode payload s
      | Finished \<Rightarrow> s)"

lemmas socket_ops = mark_closed_def close_socket_def finish_reader_def refuse_def send_frame_def Let_def

lemma finish_reader_Finished [simp]: "ws_reader (finish_reader s) = Finished"
  by (simp add: finish_reader_def)

lemma refuse_Finished [simp]: "ws_reader (refuse code s) = Finished"
  by (simp add: refuse_def)

lemma send_frame_frame [simp]:
  "ws_input (snd (send_frame opcode bytes s)) = ws_input s"
  "ws_reader (snd (send_frame opcode bytes s)) = ws_reader s"
  "ws_message (snd (send_frame opcode bytes s)) = ws_message s"
  "ws_fragmented (snd (send_frame opcode bytes s)) = ws_fragmented s"
  "ws_messages (snd (send_frame opcode bytes s)) = ws_messages s"
  "ws_queued_bytes (snd (send_frame opcode bytes s)) = ws_queued_bytes s"
  "ws_idle_end (snd (send_frame opcode bytes s)) = ws_idle_end s"
  by (simp_all add: send_frame_def mark_closed_def Let_def)

lemma close_socket_frame [simp]:
  "ws_input (close_socket code s) = ws_input s"
  "ws_reader (close_socket code s) = ws_reader s"
  "ws_message (close_socket code s) = ws_message s"
  "ws_fragmented (close_socket code s) = ws_fragmented s"
  "ws_messages (close_socket code s) = ws_messages s"
  "ws_queued_bytes (close_socket code s) = ws_queued_bytes s"
  by (simp_all add: close_socket_def mark_closed_def)

lemma refuse_frame [simp]:
  "ws_input (refuse code s) = ws_input s" "ws_message (refuse code s) = ws_message s"
  "ws_fragmented (refuse code s) = ws_fragmented s" "ws_messages (refuse code s) = ws_messages s"
  "ws_queued_bytes (refuse code s) = ws_queued_bytes s"
  by (simp_all add: refuse_def)

lemma finish_reader_frame [simp]:
  "ws_input (finish_reader s) = ws_input s" "ws_message (finish_reader s) = ws_message s"
  "ws_fragmented (finish_reader s) = ws_fragmented s" "ws_messages (finish_reader s) = ws_messages s"
  "ws_queued_bytes (finish_reader s) = ws_queued_bytes s"
  by (simp_all add: finish_reader_def mark_closed_def)

section \<open>The reader's loop ends\<close>

lemma read_frame_shorter:
  assumes "read_frame held input = Got (f, rest)" shows "length rest + 6 \<le> length input"
proof -
  obtain final opcode payload where f: "f = (final, opcode, payload)" by (cases f) auto
  obtain key where "length key = 4" "input = client_frame final opcode key payload @ rest"
    using read_frame_Got[OF assms[unfolded f]] by metis
  then show ?thesis by (simp add: client_frame_def)
qed

definition reader_rank :: "web_socket \<Rightarrow> nat" where
  "reader_rank s = 2 * length (ws_input s) +
     (case ws_reader s of Reading \<Rightarrow> 1 | Holding _ _ _ \<Rightarrow> 2 | Finished \<Rightarrow> 0)"

lemma read_turn_rank: "ws_reader s = Reading \<Longrightarrow> reader_rank (read_turn s) < reader_rank s"
  using read_frame_shorter[of "length (ws_message s)" "ws_input s"]
  by (fastforce simp: read_turn_def reader_rank_def split: read_result.splits)

lemma frame_turn_rank:
  "ws_reader s = Holding final opcode payload \<Longrightarrow> reader_rank (frame_turn final opcode payload s) < reader_rank s"
  by (simp add: frame_turn_def take_close_def take_data_def reader_rank_def mark_closed_def Let_def split_beta)

lemma reader_turn_rank: "ws_reader s \<noteq> Finished \<Longrightarrow> reader_rank (reader_turn s) < reader_rank s"
  by (cases "ws_reader s") (simp_all add: reader_turn_def read_turn_rank frame_turn_rank)

function read_loop :: "web_socket \<Rightarrow> web_socket" where
  "read_loop s = (if ws_reader s = Finished then s else read_loop (reader_turn s))"
  by auto
termination by (relation "measure reader_rank") (simp_all add: reader_turn_rank)

declare read_loop.simps [simp del]

section \<open>Interleaving with the consumer\<close>

inductive ws_step :: "web_socket \<Rightarrow> web_socket \<Rightarrow> bool" where
  step_reader: "ws_reader s \<noteq> Finished \<Longrightarrow> ws_step s (reader_turn s)"
| step_receive: "receive_ready s \<Longrightarrow> ws_step s (snd (receive_message s))"
| step_text: "ws_step s (snd (send_text t s))"
| step_binary: "ws_step s (snd (send_binary bytes s))"
| step_close: "ws_step s (close_socket code s)"

inductive ws_reachable :: "web_socket \<Rightarrow> bool" where
  reach_new: "ws_reachable (new_socket buffered later idle_end room)"
| reach_step: "ws_reachable s \<Longrightarrow> ws_step s s' \<Longrightarrow> ws_reachable s'"

end
