(* ===== verification/Web_Socket_Properties.thy ===== *)
theory Web_Socket_Properties
  imports Web_Socket
begin

text \<open>
  What the WebSocket connection guarantees in every interleaving of its reader with the consumer: the
  bounds of the message queue, the shape of everything written, and the delivery of a fragmented
  message with control frames between its fragments.
\<close>

section \<open>The queue\<close>

definition queue_ok :: "web_socket \<Rightarrow> bool" where
  "queue_ok s \<longleftrightarrow>
     length (ws_messages s) \<le> 128 \<and> ws_queued_bytes s = sum_list (map length (ws_messages s))
     \<and> ws_queued_bytes s \<le> k_maximum_queue
     \<and> (\<forall>m\<in>set (ws_messages s). well_formed m \<and> length m \<le> k_maximum_message)"

definition reader_ok :: "web_socket \<Rightarrow> bool" where
  "reader_ok s \<longleftrightarrow>
     length (ws_message s) \<le> k_maximum_message \<and>
     (case ws_reader s of
        Holding final opcode payload \<Rightarrow>
          opcode \<noteq> 8 \<and> opcode \<noteq> 9 \<and> opcode \<noteq> 10 \<longrightarrow> length (ws_message s) + length payload \<le> k_maximum_message
      | _ \<Rightarrow> True)"

lemma queue_okI:
  assumes "queue_ok s" "ws_messages t = ws_messages s" "ws_queued_bytes t = ws_queued_bytes s"
  shows "queue_ok t"
  using assms by (simp add: queue_ok_def)

lemma reader_ok_free:
  assumes "length (ws_message t) \<le> k_maximum_message" "ws_reader t = Reading \<or> ws_reader t = Finished"
  shows "reader_ok t"
  using assms by (auto simp: reader_ok_def)

lemma read_turn_ok:
  assumes "queue_ok s" "reader_ok s"
  shows "queue_ok (read_turn s) \<and> reader_ok (read_turn s)"
proof (cases "read_frame (length (ws_message s)) (ws_input s)")
  case (Got f)
  obtain final opcode payload rest where f: "f = ((final, opcode, payload), rest)" by (cases f) auto
  have "acceptable (length (ws_message s)) final opcode (length payload)"
    using read_frame_Got[OF Got[unfolded f]] by metis
  moreover have "(8::u8) \<noteq> 0" "(0::u8) < 8" "(1::u8) < 8" by (simp_all add: word_less_nat_alt)
  ultimately have "opcode \<noteq> 8 \<and> opcode \<noteq> 9 \<and> opcode \<noteq> 10 \<Longrightarrow>
      length payload \<le> k_maximum_message - length (ws_message s)"
    by (auto simp: acceptable_def)
  with assms Got f show ?thesis
    by (auto simp: read_turn_def reader_ok_def intro: queue_okI)
qed (use assms in \<open>auto simp: read_turn_def intro!: queue_okI[of s] reader_ok_free simp: reader_ok_def\<close>)

lemma take_data_ok:
  assumes "queue_ok s" "reader_ok s" "ws_reader s = Holding final opcode payload"
    "opcode \<noteq> 8" "opcode \<noteq> 9" "opcode \<noteq> 10"
  shows "queue_ok (take_data final opcode payload s) \<and> reader_ok (take_data final opcode payload s)"
proof -
  have len: "length (ws_message s) + length payload \<le> k_maximum_message" "length (ws_message s) \<le> k_maximum_message"
    using assms by (auto simp: reader_ok_def)
  show ?thesis
    using assms(1) len
    by (auto simp: take_data_def Let_def valid_utf8_iff queue_ok_def intro!: reader_ok_free)
qed

lemma frame_turn_ok:
  assumes "queue_ok s" "reader_ok s" "ws_reader s = Holding final opcode payload"
  shows "queue_ok (frame_turn final opcode payload s) \<and> reader_ok (frame_turn final opcode payload s)"
proof -
  have "length (ws_message s) \<le> k_maximum_message" using assms(2) by (simp add: reader_ok_def)
  with assms(1) take_data_ok[OF assms] show ?thesis
    by (auto simp: frame_turn_def take_close_def split_beta intro!: queue_okI[of s] reader_ok_free
        simp: mark_closed_def)
qed

lemma reader_turn_ok:
  "queue_ok s \<Longrightarrow> reader_ok s \<Longrightarrow> queue_ok (reader_turn s) \<and> reader_ok (reader_turn s)"
  by (cases "ws_reader s") (simp_all add: reader_turn_def read_turn_ok frame_turn_ok)

lemma reader_ok_same:
  "reader_ok s \<Longrightarrow> ws_message t = ws_message s \<Longrightarrow> ws_reader t = ws_reader s \<Longrightarrow> reader_ok t"
  by (simp add: reader_ok_def split: reader.splits)

lemma receive_ok:
  assumes "queue_ok s" "reader_ok s"
  shows "queue_ok (snd (receive_message s)) \<and> reader_ok (snd (receive_message s))"
proof
  show "queue_ok (snd (receive_message s))"
    using assms(1) by (auto simp: receive_message_def queue_ok_def split: list.splits)
  show "reader_ok (snd (receive_message s))"
    by (rule reader_ok_same[OF assms(2)]) (auto simp: receive_message_def split: list.splits)
qed

lemma reachable_queue: "ws_reachable s \<Longrightarrow> queue_ok s \<and> reader_ok s"
proof (induction rule: ws_reachable.induct)
  case (reach_new buffered later idle_end room)
  then show ?case by (simp add: new_socket_def queue_ok_def reader_ok_def)
next
  case (reach_step s s')
  from reach_step(2) show ?case
    using reach_step(3)
    by cases (auto simp: reader_turn_ok receive_ok send_text_def send_binary_def
        intro: queue_okI[of s] reader_ok_same[of s])
qed

text \<open>C33. The queue bounds hold in every interleaving: at most 128 messages wait, \<open>queued_bytes_\<close> is exactly
  their total size and at most 8 MiB, and each is well-formed UTF-8 of at most 4 MiB.\<close>

theorem ws_queue_bounded:
  assumes "ws_reachable s"
  shows "length (ws_messages s) \<le> 128 \<and> ws_queued_bytes s = sum_list (map length (ws_messages s))
    \<and> ws_queued_bytes s \<le> k_maximum_queue
    \<and> (\<forall>m\<in>set (ws_messages s). well_formed m \<and> length m \<le> k_maximum_message)"
  using reachable_queue[OF assms] by (simp add: queue_ok_def)

theorem ws_queue_bounded_witness:
  "length (ws_messages (snd (send_text [65] (new_socket [] [1, 2] True 100)))) \<le> 128"
  using ws_queue_bounded[OF reach_step[OF reach_new step_text], of "[65]" "[]" "[1, 2]" True 100] by blast

section \<open>The output\<close>

text \<open>\<open>frames\<close> were written in full; \<open>partial\<close> is what a last frame got through, after which the
  connection is closed.\<close>

definition framed :: "web_socket \<Rightarrow> (u8 \<times> u8 list) list \<Rightarrow> u8 list \<Rightarrow> bool" where
  "framed s frames partial \<longleftrightarrow>
     ws_sent s = concat (map (\<lambda>(opcode, payload). frame_bytes opcode payload) frames) @ partial
     \<and> (\<forall>(opcode, payload)\<in>set frames. opcode = 1 \<or> opcode = 2 \<or> opcode = 10)
     \<and> (if ws_closed s then \<exists>opcode payload missing. frame_bytes opcode payload = partial @ missing
        else partial = [])"

definition output_ok :: "web_socket \<Rightarrow> bool" where
  "output_ok s \<longleftrightarrow> (\<exists>frames partial. framed s frames partial)"

lemma output_same:
  assumes "output_ok s" "ws_sent t = ws_sent s" "ws_closed t = ws_closed s" shows "output_ok t"
  using assms by (simp add: output_ok_def framed_def)

lemma output_closed:
  assumes "output_ok s" "ws_sent t = ws_sent s" "ws_closed t" shows "output_ok t"
proof -
  from assms(1) obtain frames partial where f: "framed s frames partial" by (auto simp: output_ok_def)
  have "\<exists>opcode payload missing. frame_bytes opcode payload = partial @ missing"
  proof (cases "ws_closed s")
    case False
    with f have "partial = []" by (simp add: framed_def)
    then show ?thesis by auto
  qed (use f in \<open>simp add: framed_def\<close>)
  with f assms(2,3) have "framed t frames partial" by (simp add: framed_def)
  then show ?thesis by (auto simp: output_ok_def)
qed

lemma framed_partial:
  assumes "output_ok s" "\<not> ws_closed s" "ws_closed t"
    "ws_sent t = ws_sent s @ partial" "frame_bytes opcode payload = partial @ missing"
  shows "output_ok t"
proof -
  from assms(1,2) obtain frames where "framed s frames []" by (auto simp: output_ok_def framed_def)
  with assms(3-5) have "framed t frames partial" by (auto simp: framed_def)
  then show ?thesis by (auto simp: output_ok_def)
qed

lemma send_frame_output:
  assumes "output_ok s" "opcode = 1 \<or> opcode = 2 \<or> opcode = 10"
  shows "output_ok (snd (send_frame opcode payload s))"
proof (cases "ws_closed s")
  case True
  with assms show ?thesis by (auto simp: send_frame_def)
next
  case alive: False
  show ?thesis
  proof (cases "length (frame_bytes opcode payload) \<le> ws_room s")
    case True
    from assms(1) alive obtain frames where "framed s frames []" by (auto simp: output_ok_def framed_def)
    with True alive assms(2) have "framed (snd (send_frame opcode payload s)) (frames @ [(opcode, payload)]) []"
      by (auto simp: framed_def send_frame_def Let_def)
    then show ?thesis by (auto simp: output_ok_def)
  next
    case False
    let ?wire = "frame_bytes opcode payload"
    show ?thesis
      by (rule framed_partial[OF assms(1) alive, where partial = "take (ws_room s) ?wire"
            and opcode = opcode and payload = payload and missing = "drop (ws_room s) ?wire"])
        (use False alive in \<open>simp_all add: send_frame_def mark_closed_def Let_def\<close>)
  qed
qed

lemma close_frame_output:
  assumes "output_ok s" "\<not> ws_closed s"
  shows "output_ok (snd (send_frame 8 payload (s\<lparr>ws_closed := True\<rparr>)))"
proof -
  let ?wire = "frame_bytes 8 payload"
  show ?thesis
    by (rule framed_partial[OF assms, where partial = "take (ws_room s) ?wire"
          and opcode = 8 and payload = payload and missing = "drop (ws_room s) ?wire"])
      (simp_all add: send_frame_def mark_closed_def Let_def)
qed

lemma close_socket_output: "output_ok s \<Longrightarrow> output_ok (close_socket code s)"
  using close_frame_output[of s "close_payload code"]
  by (cases "ws_closed s") (auto simp: close_socket_def mark_closed_def intro: output_closed output_same)

lemma refuse_output: "output_ok s \<Longrightarrow> output_ok (refuse code s)"
  unfolding refuse_def by (rule output_same[OF close_socket_output]) simp_all

lemma finish_output: "output_ok s \<Longrightarrow> output_ok (finish_reader s)"
  by (rule output_closed) (simp_all add: finish_reader_def mark_closed_def)

lemma reader_turn_output: "output_ok s \<Longrightarrow> output_ok (reader_turn s)"
proof -
  assume ok: "output_ok s"
  have data: "output_ok (take_data final opcode payload s)" for final opcode payload
    using ok by (auto simp: take_data_def Let_def intro!: refuse_output intro: output_same)
  have close: "output_ok (take_close payload s)" for payload
    using ok close_frame_output[OF ok, of payload]
    by (auto simp: take_close_def mark_closed_def intro!: refuse_output finish_output intro: output_closed)
  have ping: "output_ok (snd (send_frame 10 payload s))" for payload
    using ok by (rule send_frame_output) simp
  have "output_ok (frame_turn final opcode payload s)" for final opcode payload
    using ok data close ping[of payload]
    by (auto simp: frame_turn_def split_beta intro: output_same intro!: finish_output)
  moreover have "output_ok (read_turn s)"
    using ok by (auto simp: read_turn_def intro!: finish_output refuse_output
        intro: output_same output_same[OF close_socket_output[OF ok]] split: read_result.splits)
  ultimately show ?thesis using ok by (simp add: reader_turn_def split: reader.splits)
qed

lemma step_output: "ws_step s s' \<Longrightarrow> output_ok s \<Longrightarrow> output_ok s'"
proof (induction rule: ws_step.induct)
  case (step_receive s)
  show ?case
    by (rule output_same[OF step_receive.prems]) (auto simp: receive_message_def split: list.splits)
qed (simp_all add: reader_turn_output send_text_def send_binary_def send_frame_output close_socket_output)

lemma reachable_output: "ws_reachable s \<Longrightarrow> output_ok s"
proof (induction rule: ws_reachable.induct)
  case (reach_new buffered later idle_end room)
  have "framed (new_socket buffered later idle_end room) [] []" by (simp add: framed_def new_socket_def)
  then show ?case by (auto simp: output_ok_def)
qed (rule step_output)

lemma closed_step:
  assumes "ws_step s s'" "ws_closed s" shows "ws_closed s' \<and> ws_sent s' = ws_sent s"
  using assms
proof (induction rule: ws_step.induct)
  case (step_reader s)
  then show ?case
    by (auto simp: reader_turn_def read_turn_def frame_turn_def take_close_def take_data_def refuse_def
        finish_reader_def close_socket_def mark_closed_def send_frame_def Let_def split: reader.splits)
qed (auto simp: receive_message_def send_text_def send_binary_def send_frame_def close_socket_def mark_closed_def
    split: list.splits)



section \<open>Delivery\<close>

text \<open>A client sends a message in any number of fragments, with pings and pongs before each of them.\<close>

datatype control_frame = Ping "u8 list" "u8 list" | Pong "u8 list" "u8 list"

fun control_wire :: "control_frame \<Rightarrow> u8 list" where
  "control_wire (Ping key payload) = client_frame True 9 key payload"
| "control_wire (Pong key payload) = client_frame True 10 key payload"

fun control_ok :: "control_frame \<Rightarrow> bool" where
  "control_ok (Ping key payload) \<longleftrightarrow> length key = 4 \<and> length payload < 126"
| "control_ok (Pong key payload) \<longleftrightarrow> length key = 4 \<and> length payload < 126"

fun control_reply :: "control_frame \<Rightarrow> u8 list" where
  "control_reply (Ping key payload) = frame_bytes 10 payload"
| "control_reply (Pong key payload) = []"

type_synonym fragment = "control_frame list \<times> u8 list \<times> u8 list"

fun fragment_wire :: "bool \<Rightarrow> bool \<Rightarrow> fragment \<Rightarrow> u8 list" where
  "fragment_wire initial final (controls, key, piece) =
     concat (map control_wire controls) @ client_frame final (if initial then 1 else 0) key piece"

fun message_wire :: "bool \<Rightarrow> fragment list \<Rightarrow> u8 list" where
  "message_wire initial [] = []"
| "message_wire initial (f # fs) = fragment_wire initial (fs = []) f @ message_wire False fs"

definition replies :: "fragment list \<Rightarrow> u8 list" where
  "replies fs = concat (map (\<lambda>(controls, key, piece). concat (map control_reply controls)) fs)"

definition message_text :: "fragment list \<Rightarrow> u8 list" where
  "message_text fs = concat (map (\<lambda>(controls, key, piece). piece) fs)"

definition fragment_ok :: "fragment \<Rightarrow> bool" where
  "fragment_ok f \<longleftrightarrow> (case f of (controls, key, piece) \<Rightarrow> length key = 4 \<and> (\<forall>c\<in>set controls. control_ok c))"

definition answered :: "web_socket \<Rightarrow> u8 list \<Rightarrow> u8 list \<Rightarrow> web_socket" where
  "answered s rest reply =
     s\<lparr>ws_input := rest, ws_sent := ws_sent s @ reply, ws_room := ws_room s - length reply\<rparr>"

lemma loop_step: "ws_reader s \<noteq> Finished \<Longrightarrow> read_loop s = read_loop (reader_turn s)"
  by (subst read_loop.simps) simp

lemma loop_frame:
  assumes "ws_reader s = Reading" "\<not> ws_closed s" "ws_input s = client_frame final opcode key payload @ rest"
    "acceptable (length (ws_message s)) final opcode (length payload)" "length key = 4"
  shows "read_loop s = read_loop (frame_turn final opcode payload
    (s\<lparr>ws_input := rest, ws_reader := Holding final opcode payload\<rparr>))"
proof -
  let ?s = "s\<lparr>ws_input := rest, ws_reader := Holding final opcode payload\<rparr>"
  have "reader_turn s = ?s"
    using assms read_client_frame[OF assms(4,5), of rest] by (simp add: reader_turn_def read_turn_def)
  moreover have "reader_turn ?s = frame_turn final opcode payload ?s" by (simp add: reader_turn_def)
  ultimately show ?thesis using loop_step[of s] loop_step[of ?s] assms(1) by simp
qed

lemma loop_control:
  assumes "ws_reader s = Reading" "\<not> ws_closed s" "ws_input s = control_wire c @ rest" "control_ok c"
    "length (control_reply c) \<le> ws_room s"
  shows "read_loop s = read_loop (answered s rest (control_reply c))"
proof (cases c)
  case (Ping key payload)
  have "acceptable (length (ws_message s)) True 9 (length payload)" "length key = 4"
    using Ping assms(4) by (auto simp: acceptable_def k_maximum_message_def word_less_nat_alt)
  from loop_frame[OF assms(1,2) _ this, of rest] Ping assms show ?thesis
    by (cases s) (simp add: frame_turn_def send_frame_def Let_def answered_def)
next
  case (Pong key payload)
  have "acceptable (length (ws_message s)) True 10 (length payload)" "length key = 4"
    using Pong assms(4) by (auto simp: acceptable_def k_maximum_message_def word_less_nat_alt)
  from loop_frame[OF assms(1,2) _ this, of rest] Pong assms show ?thesis
    by (cases s) (simp add: frame_turn_def answered_def)
qed

lemma answered_answered [simp]: "answered (answered s r a) r' b = answered s r' (a @ b)"
  by (simp add: answered_def)

lemma answered_frame [simp]:
  "ws_reader (answered s r a) = ws_reader s" "ws_closed (answered s r a) = ws_closed s"
  "ws_input (answered s r a) = r" "ws_room (answered s r a) = ws_room s - length a"
  "ws_message (answered s r a) = ws_message s" "ws_fragmented (answered s r a) = ws_fragmented s"
  "ws_messages (answered s r a) = ws_messages s" "ws_queued_bytes (answered s r a) = ws_queued_bytes s"
  by (simp_all add: answered_def)

lemma loop_controls:
  assumes "ws_reader s = Reading" "\<not> ws_closed s" "ws_input s = concat (map control_wire cs) @ rest"
    "\<forall>c\<in>set cs. control_ok c" "length (concat (map control_reply cs)) \<le> ws_room s"
  shows "read_loop s = read_loop (answered s rest (concat (map control_reply cs)))"
  using assms
proof (induction cs arbitrary: s)
  case Nil
  then show ?case by (cases s) (simp add: answered_def)
next
  case (Cons c cs)
  let ?t = "answered s (concat (map control_wire cs) @ rest) (control_reply c)"
  have "read_loop s = read_loop ?t" using Cons.prems by (intro loop_control) simp_all
  also have "\<dots> = read_loop (answered ?t rest (concat (map control_reply cs)))"
    using Cons.prems by (intro Cons.IH) simp_all
  finally show ?case by simp
qed

lemma loop_fragment:
  assumes "ws_reader s = Reading" "\<not> ws_closed s" "ws_fragmented s = (\<not> initial)"
    "ws_input s = fragment_wire initial final f @ rest" "fragment_ok f"
    "length (ws_message s) + length (message_text [f]) \<le> k_maximum_message"
    "length (replies [f]) \<le> ws_room s"
  shows "read_loop s = read_loop (take_data final (if initial then 1 else 0) (message_text [f])
    ((answered s rest (replies [f]))\<lparr>ws_reader := Holding final (if initial then 1 else 0) (message_text [f])\<rparr>))"
proof -
  obtain cs key piece where f: "f = (cs, key, piece)" by (cases f) auto
  have key: "length key = 4" "\<forall>c\<in>set cs. control_ok c" using assms(5) f by (auto simp: fragment_ok_def)
  define frame where "frame = client_frame final (if initial then 1 else 0) key piece"
  let ?t = "answered s (frame @ rest) (replies [f])"
  have r: "replies [f] = concat (map control_reply cs)" "message_text [f] = piece"
    by (simp_all add: replies_def message_text_def f)
  have "read_loop s = read_loop ?t" unfolding r
    using assms f key r by (intro loop_controls) (simp_all add: frame_def)
  also have "\<dots> = read_loop (frame_turn final (if initial then 1 else 0) piece
      (?t\<lparr>ws_input := rest, ws_reader := Holding final (if initial then 1 else 0) piece\<rparr>))"
    using assms f key r
    by (intro loop_frame) (auto simp: frame_def acceptable_def word_le_nat_alt word_less_nat_alt)
  finally show ?thesis unfolding r by (cases s) (simp add: frame_turn_def answered_def)
qed

text \<open>The state once the fragments \<open>fs\<close> are in: the whole message, with what was held before, is queued.\<close>

definition delivered :: "web_socket \<Rightarrow> u8 list \<Rightarrow> fragment list \<Rightarrow> web_socket" where
  "delivered s rest fs =
     (let message = ws_message s @ message_text fs
      in (answered s rest (replies fs))
           \<lparr>ws_messages := ws_messages s @ [message], ws_queued_bytes := ws_queued_bytes s + length message,
            ws_message := [], ws_fragmented := False\<rparr>)"

lemma loop_message:
  assumes "fs \<noteq> []" "ws_reader s = Reading" "\<not> ws_closed s" "ws_fragmented s = (\<not> initial)"
    "ws_input s = message_wire initial fs @ rest" "\<forall>f\<in>set fs. fragment_ok f"
    "length (ws_message s) + length (message_text fs) \<le> k_maximum_message"
    "well_formed (ws_message s @ message_text fs)"
    "length (ws_messages s) < 128"
    "length (ws_message s) + length (message_text fs) + ws_queued_bytes s \<le> k_maximum_queue"
    "length (replies fs) \<le> ws_room s"
  shows "read_loop s = read_loop (delivered s rest fs)"
  using assms
proof (induction fs arbitrary: s initial)
  case (Cons f fs)
  have parts: "message_text (f # fs) = message_text [f] @ message_text fs" "replies (f # fs) = replies [f] @ replies fs"
    by (simp_all add: message_text_def replies_def)
  have step: "read_loop s = read_loop (take_data (fs = []) (if initial then 1 else 0) (message_text [f])
      ((answered s (message_wire False fs @ rest) (replies [f]))
        \<lparr>ws_reader := Holding (fs = []) (if initial then 1 else 0) (message_text [f])\<rparr>))"
    using Cons.prems parts by (intro loop_fragment) simp_all
  show ?case
  proof (cases "fs = []")
    case True
    from True Cons.prems(8) have v: "valid_utf8 (ws_message s @ message_text [f])" by (simp add: valid_utf8_iff)
    have "take_data True (if initial then 1 else 0) (message_text [f])
      ((answered s rest (replies [f]))\<lparr>ws_reader := Holding True (if initial then 1 else 0) (message_text [f])\<rparr>)
      = delivered s rest [f]"
      using True Cons.prems v by (cases s) (simp add: take_data_def Let_def delivered_def answered_def)
    with step True show ?thesis by simp
  next
    case False
    let ?t = "(answered s (message_wire False fs @ rest) (replies [f]))
      \<lparr>ws_message := ws_message s @ message_text [f], ws_fragmented := True\<rparr>"
    have "take_data False (if initial then 1 else 0) (message_text [f])
      ((answered s (message_wire False fs @ rest) (replies [f]))
        \<lparr>ws_reader := Holding False (if initial then 1 else 0) (message_text [f])\<rparr>) = ?t"
      using Cons.prems by (cases s) (simp add: take_data_def Let_def answered_def)
    with step False have "read_loop s = read_loop ?t" by simp
    also have "\<dots> = read_loop (delivered ?t rest fs)"
      using Cons.prems False parts by (intro Cons.IH[where initial = False]) simp_all
    also have "delivered ?t rest fs = delivered s rest (f # fs)"
      by (simp add: delivered_def Let_def parts answered_def)
    finally show ?thesis .
  qed
qed simp

text \<open>C35. Message delivery: whenever the reader is between messages and a well-formed text that fits arrives
  in fragments, cut anywhere and with pings and pongs in between, the reader goes on exactly as if one
  step had queued the whole text and written one pong per ping, with the bytes after it next.\<close>

theorem ws_message_delivered:
  assumes "ws_reader s = Reading" "\<not> ws_closed s" "\<not> ws_fragmented s" "ws_message s = []"
    and "fs \<noteq> []" "\<forall>f\<in>set fs. fragment_ok f" "ws_input s = message_wire True fs @ rest"
    and "well_formed (message_text fs)" "length (message_text fs) \<le> k_maximum_message"
    and "length (ws_messages s) < 128" "ws_queued_bytes s + length (message_text fs) \<le> k_maximum_queue"
    and "length (replies fs) \<le> ws_room s"
  shows "read_loop s = read_loop (s\<lparr>ws_input := rest, ws_sent := ws_sent s @ replies fs,
    ws_room := ws_room s - length (replies fs), ws_messages := ws_messages s @ [message_text fs],
    ws_queued_bytes := ws_queued_bytes s + length (message_text fs)\<rparr>)"
proof -
  have "read_loop s = read_loop (delivered s rest fs)"
    using assms by (intro loop_message[where initial = True]) simp_all
  then show ?thesis using assms(3,4)
    by (cases s) (simp add: delivered_def answered_def Let_def)
qed

theorem ws_message_delivered_witness:
  "\<exists>s. ws_messages s = [[72, 105]] \<and>
     read_loop (new_socket (message_wire True [([], [1, 2, 3, 4], [72]), ([Ping [9, 9, 9, 9] [7]], [5, 6, 7, 8], [105])])
       [] False 10) = read_loop s"
proof -
  let ?fs = "[([], [1, 2, 3, 4], [72]), ([Ping [9, 9, 9, 9] [7]], [5, 6, 7, 8], [105])] :: fragment list"
  have "well_formed [72, 105]" by (simp flip: valid_utf8_iff) code_simp
  then show ?thesis
    using ws_message_delivered[of "new_socket (message_wire True ?fs) [] False 10" ?fs "[]"]
    by (intro exI) (auto simp: new_socket_def fragment_ok_def message_text_def replies_def k_maximum_message_def
        k_maximum_queue_def frame_bytes_def frame_header_def length_field_def)
qed

end
