(* ===== verification/Ws_Upgrade.thy ===== *)
theory Ws_Upgrade
  imports Base64
begin

text \<open>
  The WebSocket handshake: the header lookup of \<open>HttpRequest\<close> (\<open>src/cli/serve/http_server.hpp\<close>) and
  \<open>HasToken\<close>, \<open>IsWebSocketUpgrade\<close> and \<open>UpgradeWebSocket\<close> of \<open>src/cli/serve/websocket.cpp\<close>. OpenSSL's
  SHA-1 is the parameter \<open>sha1\<close>, \<open>None\<close> when the digest call fails, which the code turns into an
  exception. \<open>std::tolower\<close> is taken in the C locale, the one the program runs in.
\<close>

section \<open>Requests\<close>

record http_request =
  req_method :: string
  req_path :: string
  req_query :: string
  req_body :: string
  req_headers :: "(string \<times> string) list"
  req_id :: string
  req_client_id :: string

record 'h http_response =
  res_status :: int
  res_reason :: string
  res_body :: string
  res_headers :: "(string \<times> string) list"
  res_websocket :: "'h option"

definition lower :: "char \<Rightarrow> char" where
  "lower c = (if 65 \<le> (of_char c :: nat) \<and> (of_char c :: nat) \<le> 90 then char_of ((of_char c :: nat) + 32) else c)"

definition same_name :: "string \<Rightarrow> string \<Rightarrow> bool" where
  "same_name a b \<longleftrightarrow> length a = length b \<and> (\<forall>i\<in>set [0..<length a]. lower (a ! i) = lower (b ! i))"

fun find_header :: "(string \<times> string) list \<Rightarrow> string \<Rightarrow> string" where
  "find_header [] n = ''''"
| "find_header ((header_name, v) # rest) n = (if same_name header_name n then v else find_header rest n)"

definition header :: "http_request \<Rightarrow> string \<Rightarrow> string" where
  "header req n = find_header (req_headers req) n"

section \<open>Token lists\<close>

definition blank :: "char \<Rightarrow> bool" where
  "blank c \<longleftrightarrow> c = CHR '' '' \<or> c = CHR 0x09"

definition trim :: "string \<Rightarrow> string" where
  "trim item = rev (dropWhile blank (rev (dropWhile blank item)))"

function token_loop :: "string \<Rightarrow> string \<Rightarrow> bool" where
  "token_loop rest token =
     (if rest = [] then False
      else if trim (takeWhile (\<lambda>c. c \<noteq> CHR '','') rest) = token then True
      else token_loop (drop 1 (dropWhile (\<lambda>c. c \<noteq> CHR '','') rest)) token)"
  by pat_completeness auto
termination
proof (relation "measure (\<lambda>(rest, token). length rest)")
  fix rest token :: string
  assume "rest \<noteq> []"
  moreover have "length (dropWhile (\<lambda>c. c \<noteq> CHR '','') rest) \<le> length rest" by (rule length_dropWhile_le)
  ultimately show "((drop 1 (dropWhile (\<lambda>c. c \<noteq> CHR '','') rest), token), rest, token)
      \<in> measure (\<lambda>(rest, token). length rest)" by (cases rest) auto
qed simp

declare token_loop.simps [simp del]

definition has_token :: "string \<Rightarrow> string \<Rightarrow> bool" where
  "has_token v token = token_loop (map lower v) token"

section \<open>The handshake\<close>

definition is_web_socket_upgrade :: "http_request \<Rightarrow> bool" where
  "is_web_socket_upgrade req = has_token (header req ''Upgrade'') ''websocket''"

definition bad_handshake :: "'h http_response" where
  "bad_handshake = \<lparr>res_status = 400, res_reason = ''Bad Request'',
     res_body = ''{\"error\":{\"message\":\"invalid WebSocket handshake\",\"code\":\"invalid_websocket\"}}'',
     res_headers = [], res_websocket = None\<rparr>"

definition web_socket_guid :: string where
  "web_socket_guid = ''258EAFA5-E914-47DA-95CA-C5AB0DC85B11''"

definition upgrade_web_socket ::
  "(u8 list \<Rightarrow> u8 list option) \<Rightarrow> http_request \<Rightarrow> 'h \<Rightarrow> 'h http_response option" where
  "upgrade_web_socket sha1 req handler =
     (let key = header req ''Sec-WebSocket-Key''
      in if req_method req \<noteq> ''GET'' \<or> \<not> is_web_socket_upgrade req
           \<or> \<not> has_token (header req ''Connection'') ''upgrade''
           \<or> header req ''Sec-WebSocket-Version'' \<noteq> ''13''
           \<or> (header req ''Content-Length'' \<noteq> '''' \<and> header req ''Content-Length'' \<noteq> ''0'')
           \<or> (case decode_base64 key 16 of None \<Rightarrow> True | Some decoded \<Rightarrow> length decoded \<noteq> 16)
         then Some bad_handshake
         else case sha1 (bytes_of_string (key @ web_socket_guid)) of
                None \<Rightarrow> None
              | Some digest \<Rightarrow>
                  Some \<lparr>res_status = 101, res_reason = ''Switching Protocols'', res_body = '''',
                        res_headers = [(''Upgrade'', ''websocket''), (''Connection'', ''Upgrade''),
                          (''Sec-WebSocket-Accept'', encode_base64 digest)],
                        res_websocket = Some handler\<rparr>)"

section \<open>Properties\<close>

text \<open>The entries of a comma-separated list.\<close>

fun split_commas :: "string \<Rightarrow> string list" where
  "split_commas [] = [[]]"
| "split_commas (c # cs) =
     (if c = CHR '','' then [] # split_commas cs
      else (case split_commas cs of [] \<Rightarrow> [[c]] | item # items \<Rightarrow> (c # item) # items))"

abbreviation entry :: "string \<Rightarrow> string" where "entry v \<equiv> takeWhile (\<lambda>c. c \<noteq> CHR '','') v"
abbreviation later :: "string \<Rightarrow> string" where "later v \<equiv> dropWhile (\<lambda>c. c \<noteq> CHR '','') v"

lemma split_commas_entry:
  "split_commas v = entry v # (if later v = [] then [] else split_commas (drop 1 (later v)))"
proof (induction v)
  case (Cons c cs)
  show ?case
  proof (cases "c = CHR '',''")
    case False
    then have e: "entry (c # cs) = c # entry cs" "later (c # cs) = later cs" by simp_all
    show ?thesis unfolding split_commas.simps(2) e if_not_P[OF False] by (subst Cons.IH) (simp only: list.case)
  qed simp
qed simp

lemma trim_Nil [simp]: "trim [] = []"
  by (simp add: trim_def)

lemma token_loop_entries:
  "token \<noteq> [] \<Longrightarrow> token_loop v token \<longleftrightarrow> token \<in> trim ` set (split_commas v)"
proof (induction v token rule: token_loop.induct)
  case (1 v token)
  show ?case
  proof (cases "v = []")
    case True
    with 1 show ?thesis by (subst token_loop.simps) simp
  next
    case v: False
    show ?thesis
    proof (cases "trim (entry v) = token")
      case True
      with v show ?thesis by (subst token_loop.simps, subst split_commas_entry) auto
    next
      case False
      have step: "token_loop v token = token_loop (drop 1 (later v)) token"
        using v False by (subst token_loop.simps) simp
      have IH: "token_loop (drop 1 (later v)) token \<longleftrightarrow> token \<in> trim ` set (split_commas (drop 1 (later v)))"
        using 1 v False by blast
      have entries: "set (split_commas v) = insert (entry v) (if later v = [] then {} else set (split_commas (drop 1 (later v))))"
        by (rule trans[OF arg_cong[OF split_commas_entry[of v], of set]]) (simp only: list.set if_distrib[of set])
      have "\<not> token_loop [] token" by (subst token_loop.simps) simp
      then show ?thesis unfolding step entries using IH False by (cases "later v = []") (simp_all only: drop_Nil, auto)
    qed
  qed
qed

text \<open>C36. The handshake: a request is upgraded exactly when it is a GET whose Upgrade and Connection lists
  name the protocol (in any letter case, between any blanks), asks for version 13, announces no body and
  carries a key that is the base64 of 16 bytes; the reply then proves receipt of that key, its accept
  header decoding to the digest of key and GUID. Every other request gets the 400 reply.\<close>

theorem ws_upgrade_exact:
  assumes "\<forall>bytes. \<exists>digest. sha1 bytes = Some digest \<and> length digest = 20"
  shows "\<exists>reply. upgrade_web_socket sha1 req handler = Some reply \<and>
    (if req_method req = ''GET''
        \<and> ''websocket'' \<in> trim ` set (split_commas (map lower (header req ''Upgrade'')))
        \<and> ''upgrade'' \<in> trim ` set (split_commas (map lower (header req ''Connection'')))
        \<and> header req ''Sec-WebSocket-Version'' = ''13''
        \<and> header req ''Content-Length'' \<in> {'''', ''0''}
        \<and> (\<exists>nonce. length nonce = 16 \<and> header req ''Sec-WebSocket-Key'' = encode_base64 nonce)
     then res_status reply = 101 \<and> res_websocket reply = Some handler
       \<and> decode_base64 (find_header (res_headers reply) ''Sec-WebSocket-Accept'') 20
         = sha1 (bytes_of_string (header req ''Sec-WebSocket-Key'' @ web_socket_guid))
     else reply = bad_handshake)"
proof -
  have token: "has_token v t = (t \<in> trim ` set (split_commas (map lower v)))" if "t \<noteq> []" for v t
    using token_loop_entries[OF that] by (simp add: has_token_def)
  have key: "(case decode_base64 k 16 of None \<Rightarrow> True | Some decoded \<Rightarrow> length decoded \<noteq> 16)
      \<longleftrightarrow> \<not> (\<exists>nonce. length nonce = 16 \<and> k = encode_base64 nonce)" for k
  proof -
    have "(\<exists>nonce. length nonce = 16 \<and> k = encode_base64 nonce) \<longleftrightarrow> (\<exists>d. decode_base64 k 16 = Some d \<and> length d = 16)"
      by (auto simp: decode_exact)
    then show ?thesis by (auto split: option.splits)
  qed
  obtain digest where d: "sha1 (bytes_of_string (header req ''Sec-WebSocket-Key'' @ web_socket_guid)) = Some digest"
    "length digest = 20" using assms by blast
  have accept: "decode_base64 (encode_base64 digest) 20 = Some digest" using d(2) by (simp add: decode_exact)
  have name: "same_name ''Sec-WebSocket-Accept'' ''Sec-WebSocket-Accept''"
    "\<not> same_name ''Upgrade'' ''Sec-WebSocket-Accept''" "\<not> same_name ''Connection'' ''Sec-WebSocket-Accept''"
    by (simp_all add: same_name_def)
  show ?thesis
    unfolding upgrade_web_socket_def Let_def is_web_socket_upgrade_def d key
    using accept name by (simp add: token bad_handshake_def d)
qed

definition handshake_example :: http_request where
  "handshake_example = \<lparr>req_method = ''GET'', req_path = ''/v1/realtime'', req_query = '''', req_body = '''',
     req_headers = [(''Host'', ''a''), (''UPGRADE'', ''h2c, WebSocket''), (''Connection'', ''keep-alive , Upgrade''),
       (''Sec-WebSocket-Version'', ''13''), (''sec-websocket-key'', ''dGhlIHNhbXBsZSBub25jZQ=='')],
     req_id = '''', req_client_id = ''anonymous''\<rparr>"

lemma handshake_key: "encode_base64 (bytes_of_string ''the sample nonce'') = ''dGhlIHNhbXBsZSBub25jZQ==''"
  by code_simp

theorem ws_upgrade_exact_witness:
  "\<exists>reply. upgrade_web_socket (\<lambda>bytes. Some (replicate 20 (word_of_nat (length bytes)))) handshake_example (0::nat) = Some reply
    \<and> res_status reply = 101 \<and> res_websocket reply = Some 0"
proof -
  have h: "header handshake_example ''Upgrade'' = ''h2c, WebSocket''"
    "header handshake_example ''Connection'' = ''keep-alive , Upgrade''"
    "header handshake_example ''Sec-WebSocket-Version'' = ''13''" "header handshake_example ''Content-Length'' = ''''"
    "header handshake_example ''Sec-WebSocket-Key'' = ''dGhlIHNhbXBsZSBub25jZQ==''" by code_simp+
  have e: "map trim (split_commas (map lower ''h2c, WebSocket'')) = [''h2c'', ''websocket'']"
    "map trim (split_commas (map lower ''keep-alive , Upgrade'')) = [''keep-alive'', ''upgrade'']" by code_simp+
  have t: "''websocket'' \<in> trim ` set (split_commas (map lower ''h2c, WebSocket''))"
    "''upgrade'' \<in> trim ` set (split_commas (map lower ''keep-alive , Upgrade''))"
    unfolding set_map[symmetric] e by simp_all
  have n: "\<exists>nonce. length nonce = 16 \<and> ''dGhlIHNhbXBsZSBub25jZQ=='' = encode_base64 nonce"
    using handshake_key by (intro exI[of _ "bytes_of_string ''the sample nonce''"]) simp
  have g: "req_method handshake_example = ''GET''" by (simp add: handshake_example_def)
  have "\<forall>bytes. \<exists>digest. Some (replicate 20 (word_of_nat (length bytes))) = Some digest \<and> length digest = 20" by simp
  from ws_upgrade_exact[OF this, of handshake_example "0::nat"] show ?thesis
    unfolding h g using t n by auto
qed

end
