(* ===== verification/Capture_Plan.thy ===== *)
theory Capture_Plan
  imports Gufo_Prelude
begin

text \<open>
  The capture planner of \<open>src/cache/retention.cpp\<close>: which token boundaries of a prompt a checkpoint
  is taken at. The adapter's prefill plan (\<open>Adapter::PlanPrefill\<close>, a virtual call) is the argument
  \<open>passes\<close>; an exception is \<open>Inl\<close>. Row counts are natural numbers: every subtraction of the code is
  guarded and no product exceeds the prompt length (\<open>grid_position_le\<close>), so nothing wraps.
\<close>

section \<open>Requests and candidates\<close>

datatype checkpoint_purpose = KPrompt | KGenerated | KGrid | KLearned

record capture_candidate =
  cc_boundary :: nat
  cc_purpose :: checkpoint_purpose
  cc_required :: bool
  cc_splits_pass :: bool

record capture_request =
  cr_prompt :: nat
  cr_reused :: nat
  cr_stable :: nat
  cr_common :: nat
  cr_grid :: bool
  cr_learn :: bool
  cr_already_retained :: "nat list"
  cr_grid_limit :: nat

datatype plan_error = BoundaryOutsidePrompt | InvalidPrefillPlan | IncompletePrefillPlan

definition grid_limit :: "nat \<Rightarrow> nat \<Rightarrow> nat" where
  "grid_limit ram_bytes private_bytes =
     (if private_bytes \<noteq> 0 then min 4 (ram_bytes div 12 div private_bytes) else 4)"

section \<open>Planning\<close>

fun check_passes :: "nat \<Rightarrow> nat \<Rightarrow> nat list \<Rightarrow> plan_error + nat" where
  "check_passes prompt previous [] = Inr previous"
| "check_passes prompt previous (stop # passes) =
     (if stop \<le> previous \<or> stop > prompt then Inl InvalidPrefillPlan else check_passes prompt stop passes)"

text \<open>A boundary already planned is strengthened in place, another one goes to the end.\<close>

fun merge_candidate :: "capture_candidate \<Rightarrow> capture_candidate list \<Rightarrow> capture_candidate list" where
  "merge_candidate new [] = [new]"
| "merge_candidate new (c # cs) =
     (if cc_boundary c = cc_boundary new
      then (let required = (cc_required c \<or> cc_required new)
            in c\<lparr>cc_required := required,
                 cc_purpose := (if cc_purpose new = KLearned \<and> \<not> required then KLearned else cc_purpose c)\<rparr>) # cs
      else c # merge_candidate new cs)"

definition add_capture ::
  "capture_request \<Rightarrow> nat list \<Rightarrow> nat \<Rightarrow> checkpoint_purpose \<Rightarrow> bool \<Rightarrow> capture_candidate list \<Rightarrow> capture_candidate list" where
  "add_capture r passes boundary purpose required result =
     (if boundary = 0 \<or> boundary < cr_reused r \<or> boundary \<in> set (cr_already_retained r) then result
      else merge_candidate
        \<lparr>cc_boundary = boundary, cc_purpose = purpose, cc_required = required,
         cc_splits_pass = (boundary > cr_reused r \<and> boundary \<notin> set passes)\<rparr> result)"

definition grid_position :: "nat \<Rightarrow> nat \<Rightarrow> nat \<Rightarrow> nat" where
  "grid_position grid count i = (grid div count * i + grid mod count * i div count) * 2048"

text \<open>\<open>snapped\<close> moves a grid point back to the end of a pass at most 128 tokens before it: the last
  pass that \<open>std::ranges::upper_bound\<close> leaves behind.\<close>

definition snapped :: "capture_request \<Rightarrow> nat list \<Rightarrow> nat \<Rightarrow> nat" where
  "snapped r passes position =
     (let k = length (takeWhile (\<lambda>p. p \<le> position) passes)
      in if k \<noteq> 0 \<and> position - passes ! (k - 1) \<le> 128 \<and> passes ! (k - 1) > cr_reused r
           \<and> passes ! (k - 1) - cr_reused r \<ge> 2048
         then passes ! (k - 1) else position)"

function grid_loop ::
  "capture_request \<Rightarrow> nat list \<Rightarrow> nat \<Rightarrow> nat \<Rightarrow> nat \<Rightarrow> nat \<Rightarrow> capture_candidate list \<Rightarrow> capture_candidate list" where
  "grid_loop r passes grid count i planned result =
     (if i \<le> count \<and> planned < cr_grid_limit r then
        (let position = snapped r passes (grid_position grid count i)
         in if position > cr_reused r \<and> position - cr_reused r \<ge> 2048 \<and> cr_prompt r - position > 128
            then grid_loop r passes grid count (i + 1) (planned + 1)
                   (add_capture r passes position KGrid False result)
            else grid_loop r passes grid count (i + 1) planned result)
      else result)"
  by pat_completeness auto
termination by (relation "measure (\<lambda>(r, passes, grid, count, i, planned, result). Suc count - i)") auto

declare grid_loop.simps [simp del]

definition add_grid :: "capture_request \<Rightarrow> nat list \<Rightarrow> capture_candidate list \<Rightarrow> capture_candidate list" where
  "add_grid r passes result =
     (if cr_grid r \<and> cr_prompt r \<noteq> 0
      then (let grid = (cr_prompt r - 1) div 2048 in grid_loop r passes grid (min grid 4) 1 0 result)
      else result)"

definition nearest_planned :: "capture_request \<Rightarrow> nat \<Rightarrow> capture_candidate list \<Rightarrow> nat" where
  "nearest_planned r position result =
     fold (\<lambda>c planned. if cc_boundary c > cr_reused r \<and> cc_boundary c \<le> position
                       then max planned (cc_boundary c) else planned) result 0"

definition add_learned :: "capture_request \<Rightarrow> nat list \<Rightarrow> capture_candidate list \<Rightarrow> capture_candidate list" where
  "add_learned r passes result =
     (if cr_learn r \<and> cr_common r \<ge> cr_reused r \<and> cr_common r - cr_reused r \<ge> 512
         \<and> cr_prompt r - cr_common r > 64
      then (let planned = nearest_planned r (cr_common r) result;
                position = (if planned \<noteq> 0 \<and> cr_common r - planned \<le> 64 then planned else cr_common r)
            in add_capture r passes position KLearned False result)
      else result)"

definition plan_captures :: "nat list \<Rightarrow> capture_request \<Rightarrow> plan_error + capture_candidate list" where
  "plan_captures passes r =
     (if cr_reused r > cr_prompt r \<or> cr_stable r > cr_prompt r \<or> cr_common r > cr_prompt r
      then Inl BoundaryOutsidePrompt
      else case check_passes (cr_prompt r) (cr_reused r) passes of
             Inl e \<Rightarrow> Inl e
           | Inr previous \<Rightarrow>
               if previous \<noteq> cr_prompt r then Inl IncompletePrefillPlan
               else Inr (sort_key cc_boundary
                 (add_learned r passes (add_grid r passes
                   (add_capture r passes (cr_prompt r) KPrompt True
                     (add_capture r passes (cr_stable r) KPrompt True
                       (add_capture r passes (cr_reused r) KPrompt True [])))))))"

section \<open>Positions\<close>

lemma grid_point_le:
  assumes "i \<le> count" "count \<noteq> 0" shows "grid div count * i + grid mod count * i div count \<le> (grid::nat)"
proof -
  have "grid div count * i \<le> grid div count * count" using assms(1) by simp
  moreover have "grid mod count * i div count \<le> grid mod count * count div count"
    using assms(1) by (intro div_le_mono mult_le_mono2)
  moreover have "grid mod count * count div count = grid mod count" using assms(2) by simp
  moreover have "grid div count * count + grid mod count = grid" by simp
  ultimately show ?thesis by linarith
qed

lemma grid_position_le:
  assumes "1 \<le> i" "i \<le> min ((prompt - 1) div 2048) 4"
  shows "grid_position ((prompt - 1) div 2048) (min ((prompt - 1) div 2048) 4) i \<le> prompt"
proof -
  have "grid_position ((prompt - 1) div 2048) (min ((prompt - 1) div 2048) 4) i \<le> (prompt - 1) div 2048 * 2048"
    unfolding grid_position_def using assms by (intro mult_le_mono1 grid_point_le) auto
  also have "\<dots> \<le> prompt - 1" by simp
  finally show ?thesis by linarith
qed

lemma snapped_le: "snapped r passes position \<le> position"
proof -
  let ?k = "length (takeWhile (\<lambda>p. p \<le> position) passes)"
  have "passes ! (?k - 1) \<le> position" if "?k \<noteq> 0"
  proof -
    have "passes ! (?k - 1) = takeWhile (\<lambda>p. p \<le> position) passes ! (?k - 1)"
      using that by (simp add: takeWhile_nth)
    moreover have "takeWhile (\<lambda>p. p \<le> position) passes ! (?k - 1) \<in> set (takeWhile (\<lambda>p. p \<le> position) passes)"
      using that by (intro nth_mem) simp
    ultimately show ?thesis by (metis set_takeWhileD)
  qed
  then show ?thesis by (simp add: snapped_def Let_def)
qed

section \<open>What every step keeps\<close>

definition boundaries :: "capture_candidate list \<Rightarrow> nat list" where
  "boundaries result = map cc_boundary result"

definition required_set :: "capture_candidate list \<Rightarrow> nat set" where
  "required_set result = cc_boundary ` {c \<in> set result. cc_required c}"

definition grid_count :: "capture_candidate list \<Rightarrow> nat" where
  "grid_count result = length (filter (\<lambda>c. cc_purpose c = KGrid) result)"

definition admissible :: "capture_request \<Rightarrow> nat \<Rightarrow> bool" where
  "admissible r b \<longleftrightarrow> b \<noteq> 0 \<and> cr_reused r \<le> b \<and> b \<le> cr_prompt r \<and> b \<notin> set (cr_already_retained r)"

definition plan_ok :: "capture_request \<Rightarrow> nat list \<Rightarrow> capture_candidate list \<Rightarrow> bool" where
  "plan_ok r passes result \<longleftrightarrow>
     distinct (boundaries result) \<and>
     (\<forall>c\<in>set result. admissible r (cc_boundary c)
        \<and> (cc_splits_pass c \<longleftrightarrow> cc_boundary c > cr_reused r \<and> cc_boundary c \<notin> set passes))"

lemma merge_boundaries: "set (boundaries (merge_candidate new result)) = insert (cc_boundary new) (set (boundaries result))"
  by (induction result) (auto simp: boundaries_def Let_def)

lemma merge_distinct: "distinct (boundaries result) \<Longrightarrow> distinct (boundaries (merge_candidate new result))"
proof (induction result)
  case (Cons c cs)
  then show ?case using merge_boundaries[of new cs] by (auto simp: boundaries_def Let_def)
qed (simp add: boundaries_def)

lemma merge_members:
  assumes "c \<in> set (merge_candidate new result)"
  shows "\<exists>d\<in>insert new (set result). cc_boundary c = cc_boundary d \<and> cc_splits_pass c = cc_splits_pass d"
  using assms by (induction result) (auto simp: Let_def split: if_splits)

lemma merge_required:
  "distinct (boundaries result) \<Longrightarrow> required_set (merge_candidate new result) =
    required_set result \<union> (if cc_required new then {cc_boundary new} else {})"
proof (induction result)
  case (Cons c cs)
  have split: "required_set (d # ds) = (if cc_required d then {cc_boundary d} else {}) \<union> required_set ds" for d ds
    by (auto simp: required_set_def)
  show ?case using Cons by (auto simp: split Let_def boundaries_def)
qed (auto simp: required_set_def)

lemma merge_grid_count:
  "grid_count (merge_candidate new result) \<le> grid_count result + (if cc_purpose new = KGrid then 1 else 0)"
  by (induction result) (auto simp: grid_count_def Let_def)

lemma merge_length: "length (merge_candidate new result) \<le> Suc (length result)"
  by (induction result) (auto simp: Let_def)

lemma add_ok:
  assumes "plan_ok r passes result" "boundary \<le> cr_prompt r"
  shows "plan_ok r passes (add_capture r passes boundary purpose required result)"
proof (cases "admissible r boundary")
  case True
  let ?new = "\<lparr>cc_boundary = boundary, cc_purpose = purpose, cc_required = required,
         cc_splits_pass = (boundary > cr_reused r \<and> boundary \<notin> set passes)\<rparr>"
  have "plan_ok r passes (merge_candidate ?new result)"
    using assms(1) True merge_distinct[of result ?new] merge_members[of _ ?new result]
    unfolding plan_ok_def by fastforce
  then show ?thesis using assms(1) by (simp add: add_capture_def)
next
  case False
  with assms show ?thesis by (auto simp: add_capture_def admissible_def)
qed

lemma add_required:
  assumes "plan_ok r passes result" "boundary \<le> cr_prompt r"
  shows "required_set (add_capture r passes boundary purpose required result) =
    required_set result \<union> (if required \<and> admissible r boundary then {boundary} else {})"
  using assms merge_required[of result] by (auto simp: add_capture_def admissible_def plan_ok_def)

lemma add_grid_count:
  "grid_count (add_capture r passes boundary purpose required result) \<le>
    grid_count result + (if purpose = KGrid then 1 else 0)"
  unfolding add_capture_def by (auto intro: order_trans[OF merge_grid_count])

lemma add_length: "length (add_capture r passes boundary purpose required result) \<le> Suc (length result)"
  using merge_length by (simp add: add_capture_def)

text \<open>The grid loop: at most one capture per turn, all optional.\<close>

lemma grid_loop_ok:
  assumes "grid = (cr_prompt r - 1) div 2048" "count = min grid 4"
  shows "1 \<le> i \<Longrightarrow> plan_ok r passes result \<Longrightarrow>
    plan_ok r passes (grid_loop r passes grid count i planned result)
    \<and> required_set (grid_loop r passes grid count i planned result) = required_set result
    \<and> grid_count (grid_loop r passes grid count i planned result)
        \<le> grid_count result + min (Suc count - i) (cr_grid_limit r - planned)
    \<and> length (grid_loop r passes grid count i planned result)
        \<le> length result + min (Suc count - i) (cr_grid_limit r - planned)"
  using assms
proof (induction r passes grid count i planned result rule: grid_loop.induct)
  case (1 r passes grid count i planned result)
  define position where "position = snapped r passes (grid_position grid count i)"
  define added where "added = add_capture r passes position KGrid False result"
  show ?case
  proof (cases "i \<le> count \<and> planned < cr_grid_limit r")
    case False
    have "grid_loop r passes grid count i planned result = result"
      unfolding grid_loop.simps[of r passes grid count i planned result] if_not_P[OF False] ..
    with "1.prems" show ?thesis by simp
  next
    case on: True
    have le: "position \<le> cr_prompt r"
      using snapped_le[of r passes "grid_position grid count i"] grid_position_le[of i "cr_prompt r"] on "1.prems"
      unfolding position_def by (metis order_trans)
    have added: "plan_ok r passes added" "required_set added = required_set result"
      "grid_count added \<le> Suc (grid_count result)" "length added \<le> Suc (length result)"
      using add_ok[OF "1.prems"(2) le, of KGrid False] add_required[OF "1.prems"(2) le, of KGrid False]
        add_grid_count[of r passes position KGrid False result] add_length[of r passes position KGrid False result]
      by (simp_all add: added_def)
    show ?thesis
    proof (cases "position > cr_reused r \<and> position - cr_reused r \<ge> 2048 \<and> cr_prompt r - position > 128")
      case True
      have eq: "grid_loop r passes grid count i planned result = grid_loop r passes grid count (i + 1) (planned + 1) added"
        using on True by (subst grid_loop.simps) (simp add: position_def[symmetric] added_def Let_def)
      define g where "g = grid_loop r passes grid count (i + 1) (planned + 1) added"
      define m where "m = min (Suc count - (i + 1)) (cr_grid_limit r - (planned + 1))"
      have m: "min (Suc count - i) (cr_grid_limit r - planned) = Suc m" unfolding m_def using on by linarith
      have ih: "plan_ok r passes g" "required_set g = required_set added" "grid_count g \<le> grid_count added + m"
        "length g \<le> length added + m"
        using "1.IH"(1)[OF on position_def True le_add2 added(1)[unfolded added_def] "1.prems"(3,4), folded added_def]
        unfolding g_def m_def by blast+
      show ?thesis unfolding eq m g_def[symmetric] using ih added(2-4) by simp
    next
      case False
      have eq: "grid_loop r passes grid count i planned result = grid_loop r passes grid count (i + 1) planned result"
        using on False by (subst grid_loop.simps) (auto simp: position_def[symmetric] Let_def)
      define g where "g = grid_loop r passes grid count (i + 1) planned result"
      define m where "m = min (Suc count - (i + 1)) (cr_grid_limit r - planned)"
      have m: "m \<le> min (Suc count - i) (cr_grid_limit r - planned)" unfolding m_def by linarith
      have ih: "plan_ok r passes g" "required_set g = required_set result" "grid_count g \<le> grid_count result + m"
        "length g \<le> length result + m"
        using "1.IH"(2)[OF on position_def False le_add2 "1.prems"(2-4)] unfolding g_def m_def by blast+
      show ?thesis unfolding eq g_def[symmetric] using ih m by linarith
    qed
  qed
qed

lemma add_grid_ok:
  assumes "plan_ok r passes result"
  shows "plan_ok r passes (add_grid r passes result)"
    "required_set (add_grid r passes result) = required_set result"
    "grid_count (add_grid r passes result) \<le> grid_count result + min 4 (cr_grid_limit r)"
    "length (add_grid r passes result) \<le> length result + min 4 (cr_grid_limit r)"
proof -
  define G where "G = (cr_prompt r - 1) div 2048"
  define g where "g = grid_loop r passes G (min G 4) 1 0 result"
  have g: "plan_ok r passes g \<and> required_set g = required_set result
      \<and> grid_count g \<le> grid_count result + min (Suc (min G 4) - 1) (cr_grid_limit r - 0)
      \<and> length g \<le> length result + min (Suc (min G 4) - 1) (cr_grid_limit r - 0)"
    unfolding g_def by (rule grid_loop_ok[OF G_def refl _ assms]) simp
  have "min (Suc (min G 4) - 1) (cr_grid_limit r - 0) \<le> min 4 (cr_grid_limit r)" by simp
  moreover have "add_grid r passes result = result \<or> add_grid r passes result = g"
    by (simp add: add_grid_def g_def G_def Let_def)
  ultimately show "plan_ok r passes (add_grid r passes result)"
    "required_set (add_grid r passes result) = required_set result"
    "grid_count (add_grid r passes result) \<le> grid_count result + min 4 (cr_grid_limit r)"
    "length (add_grid r passes result) \<le> length result + min 4 (cr_grid_limit r)"
    using g assms by (elim disjE; simp; linarith)+
qed

lemma nearest_planned_le: "nearest_planned r position result \<le> position"
proof -
  have "m \<le> position \<Longrightarrow> fold (\<lambda>c planned. if cc_boundary c > cr_reused r \<and> cc_boundary c \<le> position
      then max planned (cc_boundary c) else planned) result m \<le> position" for m
    by (induction result arbitrary: m) auto
  then show ?thesis by (simp add: nearest_planned_def)
qed

lemma add_learned_ok:
  assumes "plan_ok r passes result" "cr_common r \<le> cr_prompt r"
  shows "plan_ok r passes (add_learned r passes result)"
    "required_set (add_learned r passes result) = required_set result"
    "grid_count (add_learned r passes result) \<le> grid_count result"
    "length (add_learned r passes result) \<le> Suc (length result)"
proof -
  define position where "position = (let planned = nearest_planned r (cr_common r) result
    in if planned \<noteq> 0 \<and> cr_common r - planned \<le> 64 then planned else cr_common r)"
  have "position \<le> cr_prompt r"
    using nearest_planned_le[of r "cr_common r" result] assms(2) by (simp add: position_def Let_def)
  note add = add_ok[OF assms(1) this, of KLearned False] add_required[OF assms(1) this, of KLearned False]
    add_grid_count[of r passes position KLearned False result] add_length[of r passes position KLearned False result]
  have "add_learned r passes result = result \<or>
      add_learned r passes result = add_capture r passes position KLearned False result"
    by (simp add: add_learned_def position_def Let_def)
  with add assms(1) show "plan_ok r passes (add_learned r passes result)"
    "required_set (add_learned r passes result) = required_set result"
    "grid_count (add_learned r passes result) \<le> grid_count result"
    "length (add_learned r passes result) \<le> Suc (length result)"
    by (elim disjE; simp)+
qed

section \<open>Properties\<close>

lemma plan_sorted:
  assumes "plan_ok r passes result"
  shows "sorted_wrt (<) (boundaries (sort_key cc_boundary result))"
proof -
  have "distinct (boundaries (sort_key cc_boundary result))"
    using assms by (simp add: plan_ok_def boundaries_def distinct_map)
  moreover have "sorted (boundaries (sort_key cc_boundary result))"
    by (simp add: boundaries_def)
  ultimately show ?thesis by (simp add: strict_sorted_iff)
qed



end
