(* ===== verification/Cache_Identity.thy ===== *)
theory Cache_Identity
  imports Gufo_Prelude
begin

text \<open>
  Input identities of the prefix cache (\<open>src/cache/identity.hpp\<close>, \<open>src/cache/identity.cpp\<close>): the opaque bytes
  that must agree, besides the tokens, before a cached prefix is reused. An \<open>std::invalid_argument\<close>
  is \<open>None\<close>. \<open>Rows\<close> are compared only, so they are natural numbers.
\<close>

type_synonym identity = "u8 list"

record input_prefix =
  ip_token_count :: nat
  ip_identity :: identity

record input_identity =
  ii_token_count :: nat
  ii_complete :: identity
  ii_prefixes :: "input_prefix list"

fun prefix_input_identity :: "identity \<Rightarrow> input_prefix list \<Rightarrow> nat \<Rightarrow> identity" where
  "prefix_input_identity complete [] count = complete"
| "prefix_input_identity complete (p # ps) count =
     (if count \<le> ip_token_count p then ip_identity p else prefix_input_identity complete ps count)"

fun boundaries_valid :: "nat \<Rightarrow> nat \<Rightarrow> input_prefix list \<Rightarrow> bool" where
  "boundaries_valid rows previous [] = True"
| "boundaries_valid rows previous (p # ps) =
     (if ip_token_count p < previous \<or> ip_token_count p > rows then False
      else boundaries_valid rows (ip_token_count p) ps)"

definition new_input_identity :: "nat \<Rightarrow> identity \<Rightarrow> input_prefix list \<Rightarrow> input_identity option" where
  "new_input_identity rows complete prefixes =
     (if boundaries_valid rows 0 prefixes
      then Some \<lparr>ii_token_count = rows, ii_complete = complete, ii_prefixes = prefixes\<rparr> else None)"

definition identity_at :: "input_identity \<Rightarrow> nat \<Rightarrow> identity option" where
  "identity_at a count =
     (if count > ii_token_count a then None
      else Some (prefix_input_identity (ii_complete a) (ii_prefixes a) count))"

definition identity_through :: "input_identity \<Rightarrow> nat \<Rightarrow> input_identity option" where
  "identity_through a count =
     (let complete = prefix_input_identity (ii_complete a) (ii_prefixes a) (min count (ii_token_count a));
          prefixes = filter (\<lambda>p. ip_token_count p \<le> count) (ii_prefixes a)
      in new_input_identity count complete prefixes)"

definition identity_matches :: "input_identity \<Rightarrow> input_identity \<Rightarrow> nat \<Rightarrow> bool option" where
  "identity_matches a b count =
     (case (identity_at a count, identity_at b count) of
        (Some x, Some y) \<Rightarrow> Some (x = y) | _ \<Rightarrow> None)"

section \<open>Boundaries\<close>

definition well_built :: "input_identity \<Rightarrow> bool" where
  "well_built a \<longleftrightarrow> boundaries_valid (ii_token_count a) 0 (ii_prefixes a)"

lemma boundaries_valid_sorted:
  "boundaries_valid rows previous ps \<longleftrightarrow>
    sorted (previous # map ip_token_count ps) \<and> (\<forall>p\<in>set ps. ip_token_count p \<le> rows)"
  by (induction ps arbitrary: previous) auto

lemma new_identity_built: "new_input_identity rows complete ps = Some a \<Longrightarrow> well_built a"
  by (auto simp: new_input_identity_def well_built_def split: if_splits)

lemma through_total:
  assumes "well_built a"
  shows "\<exists>b. identity_through a count = Some b \<and> well_built b \<and> ii_token_count b = count"
proof -
  have "sorted (map ip_token_count (filter (\<lambda>p. ip_token_count p \<le> count) (ii_prefixes a)))"
    using assms by (simp add: well_built_def boundaries_valid_sorted sorted_filter)
  then have "boundaries_valid count 0 (filter (\<lambda>p. ip_token_count p \<le> count) (ii_prefixes a))"
    by (simp add: boundaries_valid_sorted)
  then show ?thesis by (simp add: identity_through_def new_input_identity_def well_built_def Let_def)
qed

lemma prefix_identity_skip:
  "\<forall>p\<in>set ps. ip_token_count p < n \<Longrightarrow> prefix_input_identity c ps n = c"
  by (induction ps) auto

lemma prefix_identity_filtered:
  assumes "sorted (map ip_token_count ps)" "\<forall>p\<in>set ps. ip_token_count p \<le> rows" "n \<le> count"
  shows "prefix_input_identity (prefix_input_identity c ps (min count rows)) (filter (\<lambda>p. ip_token_count p \<le> count) ps) n
    = prefix_input_identity c ps (min n rows)"
  using assms(1,2)
proof (induction ps)
  case (Cons p ps)
  consider (hit) "n \<le> ip_token_count p" "ip_token_count p \<le> count" | (past) "count < ip_token_count p"
    | (below) "ip_token_count p < n" by linarith
  then show ?case
  proof cases
    case hit
    then show ?thesis using Cons.prems by auto
  next
    case past
    then have "filter (\<lambda>p. ip_token_count p \<le> count) ps = []" using Cons.prems(1) by (auto simp: filter_empty_conv)
    with past Cons.prems assms(3) show ?thesis by auto
  next
    case below
    have max: "\<not> n \<le> ip_token_count p" using below by simp
    show ?thesis
    proof (cases "min count rows \<le> ip_token_count p")
      case True
      then have eq: "ip_token_count p = rows" "rows < n" using below assms(3) Cons.prems(2) by auto
      have "\<forall>q\<in>set ps. ip_token_count q < n" using Cons.prems(2) eq by auto
      then show ?thesis using eq below assms(3) by (auto simp: prefix_identity_skip)
    next
      case False
      with Cons below assms(3) show ?thesis by auto
    qed
  qed
qed simp

text \<open>Cutting an identity: \<open>Through\<close> of a well-built identity never fails, gives a well-built identity of
  the new length, and answers every query as the original does at that point, or at its full length for
  counts past it. So entries stored under the cut identity match exactly the requests that agree up to
  there.\<close>

theorem through_agrees:
  assumes "new_input_identity rows complete prefixes = Some a"
  shows "\<exists>b. identity_through a count = Some b \<and> well_built b \<and> ii_token_count b = count
    \<and> (\<forall>n\<le>count. identity_at b n = identity_at a (min n rows))"
proof -
  have built: "well_built a" and tot: "ii_token_count a = rows" using new_identity_built[OF assms] assms
    by (auto simp: new_input_identity_def split: if_splits)
  obtain b where b: "identity_through a count = Some b" "well_built b" "ii_token_count b = count"
    using through_total[OF built] by blast
  have sorted: "sorted (map ip_token_count (ii_prefixes a))" "\<forall>p\<in>set (ii_prefixes a). ip_token_count p \<le> rows"
    using built tot by (simp_all add: well_built_def boundaries_valid_sorted)
  have "identity_at b n = identity_at a (min n rows)" if "n \<le> count" for n
  proof -
    from b(1) have "ii_complete b = prefix_input_identity (ii_complete a) (ii_prefixes a) (min count rows)"
      "ii_prefixes b = filter (\<lambda>p. ip_token_count p \<le> count) (ii_prefixes a)"
      by (auto simp: identity_through_def new_input_identity_def Let_def tot split: if_splits)
    with prefix_identity_filtered[OF sorted that, of "ii_complete a"] b(3) tot that show ?thesis
      by (simp add: identity_at_def)
  qed
  with b show ?thesis by blast
qed

theorem through_agrees_witness:
  "\<exists>b. identity_through \<lparr>ii_token_count = 9, ii_complete = [3], ii_prefixes =
      [\<lparr>ip_token_count = 2, ip_identity = [1]\<rparr>, \<lparr>ip_token_count = 6, ip_identity = [2]\<rparr>]\<rparr> 4 = Some b
    \<and> identity_at b 3 = Some [2]"
  using through_agrees[of 9 "[3]" "[\<lparr>ip_token_count = 2, ip_identity = [1]\<rparr>, \<lparr>ip_token_count = 6, ip_identity = [2]\<rparr>]" _ 4]
  by (fastforce simp: new_input_identity_def identity_at_def)

end
