(* ===== verification/Completion.thy ===== *)
theory Completion
  imports Gufo_Prelude
begin

text \<open>
  The transfer handles of \<open>src/cache/completion.cpp\<close>: a move-only owner of one \<open>CompletionSignal\<close>. A
  signal's own \<open>Ready\<close> and \<open>Wait\<close> (virtual, implemented by the device adapters) are the parameters
  \<open>ready\<close> and \<open>wait\<close>. Each operation also returns the signals it waited on, in order.
\<close>

datatype transfer_result = Succeeded | Failed

record 's completion =
  co_signal :: "'s option"
  co_result :: "transfer_result option"

definition new_completion :: "'s option \<Rightarrow> 's completion option" where
  "new_completion sig = (if sig = None then None else Some \<lparr>co_signal = sig, co_result = None\<rparr>)"

definition completion_ready :: "('s \<Rightarrow> bool) \<Rightarrow> 's completion \<Rightarrow> bool" where
  "completion_ready ready c \<longleftrightarrow>
     co_result c \<noteq> None \<or> (case co_signal c of None \<Rightarrow> True | Some sig \<Rightarrow> ready sig)"

definition completion_wait ::
  "('s \<Rightarrow> transfer_result) \<Rightarrow> 's completion \<Rightarrow> transfer_result \<times> 's completion \<times> 's list" where
  "completion_wait wait c =
     (case co_result c of
        Some result \<Rightarrow> (result, c, [])
      | None \<Rightarrow>
          (case co_signal c of
             None \<Rightarrow> (Failed, c\<lparr>co_result := Some Failed\<rparr>, [])
           | Some sig \<Rightarrow> (wait sig, c\<lparr>co_result := Some (wait sig)\<rparr>, [sig])))"

text \<open>Move construction: the new handle and what is left of the old one.\<close>

definition completion_move :: "'s completion \<Rightarrow> 's completion \<times> 's completion" where
  "completion_move other = (other, other\<lparr>co_signal := None, co_result := None\<rparr>)"

text \<open>Move assignment between two different handles drains the target first.\<close>

definition completion_assign ::
  "('s \<Rightarrow> transfer_result) \<Rightarrow> 's completion \<Rightarrow> 's completion \<Rightarrow> 's completion \<times> 's completion \<times> 's list" where
  "completion_assign wait this other =
     (case completion_wait wait this of (result, this', waited) \<Rightarrow>
        (this'\<lparr>co_signal := co_signal other, co_result := co_result other\<rparr>,
         other\<lparr>co_signal := None, co_result := None\<rparr>, waited))"

definition completion_destroy :: "('s \<Rightarrow> transfer_result) \<Rightarrow> 's completion \<Rightarrow> 's list" where
  "completion_destroy wait c = (case completion_wait wait c of (result, c', waited) \<Rightarrow> waited)"

section \<open>A program of handles\<close>

text \<open>Handles live at indices of \<open>handles\<close> (\<open>None\<close> once destroyed); signals are numbered as they are created;
  \<open>waited\<close> records the waits.\<close>

record pool =
  handles :: "nat completion option list"
  created :: nat
  waited :: "nat list"

definition empty_pool :: pool where
  "empty_pool = \<lparr>handles = [], created = 0, waited = []\<rparr>"

definition live :: "pool \<Rightarrow> nat \<Rightarrow> nat completion \<Rightarrow> bool" where
  "live s i c \<longleftrightarrow> i < length (handles s) \<and> handles s ! i = Some c"

inductive pool_step :: "(nat \<Rightarrow> transfer_result) \<Rightarrow> pool \<Rightarrow> pool \<Rightarrow> bool" for wait where
  pool_create: "new_completion (Some (created s)) = Some c
    \<Longrightarrow> pool_step wait s (s\<lparr>handles := handles s @ [Some c], created := Suc (created s)\<rparr>)"
| pool_wait: "live s i c \<Longrightarrow> completion_wait wait c = (result, c', w)
    \<Longrightarrow> pool_step wait s (s\<lparr>handles := (handles s)[i := Some c'], waited := waited s @ w\<rparr>)"
| pool_move: "live s i c \<Longrightarrow> completion_move c = (new, left)
    \<Longrightarrow> pool_step wait s (s\<lparr>handles := (handles s)[i := Some left] @ [Some new]\<rparr>)"
| pool_assign: "live s i c \<Longrightarrow> live s j d \<Longrightarrow> i \<noteq> j \<Longrightarrow> completion_assign wait c d = (c', d', w)
    \<Longrightarrow> pool_step wait s (s\<lparr>handles := (handles s)[i := Some c', j := Some d'], waited := waited s @ w\<rparr>)"
| pool_destroy: "live s i c \<Longrightarrow> completion_destroy wait c = w
    \<Longrightarrow> pool_step wait s (s\<lparr>handles := (handles s)[i := None], waited := waited s @ w\<rparr>)"

inductive pool_reachable :: "(nat \<Rightarrow> transfer_result) \<Rightarrow> pool \<Rightarrow> bool" for wait where
  pool_start: "pool_reachable wait empty_pool"
| pool_next: "pool_reachable wait s \<Longrightarrow> pool_step wait s s' \<Longrightarrow> pool_reachable wait s'"

text \<open>How often signal \<open>x\<close> is still to be waited on by a handle.\<close>

fun owes :: "nat \<Rightarrow> nat completion option \<Rightarrow> nat" where
  "owes x None = 0"
| "owes x (Some c) = (if co_result c = None \<and> co_signal c = Some x then 1 else 0)"

definition settled :: "pool \<Rightarrow> bool" where
  "settled s \<longleftrightarrow>
     (\<forall>x. count_list (waited s) x + sum_list (map (owes x) (handles s)) = (if x < created s then 1 else 0))"

lemma count_list_snoc: "count_list (xs @ ys) x = count_list xs x + count_list ys x"
  by (induction xs) auto

lemma wait_owes:
  "completion_wait wait c = (result, c', w) \<Longrightarrow> owes x (Some c') = 0 \<and> count_list w x = owes x (Some c)"
  by (auto simp: completion_wait_def split: option.splits)

lemma move_owes:
  "completion_move c = (new, left) \<Longrightarrow> owes x (Some left) = 0 \<and> owes x (Some new) = owes x (Some c)"
  by (auto simp: completion_move_def)

lemma assign_owes:
  "completion_assign wait c d = (c', d', w) \<Longrightarrow>
    owes x (Some d') = 0 \<and> owes x (Some c') = owes x (Some d) \<and> count_list w x = owes x (Some c)"
  by (auto simp: completion_assign_def completion_wait_def split: option.splits)

lemma destroy_owes: "completion_destroy wait c = w \<Longrightarrow> count_list w x = owes x (Some c)"
  by (auto simp: completion_destroy_def completion_wait_def split: option.splits)

lemma owes_update:
  assumes "live s i c"
  shows "sum_list (map (owes x) ((handles s)[i := h])) + owes x (Some c) = sum_list (map (owes x) (handles s)) + owes x h"
  using sum_list_update_nat[of i "handles s" "owes x" h] assms by (simp add: live_def)

lemma step_settled:
  assumes "pool_step wait s s'" "settled s" shows "settled s'"
  unfolding settled_def
proof
  fix x
  have old: "count_list (waited s) x + sum_list (map (owes x) (handles s)) = (if x < created s then 1 else 0)"
    using assms(2) by (simp add: settled_def)
  from assms(1)
  show "count_list (waited s') x + sum_list (map (owes x) (handles s')) = (if x < created s' then 1 else 0)"
  proof cases
    case (pool_create c)
    have "owes x (Some c) = (if x = created s then 1 else 0)" using pool_create by (auto simp: new_completion_def)
    with old pool_create(1) show ?thesis by (auto split: if_splits)
  next
    case (pool_wait i c result c' w)
    from owes_update[OF pool_wait(2), of x "Some c'"] wait_owes[OF pool_wait(3), of x] old
    show ?thesis unfolding pool_wait(1) by (simp add: count_list_snoc)
  next
    case (pool_move i c new left)
    from owes_update[OF pool_move(2), of x "Some left"] move_owes[OF pool_move(3), of x] old
    show ?thesis unfolding pool_move(1) by simp
  next
    case (pool_assign i c j d c' d' w)
    have "live (s\<lparr>handles := (handles s)[i := Some c']\<rparr>) j d" using pool_assign(3,4) by (simp add: live_def)
    from owes_update[OF this, of x "Some d'"] owes_update[OF pool_assign(2), of x "Some c'"]
      assign_owes[OF pool_assign(5), of x] old
    show ?thesis unfolding pool_assign(1) by (simp add: count_list_snoc)
  next
    case (pool_destroy i c w)
    from owes_update[OF pool_destroy(2), of x None] destroy_owes[OF pool_destroy(3), of x] old
    show ?thesis unfolding pool_destroy(1) by (simp add: count_list_snoc)
  qed
qed

lemma reachable_settled: "pool_reachable wait s \<Longrightarrow> settled s"
proof (induction rule: pool_reachable.induct)
  case pool_start
  then show ?case by (simp add: settled_def empty_pool_def)
qed (rule step_settled)

lemma count_list_zero: "count_list xs x = 0 \<longleftrightarrow> x \<notin> set xs"
  by (induction xs) auto

lemma distinct_count_one: "distinct xs \<longleftrightarrow> (\<forall>x. count_list xs x \<le> 1)"
proof (induction xs)
  case (Cons a xs)
  have "(\<forall>x. count_list (a # xs) x \<le> 1) \<longleftrightarrow> count_list xs a = 0 \<and> (\<forall>x. count_list xs x \<le> 1)"
    by (auto simp: le_Suc_eq)
  with Cons show ?case by (simp add: count_list_zero)
qed simp

text \<open>C38. No transfer is lost or drained twice: however handles are moved, assigned, waited on and
  destroyed, each signal ever created has been waited on exactly once or is still owed by exactly one
  live handle; so once every handle is gone, all have been waited on.\<close>

theorem transfers_drained_once:
  assumes "pool_reachable wait s"
  shows "(\<forall>x. count_list (waited s) x + sum_list (map (owes x) (handles s)) = (if x < created s then 1 else 0))
    \<and> ((\<forall>h\<in>set (handles s). h = None) \<longrightarrow> distinct (waited s) \<and> set (waited s) = {0..<created s})"
proof -
  have all: "count_list (waited s) x + sum_list (map (owes x) (handles s)) = (if x < created s then 1 else 0)" for x
    using reachable_settled[OF assms] by (simp add: settled_def)
  have "distinct (waited s) \<and> set (waited s) = {0..<created s}" if gone: "\<forall>h\<in>set (handles s). h = None"
  proof -
    have "map (owes x) (handles s) = map (\<lambda>h. 0) (handles s)" for x using gone by (intro map_cong) auto
    then have "sum_list (map (owes x) (handles s)) = 0" for x by (simp add: map_replicate_const)
    with all have c: "count_list (waited s) x = (if x < created s then 1 else 0)" for x by (metis add.right_neutral)
    have "x \<in> set (waited s) \<longleftrightarrow> x < created s" for x using c[of x] count_list_zero[of "waited s" x] by (auto split: if_splits)
    with c show ?thesis by (auto simp: distinct_count_one)
  qed
  with all show ?thesis by blast
qed

theorem transfers_drained_once_witness:
  "count_list (waited (empty_pool\<lparr>handles := [Some \<lparr>co_signal = Some 0, co_result = None\<rparr>], created := 1\<rparr>)) 0
     + sum_list (map (owes 0) [Some \<lparr>co_signal = Some 0, co_result = None\<rparr>]) = 1"
proof -
  let ?c = "\<lparr>co_signal = Some 0, co_result = None\<rparr> :: nat completion"
  have "pool_step (\<lambda>_. Succeeded) empty_pool
      (empty_pool\<lparr>handles := handles empty_pool @ [Some ?c], created := Suc (created empty_pool)\<rparr>)"
    by (rule pool_create) (simp add: new_completion_def empty_pool_def)
  from transfers_drained_once[OF pool_next[OF pool_start this]] show ?thesis
    by (auto simp: empty_pool_def dest: spec[of _ 0])
qed

end
