(* ===== verification/Cancellable_Gate.thy ===== *)
theory Cancellable_Gate
  imports Gufo_Prelude
begin

text \<open>
  The FIFO admission gate of \<open>src/core/cancellable_gate.hpp\<close>. The mutex makes each of these one step: the
  entry of \<open>Acquire\<close>, one turn of its waiting loop, and the destruction of a lease. What the client's
  cancellation check does in a turn is the argument \<open>check\<close>. The gate is polled every 10 ms, so any
  waiting ticket may take a turn at any time.
\<close>

datatype cancel_check = CheckThrows | CheckStops | CheckGoesOn
datatype turn_outcome = Rethrown | Cancelled | Granted | StillWaiting

record gate =
  gate_queue :: "u64 list"
  gate_next :: u64
  gate_active :: nat
  gate_capacity :: nat

definition new_gate :: "nat \<Rightarrow> gate option" where
  "new_gate capacity =
     (if capacity = 0 then None
      else Some \<lparr>gate_queue = [], gate_next = 0, gate_active = 0, gate_capacity = capacity\<rparr>)"

definition gate_enter :: "gate \<Rightarrow> u64 option \<times> gate" where
  "gate_enter g =
     (if length (gate_queue g) \<ge> 16 then (None, g)
      else let ticket = gate_next g + 1
           in (Some ticket, g\<lparr>gate_next := ticket, gate_queue := gate_queue g @ [ticket]\<rparr>))"

definition gate_turn :: "u64 \<Rightarrow> cancel_check \<Rightarrow> gate \<Rightarrow> turn_outcome \<times> gate" where
  "gate_turn ticket check g =
     (case check of
        CheckThrows \<Rightarrow> (Rethrown, g\<lparr>gate_queue := filter (\<lambda>t. t \<noteq> ticket) (gate_queue g)\<rparr>)
      | CheckStops \<Rightarrow> (Cancelled, g\<lparr>gate_queue := filter (\<lambda>t. t \<noteq> ticket) (gate_queue g)\<rparr>)
      | CheckGoesOn \<Rightarrow>
          if gate_active g < gate_capacity g \<and> hd (gate_queue g) = ticket
          then (Granted, g\<lparr>gate_queue := tl (gate_queue g), gate_active := gate_active g + 1\<rparr>)
          else (StillWaiting, g))"

definition gate_release :: "gate \<Rightarrow> gate" where
  "gate_release g = g\<lparr>gate_active := gate_active g - 1\<rparr>"

section \<open>The clients\<close>

text \<open>\<open>leases\<close> counts the leases alive, \<open>granted\<close> lists the tickets served so far, oldest first, and
  \<open>entered\<close> counts the tickets handed out.\<close>

record system =
  sys_gate :: gate
  leases :: nat
  granted :: "u64 list"
  entered :: nat

inductive gate_step :: "system \<Rightarrow> system \<Rightarrow> bool" where
  gate_refused: "gate_enter (sys_gate s) = (None, g) \<Longrightarrow> gate_step s (s\<lparr>sys_gate := g\<rparr>)"
| gate_entered: "gate_enter (sys_gate s) = (Some ticket, g)
    \<Longrightarrow> gate_step s (s\<lparr>sys_gate := g, entered := Suc (entered s)\<rparr>)"
| gate_leaves: "ticket \<in> set (gate_queue (sys_gate s)) \<Longrightarrow> gate_turn ticket check (sys_gate s) = (outcome, g)
    \<Longrightarrow> outcome \<noteq> Granted \<Longrightarrow> gate_step s (s\<lparr>sys_gate := g\<rparr>)"
| gate_grants: "ticket \<in> set (gate_queue (sys_gate s)) \<Longrightarrow> gate_turn ticket check (sys_gate s) = (Granted, g)
    \<Longrightarrow> gate_step s (s\<lparr>sys_gate := g, leases := Suc (leases s), granted := granted s @ [ticket]\<rparr>)"
| gate_releases: "0 < leases s
    \<Longrightarrow> gate_step s (s\<lparr>sys_gate := gate_release (sys_gate s), leases := leases s - 1\<rparr>)"

inductive gate_reachable :: "system \<Rightarrow> bool" where
  gate_start: "new_gate capacity = Some g
    \<Longrightarrow> gate_reachable \<lparr>sys_gate = g, leases = 0, granted = [], entered = 0\<rparr>"
| gate_next_step: "gate_reachable s \<Longrightarrow> gate_step s s' \<Longrightarrow> gate_reachable s'"

definition gate_ok :: "system \<Rightarrow> bool" where
  "gate_ok s \<longleftrightarrow>
     gate_active (sys_gate s) = leases s \<and> leases s \<le> gate_capacity (sys_gate s)
     \<and> 0 < gate_capacity (sys_gate s) \<and> length (gate_queue (sys_gate s)) \<le> 16
     \<and> (entered s < 2 ^ 64 \<longrightarrow>
          unat (gate_next (sys_gate s)) = entered s
          \<and> sorted_wrt (<) (granted s @ gate_queue (sys_gate s))
          \<and> (\<forall>t\<in>set (granted s @ gate_queue (sys_gate s)). t \<le> gate_next (sys_gate s)))"

lemma turn_shape:
  assumes "gate_turn ticket check g = (outcome, g')"
  shows "if outcome = Granted then ticket = hd (gate_queue g) \<and> gate_active g < gate_capacity g
      \<and> g' = g\<lparr>gate_queue := tl (gate_queue g), gate_active := gate_active g + 1\<rparr>
    else \<exists>P. g' = g\<lparr>gate_queue := filter P (gate_queue g)\<rparr>"
proof (cases check)
  case CheckGoesOn
  have "g = g\<lparr>gate_queue := filter (\<lambda>_. True) (gate_queue g)\<rparr>" by (cases g) simp
  then have "\<exists>P. g = g\<lparr>gate_queue := filter P (gate_queue g)\<rparr>" by (rule exI[of _ "\<lambda>_. True"])
  with CheckGoesOn assms show ?thesis by (auto simp: gate_turn_def split: if_splits)
qed (use assms in \<open>auto simp: gate_turn_def\<close>)

lemma filter_tail_ok:
  assumes "sorted_wrt (<) (xs @ ys)" shows "sorted_wrt (<) (xs @ filter P (ys :: u64 list))"
  using assms by (auto simp: sorted_wrt_append sorted_wrt_filter)

lemma step_gate_ok:
  assumes "gate_step s s'" "gate_ok s" shows "gate_ok s'"
  using assms(1)
proof cases
  case (gate_refused g)
  then have "g = sys_gate s" by (auto simp: gate_enter_def Let_def split: if_splits)
  with gate_refused assms(2) show ?thesis by simp
next
  case (gate_entered ticket g)
  then have g: "ticket = gate_next (sys_gate s) + 1" "length (gate_queue (sys_gate s)) < 16"
    "g = (sys_gate s)\<lparr>gate_next := ticket, gate_queue := gate_queue (sys_gate s) @ [ticket]\<rparr>"
    by (auto simp: gate_enter_def Let_def split: if_splits)
  show ?thesis
  proof (cases "Suc (entered s) < 2 ^ 64")
    case True
    with assms(2) have n: "unat (gate_next (sys_gate s)) = entered s" by (simp add: gate_ok_def)
    with True have u: "unat ticket = Suc (entered s)" unfolding g(1)
      by (simp add: unat_word_ariths)
    have "gate_next (sys_gate s) < ticket" using n u by (simp add: word_less_nat_alt)
    then have lt: "t < ticket" if "t \<in> set (granted s @ gate_queue (sys_gate s))" for t
      using assms(2) True that unfolding gate_ok_def by fastforce
    then show ?thesis using gate_entered(1) g assms(2) True u
      by (auto simp: gate_ok_def sorted_wrt_append intro: less_imp_le)
  next
    case False
    with gate_entered(1) g assms(2) show ?thesis by (auto simp: gate_ok_def)
  qed
next
  case (gate_leaves ticket check outcome g)
  then obtain P where g: "g = (sys_gate s)\<lparr>gate_queue := filter P (gate_queue (sys_gate s))\<rparr>"
    using turn_shape by fastforce
  have "length (filter P (gate_queue (sys_gate s))) \<le> 16" using assms(2) length_filter_le[of P "gate_queue (sys_gate s)"]
    unfolding gate_ok_def by linarith
  with assms(2) filter_tail_ok[of "granted s" "gate_queue (sys_gate s)" P] show ?thesis
    unfolding gate_leaves(1) g by (auto simp: gate_ok_def)
next
  case (gate_grants ticket check g)
  then have g: "ticket = hd (gate_queue (sys_gate s))" "gate_active (sys_gate s) < gate_capacity (sys_gate s)"
    "g = (sys_gate s)\<lparr>gate_queue := tl (gate_queue (sys_gate s)), gate_active := gate_active (sys_gate s) + 1\<rparr>"
    using turn_shape[OF gate_grants(3)] by auto
  have "gate_queue (sys_gate s) = ticket # tl (gate_queue (sys_gate s))"
    using gate_grants(2) g(1) by (cases "gate_queue (sys_gate s)") auto
  then have q: "(granted s @ [ticket]) @ tl (gate_queue (sys_gate s)) = granted s @ gate_queue (sys_gate s)" by simp
  show ?thesis unfolding gate_grants(1) g(3) gate_ok_def using assms(2) g(2) q
    by (auto simp: gate_ok_def simp del: append_assoc)
next
  case gate_releases
  then show ?thesis using assms(2) by (auto simp: gate_ok_def gate_release_def)
qed

lemma reachable_gate_ok: "gate_reachable s \<Longrightarrow> gate_ok s"
proof (induction rule: gate_reachable.induct)
  case (gate_start capacity g)
  then show ?case by (auto simp: new_gate_def gate_ok_def split: if_splits)
qed (rule step_gate_ok)



end
