(* ===== verification/Spec2Isabelle.thy ===== *)
theory Spec2Isabelle
  imports
    Ledger_Properties
    Tp_Canonical Tp_Channel_Properties Tp_Handshake_Properties Tp_Broker_Properties
    Prompt_Lookup_Properties
    Utf8_Decoder Stop_Filter Quote_Tracker
    Json_Properties Stop_Request
    Base64 Ws_Frames Web_Socket_Properties Ws_Upgrade
    Capture_Plan Cache_Identity Completion Cancellable_Gate
begin

text \<open>
  A verification library of gufo, a local inference engine for AMD Strix Halo hosts. gufo serves text,
  audio and image models over HTTP and WebSockets; a resource ledger and a prefix cache decide what
  conversations stay in memory, a control channel keeps two tensor-parallel hosts in step, and
  streaming filters turn the model's output pieces into well-formed text. This development covers
  that host-side logic. The model engines themselves (\<open>src/models\<close>, \<open>src/families\<close>) are floating-point
  GPU code and are outside it.

  \<^bold>\<open>The parts and their theories.\<close>

  \<^item> \<open>Gufo_Prelude\<close>: machine integers as words (\<open>size_t\<close> is 64 bits), strings and bytes, lemma
    collections, sums over updated lists, bytes bit by bit. \<open>Chunked\<close>: the contract of a filter that must
    not care how its input is cut, as the locale \<open>chunked\<close>, interpreted for the UTF-8 decoder, the stop
    filter and the quote tracker.
  \<^item> Resource ledger, \<open>src/cache/ledger.cpp\<close>: \<open>Ledger\<close> (state and every operation), \<open>Ledger_Counters\<close> and
    \<open>Ledger_Heap\<close> (what operations do to the counters and to the owners), \<open>Ledger_Steps\<close> (programs of
    reservations, charges and guards as a step relation), \<open>Ledger_Properties\<close> (the budget is
    never passed, the counters are the exact sums, guards and charges are released once).
  \<^item> Two-host control protocol, \<open>src/cli/serve/tp_control.cpp\<close>: \<open>Sampling_Config\<close> and \<open>Tp_Types\<close> (data),
    \<open>Tp_Wire\<close>, \<open>Tp_Codec\<close> and \<open>Tp_Validate\<close> (encoding and validation), \<open>Tp_Roundtrip\<close> and \<open>Tp_Canonical\<close>
    (both directions of the codec), \<open>Tp_Channel\<close> (framing over scripted sockets; delivery and
    canonical encodings), \<open>Tp_Handshake\<close> (pairing, authentication, no leak), \<open>Tp_Broker\<close>
    (the response broker as a step relation).
  \<^item> Prompt-lookup drafting, \<open>src/core/speculative/prompt_lookup.hpp\<close>: \<open>Prompt_Heads\<close> (the hash table,
    locale \<open>head_table\<close>: it refines a finite map), \<open>Prompt_Lookup\<close> and its properties (the index is exact, a proposed copy is real and longest).
  \<^item> Streaming text: \<open>Utf8_Decoder\<close> (\<open>src/core/utf8.hpp\<close>), \<open>Stop_Filter\<close>
    (\<open>src/cli/serve/stop_sequences.hpp\<close>), \<open>Quote_Tracker\<close> (\<open>src/cli/serve/quote_tracker.hpp\<close>).
    Each is proved independent of how the model cuts its output, and right on the whole.
  \<^item> JSON, \<open>src/core/json.hpp\<close>: \<open>Json\<close> (values, accessors, serializer), \<open>Json_Parser\<close> (the parser), \<open>Json_Grammar\<close>
    (RFC 8259 as inductive relations, and the parser's equivalence with them), \<open>Json_Properties\<close> (exactness,
    termination, limits, round trip), \<open>Stop_Request\<close> (\<open>ParseStopSequences\<close>, the stop sequences of a request).
  \<^item> WebSockets, \<open>src/cli/serve/websocket.cpp\<close>: \<open>Base64\<close> (\<open>src/cli/serve/audio_stream.hpp\<close>), \<open>Ws_Frames\<close>
    (the frame format), \<open>Web_Socket\<close> (reader thread and consumer as a step relation:
    queue bounds, framed output, delivery of fragmented messages), \<open>Ws_Upgrade\<close> (the handshake).
  \<^item> Cache support: \<open>Capture_Plan\<close> (\<open>PlanCaptures\<close> of \<open>src/cache/retention.cpp\<close>), \<open>Cache_Identity\<close>
    (\<open>src/cache/identity.cpp\<close>), \<open>Completion\<close> (\<open>src/cache/completion.cpp\<close>), \<open>Cancellable_Gate\<close>
    (\<open>src/core/cancellable_gate.hpp\<close>).

  \<^bold>\<open>How code becomes definitions.\<close> A class is a record, an enumeration a datatype, a member function a
  definition from the old state to result and new state; an exception or an error return is \<open>None\<close> or
  \<open>Inl\<close>. Integers keep their width as words where they can wrap; sizes of containers and positions in
  them are natural numbers, which the code's own guards keep in range. A method under a mutex is one
  atomic step; a method that waits on a condition variable is split at the wait. Threads are step
  relations, and the invariants are proved by rule induction over what is reachable.

  \<^bold>\<open>Parameters.\<close> Code outside the program is an argument: sockets (scripts of results, or the bytes to come
  and the room left), HMAC-SHA256 and SHA-1 (functions of bytes; a property that needs it assumes a
  digest of the right length), the draft filter of prompt lookup, the adapter's prefill plan, transfer
  signals, a client's cancellation check, the library's decimal spelling of a \<open>double\<close> and its reading.

  \<^bold>\<open>Loops.\<close> Loops that consume their input are recursive functions with measures. The hash-table probes and
  the candidate search of prompt lookup, whose end rests on an invariant, are \<open>partial_function\<close>s, and
  their properties show that they return. The WebSocket reader consumes at least six bytes a frame; its
  measure is twice the input left plus its phase.

  \<^bold>\<open>Not modelled.\<close> The sampler's floating-point arithmetic, device storage and kernels, file-system
  and HTTP glue, the constrained-decoding automata, the prefix index, retention
  records, slots and the scheduler. The last four are pure host logic and are the next to be added.
  \<open>EncodePcm16\<close> is left out of its file because it needs floating point.
\<close>

end
